(* ===== verification/Prelude.thy ===== *)
theory Prelude
  imports Main "HOL-Library.Word"
begin

text \<open>
  Shared vocabulary of the development.

  \<^item> Machine types: \<open>u8\<close>, \<open>u16\<close>, \<open>u32\<close>, \<open>u64\<close> for the C types of
    \<^verbatim>\<open>kernel/types.h\<close>; a byte memory is a function from addresses to bytes, and
    \<open>ldn\<close>/\<open>stn\<close> read and write little-endian integers in it.
  \<^item> Kernel operations are state transformers with an explicit outcome: a value, a
    kernel panic, a switch to the scheduler, a spin on a lock some other CPU holds, or a
    loop bound that was too small (which the enough-fuel lemmas exclude).
  \<^item> \<open>wp\<close> is the weakest precondition of an operation for normal return, with its
    rules collected in \<open>wp_simps\<close>.
\<close>

unbundle bit_operations_syntax

named_theorems wp_simps "weakest preconditions of kernel operations"
named_theorems const_defs "numeric constants of the headers"

section \<open>Machine types\<close>

type_synonym u8 = "8 word"
type_synonym u16 = "16 word"
type_synonym u32 = "32 word"
type_synonym u64 = "64 word"

text \<open>C's \<^verbatim>\<open>int\<close> and \<^verbatim>\<open>short\<close>: the same words, read with \<open>sint\<close> where the sign matters.\<close>

type_synonym i32 = "32 word"
type_synonym i16 = "16 word"

text \<open>A byte-addressed store: physical memory, or the data of a disk block.\<close>

type_synonym bytes = "nat \<Rightarrow> u8"

section \<open>Little-endian integers in a byte store\<close>

fun ldn :: "nat \<Rightarrow> bytes \<Rightarrow> nat \<Rightarrow> 'w::len word" where
  "ldn 0 m a = 0"
| "ldn (Suc k) m a = ucast (m a) OR push_bit 8 (ldn k m (Suc a))"

fun stn :: "nat \<Rightarrow> bytes \<Rightarrow> nat \<Rightarrow> 'w::len word \<Rightarrow> bytes" where
  "stn 0 m a v = m"
| "stn (Suc k) m a v = (stn k m (Suc a) (drop_bit 8 v))(a := ucast v)"

definition ld16 :: "bytes \<Rightarrow> nat \<Rightarrow> u16" where "ld16 m a = ldn 2 m a"
definition ld32 :: "bytes \<Rightarrow> nat \<Rightarrow> u32" where "ld32 m a = ldn 4 m a"
definition ld64 :: "bytes \<Rightarrow> nat \<Rightarrow> u64" where "ld64 m a = ldn 8 m a"
definition st16 :: "bytes \<Rightarrow> nat \<Rightarrow> u16 \<Rightarrow> bytes" where "st16 m a v = stn 2 m a v"
definition st32 :: "bytes \<Rightarrow> nat \<Rightarrow> u32 \<Rightarrow> bytes" where "st32 m a v = stn 4 m a v"
definition st64 :: "bytes \<Rightarrow> nat \<Rightarrow> u64 \<Rightarrow> bytes" where "st64 m a v = stn 8 m a v"

lemma ldn_cong:
  fixes m m' :: bytes
  shows "(\<And>i. i < k \<Longrightarrow> m (a + i) = m' (a + i)) \<Longrightarrow> (ldn k m a :: 'w::len word) = ldn k m' a"
proof (induction k arbitrary: a)
  case 0
  then show ?case by simp
next
  case (Suc k)
  have "m a = m' a" using Suc.prems [of 0] by simp
  moreover have "(ldn k m (Suc a) :: 'w word) = ldn k m' (Suc a)"
    using Suc.prems [of "Suc i" for i] by (intro Suc.IH) simp
  ultimately show ?case by (simp only: ldn.simps)
qed

lemma stn_other: "b < a \<or> a + k \<le> b \<Longrightarrow> stn k m a v b = m b"
  by (induction k arbitrary: a v) auto

lemma stn_same_byte: "ldn k (stn k m a v) a = take_bit (8 * k) v"
proof (induction k arbitrary: a v)
  case 0
  then show ?case by simp
next
  case (Suc k)
  have "ldn k ((stn k m (Suc a) (drop_bit 8 v))(a := ucast v)) (Suc a)
      = ldn k (stn k m (Suc a) (drop_bit 8 v)) (Suc a)"
    by (rule ldn_cong) simp
  also have "\<dots> = take_bit (8 * k) (drop_bit 8 v)"
    by (rule Suc.IH)
  finally have *: "ldn k ((stn k m (Suc a) (drop_bit 8 v))(a := ucast v)) (Suc a)
      = take_bit (8 * k) (drop_bit 8 v)" .
  show ?case
    unfolding ldn.simps stn.simps *
    by (rule bit_word_eqI) (auto simp add: bit_simps not_le not_less)
qed

lemma ldn_stn_other:
  "a + k \<le> b \<or> b + j \<le> a \<Longrightarrow> ldn j (stn k m a v) b = ldn j m b"
  by (rule ldn_cong, rule stn_other) auto

lemma ld64_st64 [simp]: "ld64 (st64 m a v) a = v"
  by (simp add: ld64_def st64_def stn_same_byte take_bit_word_eq_self)

lemma ld32_st32 [simp]: "ld32 (st32 m a v) a = v"
  by (simp add: ld32_def st32_def stn_same_byte take_bit_word_eq_self)

lemma ld16_st16 [simp]: "ld16 (st16 m a v) a = v"
  by (simp add: ld16_def st16_def stn_same_byte take_bit_word_eq_self)

lemma ld64_st64_other: "a + 8 \<le> b \<or> b + 8 \<le> a \<Longrightarrow> ld64 (st64 m a v) b = ld64 m b"
  by (simp add: ld64_def st64_def ldn_stn_other)

lemma ld32_st32_other: "a + 4 \<le> b \<or> b + 4 \<le> a \<Longrightarrow> ld32 (st32 m a v) b = ld32 m b"
  by (simp add: ld32_def st32_def ldn_stn_other)

lemma ld64_cong: "(\<And>i. i < 8 \<Longrightarrow> m (a + i) = m' (a + i)) \<Longrightarrow> ld64 m a = ld64 m' a"
  unfolding ld64_def by (rule ldn_cong)

lemma ld32_cong: "(\<And>i. i < 4 \<Longrightarrow> m (a + i) = m' (a + i)) \<Longrightarrow> ld32 m a = ld32 m' a"
  unfolding ld32_def by (rule ldn_cong)

lemma ldn_zero: "ldn k (\<lambda>_. 0) a = 0"
  by (induction k arbitrary: a) simp_all

lemma ld64_zero: "ld64 (\<lambda>_. 0) a = 0"
  by (simp add: ld64_def ldn_zero)

lemma st64_other: "b < a \<or> a + 8 \<le> b \<Longrightarrow> st64 m a v b = m b"
  by (simp add: st64_def stn_other)

lemma st32_other: "b < a \<or> a + 4 \<le> b \<Longrightarrow> st32 m a v b = m b"
  by (simp add: st32_def stn_other)

section \<open>Names of kernel objects used as locks and as sleep channels\<close>

text \<open>
  The kernel identifies a spinlock by the address of its \<^verbatim>\<open>struct spinlock\<close> and a sleep
  channel by an arbitrary kernel address. The model names the objects of the kernel
  that play these roles; objects that live in arrays carry their index, pipes their
  page address.
\<close>

datatype lockid =
    L_kmem | L_pid | L_wait | L_proc nat | L_bcache | L_buf nat | L_log | L_itable
  | L_inode nat | L_ftable | L_pipe u64 | L_cons | L_uart_tx | L_ticks | L_vdisk | L_pr

datatype chan =
    Ch_proc nat | Ch_sleeplock lockid | Ch_log | Ch_pipe_nread u64 | Ch_pipe_nwrite u64
  | Ch_cons_r | Ch_uart_tx_r | Ch_ticks | Ch_disk_free | Ch_buf nat

section \<open>Kernel operations: state transformers with an outcome\<close>

text \<open>
  \<open>Ok a s\<close>: the operation returned \<open>a\<close> in state \<open>s\<close>.
  \<open>Panic msg\<close>: it called \<open>panic\<close> and the machine has stopped.
  \<open>Swtch s\<close>: the running thread gave up the CPU in \<open>sched\<close> (asleep, yielding or
  exiting); \<open>s\<close> is the state at the call of \<open>swtch\<close>.
  \<open>Spin l\<close>: it spins on a lock that another CPU holds.
  \<open>Nofuel\<close>: an iteration bound of the model was exceeded.
  \<open>Undef\<close>: C leaves the behaviour undefined (a missing variadic argument).
\<close>

datatype ('a, 's) outcome =
    Ok 'a 's
  | Panic string
  | Swtch 's
  | Spin lockid
  | Nofuel
  | Undef

type_synonym ('s, 'a) kop = "'s \<Rightarrow> ('a, 's) outcome"

abbreviation ret :: "'a \<Rightarrow> ('s, 'a) kop" where
  "ret \<equiv> Ok"

definition bnd :: "('s, 'a) kop \<Rightarrow> ('a \<Rightarrow> ('s, 'b) kop) \<Rightarrow> ('s, 'b) kop" where
  "bnd m f = (\<lambda>s. case m s of Ok a s' \<Rightarrow> f a s' | Panic e \<Rightarrow> Panic e
     | Swtch s' \<Rightarrow> Swtch s' | Spin l \<Rightarrow> Spin l | Nofuel \<Rightarrow> Nofuel | Undef \<Rightarrow> Undef)"

definition seq :: "('s, 'a) kop \<Rightarrow> ('s, 'b) kop \<Rightarrow> ('s, 'b) kop" where
  "seq m n = bnd m (\<lambda>_. n)"

definition gets :: "('s \<Rightarrow> 'a) \<Rightarrow> ('s, 'a) kop" where
  "gets f = (\<lambda>s. Ok (f s) s)"

definition modify :: "('s \<Rightarrow> 's) \<Rightarrow> ('s, unit) kop" where
  "modify f = (\<lambda>s. Ok () (f s))"

definition panic :: "string \<Rightarrow> ('s, 'a) kop" where
  "panic e = (\<lambda>s. Panic e)"

definition undef :: "('s, 'a) kop" where
  "undef = (\<lambda>s. Undef)"

definition kwhen :: "bool \<Rightarrow> ('s, unit) kop \<Rightarrow> ('s, unit) kop" where
  "kwhen b m = (if b then m else ret ())"

primrec stmts :: "('s, unit) kop list \<Rightarrow> ('s, unit) kop" where
  "stmts [] = ret ()"
| "stmts (m # ms) = seq m (stmts ms)"

text \<open>A counted loop without an early exit.\<close>

primrec kfor :: "'i list \<Rightarrow> ('i \<Rightarrow> ('s, unit) kop) \<Rightarrow> ('s, unit) kop" where
  "kfor [] f = ret ()"
| "kfor (i # is) f = seq (f i) (kfor is f)"

text \<open>
  A counted loop whose body may leave it (\<^verbatim>\<open>break\<close>, \<^verbatim>\<open>goto\<close> or \<^verbatim>\<open>return\<close>) with a value;
  \<open>None\<close> is the result of running to the end.
\<close>

primrec kfind :: "'i list \<Rightarrow> ('i \<Rightarrow> ('s, 'a option) kop) \<Rightarrow> ('s, 'a option) kop" where
  "kfind [] f = ret None"
| "kfind (i # is) f =
     bnd (f i) (\<lambda>r. case r of Some a \<Rightarrow> ret (Some a) | None \<Rightarrow> kfind is f)"

text \<open>
  A loop over loop variables \<open>x\<close>: the body returns \<open>Inl x'\<close> to go on with \<open>x'\<close> and
  \<open>Inr a\<close> to leave the loop with \<open>a\<close>.
\<close>

primrec kiter :: "nat \<Rightarrow> ('x \<Rightarrow> ('s, 'x + 'a) kop) \<Rightarrow> 'x \<Rightarrow> ('s, 'a) kop" where
  "kiter 0 f x = (\<lambda>s. Nofuel)"
| "kiter (Suc k) f x = bnd (f x) (\<lambda>r. case r of Inl x' \<Rightarrow> kiter k f x' | Inr a \<Rightarrow> ret a)"

lemma kiter_numeral [simp]:
  "kiter (numeral k) f x =
     bnd (f x) (\<lambda>r. case r of Inl x' \<Rightarrow> kiter (pred_numeral k) f x' | Inr a \<Rightarrow> ret a)"
  by (simp add: numeral_eq_Suc)

lemmas kop_defs = bnd_def seq_def gets_def modify_def panic_def kwhen_def

lemma bnd_Ok: "m s = Ok a s' \<Longrightarrow> bnd m f s = f a s'"
  by (simp add: bnd_def)

lemma bnd_Panic: "m s = Panic e \<Longrightarrow> bnd m f s = Panic e"
  by (simp add: bnd_def)

lemma seq_Ok: "m s = Ok a s' \<Longrightarrow> seq m n s = n s'"
  by (simp add: seq_def bnd_def)

lemma bnd_eq_Ok:
  "bnd m f s = Ok b s'' \<longleftrightarrow> (\<exists>a s'. m s = Ok a s' \<and> f a s' = Ok b s'')"
  by (auto simp: bnd_def split: outcome.splits)

lemma seq_eq_Ok:
  "seq m n s = Ok b s'' \<longleftrightarrow> (\<exists>a s'. m s = Ok a s' \<and> n s' = Ok b s'')"
  by (simp add: seq_def bnd_eq_Ok)

lemma gets_apply [simp]: "gets f s = Ok (f s) s"
  by (simp add: gets_def)

lemma modify_apply [simp]: "modify f s = Ok () (f s)"
  by (simp add: modify_def)

lemma panic_apply [simp]: "panic e s = Panic e"
  by (simp add: panic_def)

lemma kwhen_simps [simp]: "kwhen True m = m" "kwhen False m = ret ()"
  by (simp_all add: kwhen_def)

lemma bnd_ret [simp]: "bnd (ret a) f = f a"
  by (simp add: bnd_def)

lemma bnd_gets_apply [simp]: "bnd (gets f) g s = g (f s) s"
  by (simp add: bnd_def)

lemma seq_modify_apply [simp]: "seq (modify f) m s = m (f s)"
  by (simp add: seq_def bnd_def)

lemma seq_ret [simp]: "seq (ret a) m = m"
  by (simp add: seq_def)

lemma bnd_panic [simp]: "bnd (panic e) f = panic e"
  by (simp add: bnd_def panic_def)

lemma seq_panic [simp]: "seq (panic e) m = panic e"
  by (simp add: seq_def)

lemma bnd_assoc: "bnd (bnd m f) g = bnd m (\<lambda>a. bnd (f a) g)"
  by (rule ext) (simp add: bnd_def split: outcome.split)

lemma seq_assoc: "seq (seq m n) k = seq m (seq n k)"
  by (simp add: seq_def bnd_assoc)

lemma bnd_seq: "bnd (seq m n) f = seq m (bnd n f)"
  by (simp add: seq_def bnd_assoc)

section \<open>Weakest preconditions\<close>

definition wp :: "('s, 'a) kop \<Rightarrow> ('a \<Rightarrow> 's \<Rightarrow> bool) \<Rightarrow> 's \<Rightarrow> bool" where
  "wp m Q s = (case m s of Ok a s' \<Rightarrow> Q a s' | _ \<Rightarrow> False)"

lemma wp_iff: "wp m Q s \<longleftrightarrow> (\<exists>a s'. m s = Ok a s' \<and> Q a s')"
  by (simp add: wp_def split: outcome.split)

lemma wpI: "m s = Ok a s' \<Longrightarrow> Q a s' \<Longrightarrow> wp m Q s"
  by (simp add: wp_def)

lemma wpE:
  assumes "wp m Q s"
  obtains a s' where "m s = Ok a s'" and "Q a s'"
  using assms by (auto simp: wp_iff)

lemma wp_mono: "wp m Q s \<Longrightarrow> (\<And>a s'. Q a s' \<Longrightarrow> R a s') \<Longrightarrow> wp m R s"
  by (auto simp: wp_iff)

lemma wp_conj: "wp m Q s \<Longrightarrow> wp m R s \<Longrightarrow> wp m (\<lambda>a s'. Q a s' \<and> R a s') s"
  by (auto simp: wp_iff)

lemma wp_Ok: "m s = Ok a s' \<Longrightarrow> wp m Q s = Q a s'"
  by (simp add: wp_def)

lemma wp_ret [wp_simps]: "wp (ret a) Q s = Q a s"
  by (simp add: wp_def)

lemma wp_bnd [wp_simps]: "wp (bnd m f) Q s = wp m (\<lambda>a. wp (f a) Q) s"
  by (simp add: wp_def bnd_def split: outcome.split)

lemma wp_seq [wp_simps]: "wp (seq m n) Q s = wp m (\<lambda>_. wp n Q) s"
  by (simp add: seq_def wp_bnd)

lemma wp_gets [wp_simps]: "wp (gets f) Q s = Q (f s) s"
  by (simp add: wp_def)

lemma wp_modify [wp_simps]: "wp (modify f) Q s = Q () (f s)"
  by (simp add: wp_def)

lemma wp_panic [wp_simps]: "wp (panic e) Q s = False"
  by (simp add: wp_def)

lemma wp_if [wp_simps]:
  "wp (if b then m else n) Q s = (if b then wp m Q s else wp n Q s)"
  by simp

lemma wp_kwhen [wp_simps]:
  "wp (kwhen b m) Q s = (if b then wp m Q s else Q () s)"
  by (simp add: kwhen_def wp_ret)

lemma wp_case_option [wp_simps]:
  "wp (case x of None \<Rightarrow> m | Some y \<Rightarrow> f y) Q s =
     (case x of None \<Rightarrow> wp m Q s | Some y \<Rightarrow> wp (f y) Q s)"
  by (simp split: option.split)

text \<open>Sequences of statements, one at a time.\<close>

lemma wp_stmts_Cons:
  assumes "wp m (\<lambda>_. R) s" "\<And>t. R t \<Longrightarrow> wp (stmts ms) Q t"
  shows "wp (stmts (m # ms)) Q s"
  using wp_mono [OF assms(1), of "\<lambda>_. wp (stmts ms) Q"] assms(2) by (simp add: wp_seq)

lemma wp_stmts_Nil: "Q () s \<Longrightarrow> wp (stmts []) Q s"
  by (simp add: wp_ret)

text \<open>Loop rules: an invariant indexed by what the loop has done so far.\<close>

lemma wp_kfor:
  assumes step: "\<And>ys i zs s. xs = ys @ i # zs \<Longrightarrow> I ys s \<Longrightarrow>
      wp (f i) (\<lambda>_ s'. I (ys @ [i]) s') s"
    and init: "I [] s"
  shows "wp (kfor xs f) (\<lambda>_ s'. I xs s') s"
proof -
  have "wp (kfor zs f) (\<lambda>_ s'. I xs s') s" if "xs = ys @ zs" "I ys s" for ys zs s
    using that
  proof (induction zs arbitrary: ys s)
    case Nil
    then show ?case by (simp add: wp_ret)
  next
    case (Cons z zs)
    from step [OF Cons.prems] have "wp (f z) (\<lambda>_ s'. I (ys @ [z]) s') s" .
    then have "wp (f z) (\<lambda>_ s'. wp (kfor zs f) (\<lambda>_ s''. I xs s'') s') s"
      using Cons.IH [of "ys @ [z]"] Cons.prems(1) by (auto elim: wp_mono)
    then show ?case by (simp add: wp_seq)
  qed
  from this [of "[]" xs s] init show ?thesis by simp
qed

lemma wp_kfind:
  assumes step: "\<And>ys i zs s. xs = ys @ i # zs \<Longrightarrow> I ys s \<Longrightarrow>
      wp (f i) (\<lambda>r s'. case r of None \<Rightarrow> I (ys @ [i]) s' | Some a \<Rightarrow> Q a s') s"
    and init: "I [] s"
  shows "wp (kfind xs f) (\<lambda>r s'. case r of None \<Rightarrow> I xs s' | Some a \<Rightarrow> Q a s') s"
proof -
  let ?R = "\<lambda>r s'. case r of None \<Rightarrow> I xs s' | Some a \<Rightarrow> Q a s'"
  have "wp (kfind zs f) ?R s" if "xs = ys @ zs" "I ys s" for ys zs s
    using that
  proof (induction zs arbitrary: ys s)
    case Nil
    then show ?case by (simp add: wp_ret)
  next
    case (Cons z zs)
    have IH: "wp (kfind zs f) ?R s'" if "I (ys @ [z]) s'" for s'
      using Cons.IH [of "ys @ [z]"] Cons.prems(1) that by simp
    have "wp (case r of Some a \<Rightarrow> ret (Some a) | None \<Rightarrow> kfind zs f) ?R s'"
      if "case r of None \<Rightarrow> I (ys @ [z]) s' | Some a \<Rightarrow> Q a s'" for r s'
      using that IH by (cases r) (simp_all add: wp_ret)
    then have "wp (f z) (\<lambda>r s'. wp (case r of Some a \<Rightarrow> ret (Some a)
        | None \<Rightarrow> kfind zs f) ?R s') s"
      by (rule wp_mono [OF step [OF Cons.prems]])
    then show ?case by (simp add: wp_bnd)
  qed
  from this [of "[]" xs s] init show ?thesis by simp
qed

text \<open>
  The rule for \<open>kiter\<close> proves that the loop returns: the body decreases a measure that
  starts below the fuel.
\<close>

lemma wp_kiter:
  assumes step: "\<And>x s. I x s \<Longrightarrow>
      wp (f x) (\<lambda>r s'. case r of Inl x' \<Rightarrow> I x' s' \<and> \<mu> x' < (\<mu> x :: nat) | Inr a \<Rightarrow> Q a s') s"
    and init: "I x s" and fuel: "\<mu> x < k"
  shows "wp (kiter k f x) Q s"
  using init fuel
proof (induction k arbitrary: x s)
  case 0
  then show ?case by simp
next
  case (Suc k)
  have "wp (f x) (\<lambda>r s'. wp (case r of Inl x' \<Rightarrow> kiter k f x' | Inr a \<Rightarrow> ret a) Q s') s"
    using Suc by (intro wp_mono [OF step [OF Suc.prems(1)]])
      (auto simp: wp_ret split: sum.splits)
  then show ?case by (simp add: wp_bnd)
qed

text \<open>The same with a measure that may look at the state.\<close>

lemma wp_kiter_st:
  assumes step: "\<And>x s. I x s \<Longrightarrow>
      wp (f x) (\<lambda>r s'. case r of Inl x' \<Rightarrow> I x' s' \<and> \<mu> x' s' < (\<mu> x s :: nat) | Inr a \<Rightarrow> Q a s') s"
    and init: "I x s" and fuel: "\<mu> x s < k"
  shows "wp (kiter k f x) Q s"
  using init fuel
proof (induction k arbitrary: x s)
  case 0
  then show ?case by simp
next
  case (Suc k)
  have "wp (f x) (\<lambda>r s'. wp (case r of Inl x' \<Rightarrow> kiter k f x' | Inr a \<Rightarrow> ret a) Q s') s"
    using Suc by (intro wp_mono [OF step [OF Suc.prems(1)]])
      (auto simp: wp_ret split: sum.splits)
  then show ?case by (simp add: wp_bnd)
qed

end
