(* ===== verification/Spinlock.thy ===== *)
theory Spinlock
  imports Prelude
begin

text \<open>
  The CPU-local part of the machine and the spinlocks of \<^verbatim>\<open>kernel/spinlock.c\<close>:
  \<open>push_off\<close>/\<open>pop_off\<close> nesting, the supervisor interrupt-enable bit of \<open>sstatus\<close>
  (\<^verbatim>\<open>kernel/riscv.h\<close>), and \<open>acquire\<close>/\<open>release\<close>/\<open>holding\<close>. The record \<open>mach\<close> is the
  root of the kernel state; every other component extends it.
\<close>

section \<open>State\<close>

definition SSTATUS_SPP :: u64 where "SSTATUS_SPP = push_bit 8 1"
definition SSTATUS_SPIE :: u64 where "SSTATUS_SPIE = push_bit 5 1"
definition SSTATUS_SIE :: u64 where "SSTATUS_SIE = push_bit 1 1"

text \<open>The supervisor registers of one hart that the kernel reads and writes.\<close>

record csrs =
  sstatus :: u64
  sepc :: u64
  scause :: u64
  stval :: u64
  stvec :: u64
  satp :: u64
  sip :: u64

text \<open>\<^verbatim>\<open>struct cpu\<close>: \<open>c_proc\<close> is the index of the running process, if any.\<close>

record cpu =
  c_proc :: "nat option"
  noff :: int
  intena :: bool

text \<open>\<^verbatim>\<open>struct spinlock\<close>: \<open>lcpu\<close> is the index of the holding CPU.\<close>

record spinlock =
  locked :: bool
  lname :: string
  lcpu :: "nat option"

text \<open>
  \<open>hart\<close> is the \<open>tp\<close> register of the CPU whose code is running: the result of
  \<open>cpuid()\<close>.
\<close>

record mach =
  hart :: nat
  cpus :: "nat \<Rightarrow> cpu"
  csr :: "nat \<Rightarrow> csrs"
  locks :: "lockid \<Rightarrow> spinlock"

section \<open>Interrupt control\<close>

definition mycpu :: "'x mach_scheme \<Rightarrow> cpu" where
  "mycpu s = cpus s (hart s)"

definition mycsr :: "'x mach_scheme \<Rightarrow> csrs" where
  "mycsr s = csr s (hart s)"

definition upd_cpu :: "(cpu \<Rightarrow> cpu) \<Rightarrow> 'x mach_scheme \<Rightarrow> 'x mach_scheme" where
  "upd_cpu f s = s\<lparr>cpus := (cpus s)(hart s := f (cpus s (hart s)))\<rparr>"

definition upd_csr :: "(csrs \<Rightarrow> csrs) \<Rightarrow> 'x mach_scheme \<Rightarrow> 'x mach_scheme" where
  "upd_csr f s = s\<lparr>csr := (csr s)(hart s := f (csr s (hart s)))\<rparr>"

definition intr_on :: "('x mach_scheme, unit) kop" where
  "intr_on = modify (upd_csr (\<lambda>c. c\<lparr>sstatus := sstatus c OR SSTATUS_SIE\<rparr>))"

definition intr_off :: "('x mach_scheme, unit) kop" where
  "intr_off = modify (upd_csr (\<lambda>c. c\<lparr>sstatus := sstatus c AND NOT SSTATUS_SIE\<rparr>))"

definition intr_get :: "('x mach_scheme, bool) kop" where
  "intr_get = gets (\<lambda>s. sstatus (mycsr s) AND SSTATUS_SIE \<noteq> 0)"

definition push_off :: "('x mach_scheme, unit) kop" where
  "push_off =
     bnd intr_get (\<lambda>old.
     stmts
      [intr_off,
       bnd (gets mycpu) (\<lambda>c. kwhen (noff c = 0) (modify (upd_cpu (\<lambda>c. c\<lparr>intena := old\<rparr>)))),
       modify (upd_cpu (\<lambda>c. c\<lparr>noff := noff c + 1\<rparr>))])"

definition pop_off :: "('x mach_scheme, unit) kop" where
  "pop_off =
     bnd intr_get (\<lambda>i.
     if i then panic ''pop_off - interruptible'' else
     bnd (gets mycpu) (\<lambda>c.
     if noff c < 1 then panic ''pop_off'' else
     seq (modify (upd_cpu (\<lambda>c. c\<lparr>noff := noff c - 1\<rparr>)))
     (bnd (gets mycpu) (\<lambda>c. kwhen (noff c = 0 \<and> intena c) intr_on))))"

section \<open>Spinlocks\<close>

definition upd_lock :: "lockid \<Rightarrow> (spinlock \<Rightarrow> spinlock) \<Rightarrow> 'x mach_scheme \<Rightarrow> 'x mach_scheme" where
  "upd_lock l f s = s\<lparr>locks := (locks s)(l := f (locks s l))\<rparr>"

definition initlock :: "lockid \<Rightarrow> string \<Rightarrow> ('x mach_scheme, unit) kop" where
  "initlock l name = modify (upd_lock l (\<lambda>_. \<lparr>locked = False, lname = name, lcpu = None\<rparr>))"

definition holding :: "lockid \<Rightarrow> ('x mach_scheme, bool) kop" where
  "holding l = gets (\<lambda>s. locked (locks s l) \<and> lcpu (locks s l) = Some (hart s))"

text \<open>
  The loop around \<^verbatim>\<open>__sync_lock_test_and_set\<close>: an atomic swap that succeeds if the lock
  was free; while another CPU holds it, this CPU spins.
\<close>

definition test_and_set :: "lockid \<Rightarrow> ('x mach_scheme, unit) kop" where
  "test_and_set l = (\<lambda>s. if locked (locks s l) then Spin l
     else Ok () (upd_lock l (\<lambda>k. k\<lparr>locked := True\<rparr>) s))"

definition acquire :: "lockid \<Rightarrow> ('x mach_scheme, unit) kop" where
  "acquire l =
     seq push_off
     (bnd (holding l) (\<lambda>h.
     if h then panic ''acquire'' else
     seq (test_and_set l)
     (modify (\<lambda>s. upd_lock l (\<lambda>k. k\<lparr>lcpu := Some (hart s)\<rparr>) s))))"

definition release :: "lockid \<Rightarrow> ('x mach_scheme, unit) kop" where
  "release l =
     bnd (holding l) (\<lambda>h.
     if \<not> h then panic ''release'' else
     stmts
      [modify (upd_lock l (\<lambda>k. k\<lparr>lcpu := None\<rparr>)),
       modify (upd_lock l (\<lambda>k. k\<lparr>locked := False\<rparr>)),
       pop_off])"

section \<open>Interrupt bit and closed forms\<close>

definition sie :: "csrs \<Rightarrow> bool" where
  "sie c \<longleftrightarrow> sstatus c AND SSTATUS_SIE \<noteq> 0"

lemma sie_bit: "sie c = bit (sstatus c) 1"
proof -
  have "sstatus c AND SSTATUS_SIE = (if bit (sstatus c) 1 then SSTATUS_SIE else 0)"
    by (rule bit_word_eqI) (auto simp: SSTATUS_SIE_def bit_simps)
  moreover have "SSTATUS_SIE \<noteq> 0" by (simp add: SSTATUS_SIE_def)
  ultimately show ?thesis by (simp add: sie_def)
qed

lemma sie_on [simp]: "sie (c\<lparr>sstatus := x OR SSTATUS_SIE\<rparr>)"
  by (simp add: sie_bit SSTATUS_SIE_def bit_simps)

lemma sie_off [simp]: "\<not> sie (c\<lparr>sstatus := x AND NOT SSTATUS_SIE\<rparr>)"
  by (simp add: sie_bit SSTATUS_SIE_def bit_simps)

lemma sstatus_off_on: "sie c \<Longrightarrow> sstatus c AND NOT SSTATUS_SIE OR SSTATUS_SIE = sstatus c"
  by (rule bit_word_eqI) (auto simp: sie_bit SSTATUS_SIE_def bit_simps)

lemma sstatus_off_noop: "\<not> sie c \<Longrightarrow> sstatus c AND NOT SSTATUS_SIE = sstatus c"
  by (rule bit_word_eqI) (auto simp: sie_bit SSTATUS_SIE_def bit_simps)

text \<open>The state right after \<open>acquire\<close> has taken a free lock, and after \<open>release\<close>.\<close>

definition off_csr :: "csrs \<Rightarrow> csrs" where
  "off_csr c = c\<lparr>sstatus := sstatus c AND NOT SSTATUS_SIE\<rparr>"

definition on_csr :: "csrs \<Rightarrow> csrs" where
  "on_csr c = c\<lparr>sstatus := sstatus c OR SSTATUS_SIE\<rparr>"

definition push_cpu :: "csrs \<Rightarrow> cpu \<Rightarrow> cpu" where
  "push_cpu r c = c\<lparr>intena := if noff c = 0 then sie r else intena c, noff := noff c + 1\<rparr>"

definition acq :: "lockid \<Rightarrow> 'x mach_scheme \<Rightarrow> 'x mach_scheme" where
  "acq l s = s\<lparr>cpus := (cpus s)(hart s := push_cpu (csr s (hart s)) (cpus s (hart s))),
     csr := (csr s)(hart s := off_csr (csr s (hart s))),
     locks := (locks s)(l := (locks s l)\<lparr>locked := True, lcpu := Some (hart s)\<rparr>)\<rparr>"

definition rel :: "lockid \<Rightarrow> 'x mach_scheme \<Rightarrow> 'x mach_scheme" where
  "rel l s = s\<lparr>cpus := (cpus s)(hart s := (cpus s (hart s))\<lparr>noff := noff (cpus s (hart s)) - 1\<rparr>),
     csr := (if noff (cpus s (hart s)) = 1 \<and> intena (cpus s (hart s))
             then (csr s)(hart s := on_csr (csr s (hart s))) else csr s),
     locks := (locks s)(l := (locks s l)\<lparr>lcpu := None, locked := False\<rparr>)\<rparr>"

lemma sie_csr [simp]: "sie (on_csr c)" "\<not> sie (off_csr c)"
  by (simp_all add: on_csr_def off_csr_def)

lemma off_csr_noop: "\<not> sie c \<Longrightarrow> off_csr c = c"
  by (simp add: off_csr_def sstatus_off_noop)

lemma on_off_csr: "sie c \<Longrightarrow> on_csr (off_csr c) = c"
  by (simp add: off_csr_def on_csr_def sstatus_off_on)

lemmas intr_unfold = intr_on_def intr_off_def intr_get_def upd_cpu_def upd_csr_def
  mycpu_def mycsr_def

lemma push_off_eq:
  "push_off s = Ok () (s\<lparr>cpus := (cpus s)(hart s := push_cpu (csr s (hart s)) (cpus s (hart s))),
     csr := (csr s)(hart s := off_csr (csr s (hart s)))\<rparr>)"
  by (simp add: push_off_def intr_unfold seq_def bnd_def push_cpu_def off_csr_def sie_def kwhen_def)

lemma pop_off_eq:
  "pop_off s =
     (if sie (csr s (hart s)) then Panic ''pop_off - interruptible''
      else if noff (cpus s (hart s)) < 1 then Panic ''pop_off''
      else Ok () (s\<lparr>cpus := (cpus s)(hart s := (cpus s (hart s))\<lparr>noff := noff (cpus s (hart s)) - 1\<rparr>),
        csr := (if noff (cpus s (hart s)) = 1 \<and> intena (cpus s (hart s))
             then (csr s)(hart s := on_csr (csr s (hart s))) else csr s)\<rparr>))"
  by (simp add: pop_off_def intr_unfold seq_def bnd_def on_csr_def sie_def kwhen_def)

lemma acquire_eq:
  "acquire l s =
     (if locked (locks s l)
      then if lcpu (locks s l) = Some (hart s) then Panic ''acquire'' else Spin l
      else Ok () (acq l s))"
  by (simp add: acquire_def seq_def bnd_def push_off_eq holding_def test_and_set_def upd_lock_def
      acq_def)

definition held :: "lockid \<Rightarrow> 'x mach_scheme \<Rightarrow> bool" where
  "held l s \<longleftrightarrow> locked (locks s l) \<and> lcpu (locks s l) = Some (hart s)"

lemma release_eq:
  "release l s =
     (if \<not> held l s then Panic ''release''
      else if sie (csr s (hart s)) then Panic ''pop_off - interruptible''
      else if noff (cpus s (hart s)) < 1 then Panic ''pop_off''
      else Ok () (rel l s))"
  by (simp add: release_def holding_def held_def upd_lock_def pop_off_eq rel_def seq_def bnd_def)

text \<open>
  A balanced critical section leaves one trace: at nesting depth 0 the \<open>intena\<close> field
  records the interrupt state. \<open>cs_cpus s\<close> is the CPU table a balanced operation run from
  \<open>s\<close> leaves behind.
\<close>

definition cs_cpus :: "'x mach_scheme \<Rightarrow> nat \<Rightarrow> cpu" where
  "cs_cpus s = (cpus s)(hart s := (cpus s (hart s))
     \<lparr>intena := if noff (cpus s (hart s)) = 0 then sie (csr s (hart s)) else intena (cpus s (hart s))\<rparr>)"

definition unlocked :: "lockid \<Rightarrow> 'x mach_scheme \<Rightarrow> bool" where
  "unlocked l s \<longleftrightarrow> \<not> locked (locks s l) \<and> lcpu (locks s l) = None"

text \<open>
  The CPU is in a consistent interrupt state: the nesting depth is not negative and
  interrupts are off whenever it is positive.
\<close>

definition cpu_ok :: "'x mach_scheme \<Rightarrow> bool" where
  "cpu_ok s \<longleftrightarrow> 0 \<le> noff (cpus s (hart s)) \<and>
     (0 < noff (cpus s (hart s)) \<longrightarrow> \<not> sie (csr s (hart s)))"

text \<open>\<open>s'\<close> differs from \<open>s\<close> as after balanced lock operations only.\<close>

definition balanced :: "'x mach_scheme \<Rightarrow> 'x mach_scheme \<Rightarrow> bool" where
  "balanced s s' \<longleftrightarrow> hart s' = hart s \<and> csr s' = csr s \<and> locks s' = locks s \<and>
     (cpus s' = cpus s \<or> cpus s' = cs_cpus s)"

lemma acquire_unlocked: "unlocked l s \<Longrightarrow> acquire l s = Ok () (acq l s)"
  by (simp add: acquire_eq unlocked_def)

lemma spinlock_restore: "\<not> locked k \<Longrightarrow> lcpu k = None \<Longrightarrow> k\<lparr>lcpu := None, locked := False\<rparr> = k"
  by (cases k) simp

lemma acq_sel [simp]: "hart (acq l s) = hart s"
  by (simp add: acq_def)

text \<open>
  \<open>release\<close> after \<open>acquire\<close>, with a critical section in between that leaves the CPU, the
  registers and the locks alone, restores the lock table and the interrupt state.
\<close>

lemma release_acq:
  assumes "unlocked l s" "cpu_ok s"
    and "hart t = hart s" "cpus t = cpus (acq l s)" "csr t = csr (acq l s)" "locks t = locks (acq l s)"
  shows "release l t = Ok () (t\<lparr>cpus := cs_cpus s, csr := csr s, locks := locks s\<rparr>)"
proof -
  let ?h = "hart s"
  have lk: "(locks t)(l := (locks t l)\<lparr>lcpu := None, locked := False\<rparr>) = locks s"
    using assms(1) by (simp add: assms(6) acq_def unlocked_def spinlock_restore)
  have cp: "(cpus t)(?h := (cpus t ?h)\<lparr>noff := noff (cpus t ?h) - 1\<rparr>) = cs_cpus s"
    by (simp add: assms(4) acq_def cs_cpus_def push_cpu_def)
  have cr: "(if noff (cpus t ?h) = 1 \<and> intena (cpus t ?h)
        then (csr t)(?h := on_csr (csr t ?h)) else csr t) = csr s"
    using assms(2)
    by (auto simp: assms(4,5) acq_def push_cpu_def cpu_ok_def on_off_csr off_csr_noop)
  have "rel l t = t\<lparr>cpus := cs_cpus s, csr := csr s, locks := locks s\<rparr>"
    unfolding rel_def by (simp only: assms(3) lk cp cr)
  moreover have "held l t" "\<not> sie (csr t (hart t))" "\<not> noff (cpus t (hart t)) < 1"
    using assms(2) by (simp_all add: held_def assms(3-6) acq_def push_cpu_def cpu_ok_def)
  ultimately show ?thesis by (simp add: release_eq)
qed

lemma cs_cpus_cong:
  "hart s = hart t \<Longrightarrow> cpus s = cpus t \<Longrightarrow> csr s = csr t \<Longrightarrow> cs_cpus s = cs_cpus t"
  by (simp add: cs_cpus_def)

lemma balanced_refl [simp]: "balanced s s"
  by (simp add: balanced_def)

lemma cs_cpus_idem: "hart t = hart s \<Longrightarrow> csr t = csr s \<Longrightarrow> cpus t = cs_cpus s \<Longrightarrow> cs_cpus t = cs_cpus s"
  by (simp add: cs_cpus_def)

lemma balanced_trans: "balanced s t \<Longrightarrow> balanced t u \<Longrightarrow> balanced s u"
  by (auto simp: balanced_def cs_cpus_def)

lemma balanced_cpu_ok: "balanced s t \<Longrightarrow> cpu_ok t = cpu_ok s"
  by (auto simp: balanced_def cpu_ok_def cs_cpus_def)

lemma balanced_unlocked: "balanced s t \<Longrightarrow> unlocked l t = unlocked l s"
  by (simp add: balanced_def unlocked_def)

lemma wp_acquire [wp_simps]: "wp (acquire l) Q s \<longleftrightarrow> \<not> locked (locks s l) \<and> Q () (acq l s)"
  by (simp add: wp_def acquire_eq)

lemma wp_release [wp_simps]:
  "wp (release l) Q s \<longleftrightarrow>
     held l s \<and> \<not> sie (csr s (hart s)) \<and> 1 \<le> noff (cpus s (hart s)) \<and> Q () (rel l s)"
  by (simp add: wp_def release_eq not_less)

section \<open>CPUs taking and releasing locks\<close>

text \<open>
  A machine of several CPUs. In each step one CPU completes an \<open>acquire\<close> or a \<open>release\<close>,
  or turns its interrupts on or off outside every critical section, as \<open>scheduler()\<close>
  and the trap code do.
\<close>

definition on_hart :: "nat \<Rightarrow> 'x mach_scheme \<Rightarrow> 'x mach_scheme" where
  "on_hart h s = s\<lparr>hart := h\<rparr>"

inductive lock_step :: "'x mach_scheme \<Rightarrow> 'x mach_scheme \<Rightarrow> bool" where
  st_acquire: "acquire l (on_hart h s) = Ok () t \<Longrightarrow> lock_step s t"
| st_release: "release l (on_hart h s) = Ok () t \<Longrightarrow> lock_step s t"
| st_intr_on: "noff (cpus s h) = 0 \<Longrightarrow> intr_on (on_hart h s) = Ok () t \<Longrightarrow> lock_step s t"
| st_intr_off: "intr_off (on_hart h s) = Ok () t \<Longrightarrow> lock_step s t"

definition boot_locks :: "'x mach_scheme \<Rightarrow> bool" where
  "boot_locks s \<longleftrightarrow> (\<forall>l. unlocked l s) \<and> (\<forall>h. noff (cpus s h) = 0)"

inductive lock_reach :: "'x mach_scheme \<Rightarrow> 'x mach_scheme \<Rightarrow> bool" where
  lr_start: "boot_locks s \<Longrightarrow> lock_reach s s"
| lr_step: "lock_reach s t \<Longrightarrow> lock_step t u \<Longrightarrow> lock_reach s u"

definition holds :: "nat \<Rightarrow> 'x mach_scheme \<Rightarrow> lockid set" where
  "holds h s = {l. lcpu (locks s l) = Some h}"

definition lock_inv :: "'x mach_scheme \<Rightarrow> bool" where
  "lock_inv s \<longleftrightarrow>
     (\<forall>l. locked (locks s l) \<longleftrightarrow> lcpu (locks s l) \<noteq> None) \<and>
     (\<forall>h. finite (holds h s) \<and> noff (cpus s h) = int (card (holds h s)) \<and>
          (holds h s \<noteq> {} \<longrightarrow> \<not> sie (csr s h)))"

lemma lock_inv_boot: "boot_locks s \<Longrightarrow> lock_inv s"
  by (auto simp: boot_locks_def lock_inv_def holds_def unlocked_def)

lemma holds_acq:
  "lcpu (locks s l) = None \<Longrightarrow>
   holds k (acq l s) = (if k = hart s then insert l (holds k s) else holds k s)"
  by (auto simp: holds_def acq_def)

lemma lock_inv_acquire:
  assumes "lock_inv s" "acquire l (on_hart h s) = Ok () t"
  shows "lock_inv t"
proof -
  let ?s = "on_hart h s"
  from assms(2) have u: "\<not> locked (locks s l)" and t: "t = acq l ?s"
    by (auto simp: acquire_eq on_hart_def split: if_splits)
  from assms(1) u have lc: "lcpu (locks s l) = None" by (auto simp: lock_inv_def)
  then have "l \<notin> holds h s" by (simp add: holds_def)
  have H: "holds k t = (if k = h then insert l (holds k s) else holds k s)" for k
    using lc holds_acq [of ?s l k] by (simp add: t on_hart_def holds_def)
  show ?thesis
    using assms(1) \<open>l \<notin> holds h s\<close>
    by (auto simp: lock_inv_def H)
      (auto simp: t on_hart_def acq_def push_cpu_def lock_inv_def)
qed

lemma holds_rel:
  "holds k (rel l s) = holds k s - {l}"
  by (auto simp: holds_def rel_def)

lemma lock_inv_release:
  assumes "lock_inv s" "release l (on_hart h s) = Ok () t"
  shows "lock_inv t"
proof -
  let ?s = "on_hart h s"
  from assms(2) have hl: "lcpu (locks s l) = Some h" and t: "t = rel l ?s"
    by (auto simp: release_eq held_def on_hart_def split: if_splits)
  have H: "holds k t = holds k s - {l}" for k
    using holds_rel [of k l ?s] by (simp add: t on_hart_def holds_def)
  have lin: "l \<in> holds h s" and lout: "k \<noteq> h \<Longrightarrow> l \<notin> holds k s" for k
    using hl by (auto simp: holds_def)
  have N: "noff (cpus t k) = (if k = h then noff (cpus s h) - 1 else noff (cpus s k))" for k
    by (simp add: t rel_def on_hart_def)
  have off: "\<not> sie (csr s h)" using assms(1) lin by (auto simp: lock_inv_def)
  show ?thesis
    unfolding lock_inv_def
  proof (intro conjI allI impI)
    fix k
    show "locked (locks t k) \<longleftrightarrow> lcpu (locks t k) \<noteq> None"
      using assms(1) by (auto simp: lock_inv_def t rel_def on_hart_def)
  next
    fix k
    show "finite (holds k t)" using assms(1) by (simp add: lock_inv_def H)
    show "noff (cpus t k) = int (card (holds k t))"
    proof (cases "k = h")
      case True
      have "0 < card (holds h s)" using assms(1) lin by (auto simp: lock_inv_def card_gt_0_iff)
      then show ?thesis
        using assms(1) True lin by (simp add: H N lock_inv_def)
    next
      case False
      then show ?thesis using assms(1) lout by (simp add: H N lock_inv_def)
    qed
    assume ne: "holds k t \<noteq> {}"
    show "\<not> sie (csr t k)"
    proof (cases "k = h")
      case True
      have fin: "finite (holds h s)" and n: "noff (cpus s h) = int (card (holds h s))"
        using assms(1) by (simp_all add: lock_inv_def)
      from ne True H have "holds h s - {l} \<noteq> {}" by simp
      then have "0 < card (holds h s - {l})" using fin by (simp add: card_gt_0_iff)
      then have "card (holds h s) \<noteq> 1" using lin fin by simp
      with n off True show ?thesis by (auto simp: t rel_def on_hart_def)
    next
      case False
      have "holds k s \<noteq> {}" using ne by (auto simp: H)
      with False assms(1) show ?thesis by (auto simp: t rel_def on_hart_def lock_inv_def)
    qed
  qed
qed

lemma lock_inv_intr:
  assumes "lock_inv s"
  shows "intr_off (on_hart h s) = Ok () t \<Longrightarrow> lock_inv t"
    and "noff (cpus s h) = 0 \<Longrightarrow> intr_on (on_hart h s) = Ok () t \<Longrightarrow> lock_inv t"
  using assms
  by (auto simp: lock_inv_def intr_off_def intr_on_def upd_csr_def on_hart_def holds_def
      split: if_splits) blast+

lemma lock_inv_step: "lock_step s t \<Longrightarrow> lock_inv s \<Longrightarrow> lock_inv t"
  by (induction rule: lock_step.induct)
    (blast intro: lock_inv_acquire lock_inv_release lock_inv_intr)+

lemma lock_inv_reach: "lock_reach s t \<Longrightarrow> lock_inv t"
  by (induction rule: lock_reach.induct) (blast intro: lock_inv_boot lock_inv_step)+

section \<open>Properties\<close>

text \<open>
  C1. In every state that any number of CPUs reach from boot by acquiring and releasing locks, a
  locked lock has exactly one holder; a CPU's nesting depth is the number of locks it holds; a CPU
  that holds a lock has interrupts off; and the holder can release the lock without a panic, while
  an attempt by another CPU to take it spins.
\<close>

theorem spinlock_mutual_exclusion:
  assumes "lock_reach s t"
  shows "(locked (locks t l) \<longleftrightarrow> (\<exists>!h. l \<in> holds h t)) \<and>
    noff (cpus t h) = int (card (holds h t)) \<and>
    (l \<in> holds h t \<longrightarrow> \<not> sie (csr t h) \<and> (\<exists>u. release l (on_hart h t) = Ok () u) \<and>
      (\<forall>k. k \<noteq> h \<longrightarrow> acquire l (on_hart k t) = Spin l))"
proof (intro conjI impI)
  have i: "lock_inv t" using assms by (rule lock_inv_reach)
  then show "locked (locks t l) \<longleftrightarrow> (\<exists>!h. l \<in> holds h t)"
    by (auto simp: lock_inv_def holds_def)
  show n: "noff (cpus t h) = int (card (holds h t))" using i by (simp add: lock_inv_def)
  assume l: "l \<in> holds h t"
  with i show off: "\<not> sie (csr t h)" by (auto simp: lock_inv_def)
  from l i have lk: "locked (locks t l)" "lcpu (locks t l) = Some h"
    by (simp_all add: lock_inv_def holds_def)
  have "finite (holds h t)" using i by (simp add: lock_inv_def)
  then have "0 < card (holds h t)" using l card_gt_0_iff by blast
  then show "\<exists>u. release l (on_hart h t) = Ok () u"
    using n off lk by (simp add: release_eq held_def on_hart_def)
  show "\<forall>k. k \<noteq> h \<longrightarrow> acquire l (on_hart k t) = Spin l"
    using lk by (simp add: acquire_eq on_hart_def)
qed

text \<open>A machine at boot, for evaluation.\<close>

definition csrs0 :: csrs where
  "csrs0 = \<lparr>sstatus = 2, sepc = 0, scause = 0, stval = 0, stvec = 0, satp = 0, sip = 0\<rparr>"

definition mach0 :: mach where
  "mach0 = \<lparr>hart = 0, cpus = (\<lambda>_. \<lparr>c_proc = None, noff = 0, intena = False\<rparr>), csr = (\<lambda>_. csrs0),
     locks = (\<lambda>_. \<lparr>locked = False, lname = [], lcpu = None\<rparr>)\<rparr>"

lemma boot_mach0: "boot_locks mach0"
  by (simp add: boot_locks_def unlocked_def mach0_def)

lemma lock_reach_acq0: "lock_reach mach0 (acq L_kmem mach0)"
proof (rule lr_step [OF lr_start [OF boot_mach0]], rule st_acquire)
  show "acquire L_kmem (on_hart 0 mach0) = Ok () (acq L_kmem mach0)"
    by (simp add: acquire_eq on_hart_def mach0_def)
qed

theorem spinlock_mutual_exclusion_witness:
  "\<not> sie (csr (acq L_kmem mach0) 0) \<and> (\<exists>u. release L_kmem (on_hart 0 (acq L_kmem mach0)) = Ok () u) \<and>
   acquire L_kmem (on_hart 1 (acq L_kmem mach0)) = Spin L_kmem"
proof -
  have "L_kmem \<in> holds 0 (acq L_kmem mach0)" by (simp add: holds_def acq_def mach0_def)
  then show ?thesis
    using spinlock_mutual_exclusion [OF lock_reach_acq0, of L_kmem 0] by simp
qed

end
