(* ===== verification/Cstring.thy ===== *)
theory Cstring
  imports Prelude
begin

text \<open>
  The memory and string routines of \<^verbatim>\<open>kernel/string.c\<close>. Routines that only read take
  their pointers as views: \<open>p\<close> is the function \<open>i \<mapsto> p[i]\<close>, and \<^verbatim>\<open>p++\<close> is the shifted
  view. \<open>memset\<close>, \<open>memmove\<close> and \<open>memcpy\<close> work on a store with addresses, so that
  overlapping regions are visible; \<open>strncpy\<close> and \<open>safestrcpy\<close> return the new contents
  of the destination array.
\<close>

section \<open>Operations\<close>

primrec memset_loop :: "bytes \<Rightarrow> nat \<Rightarrow> u8 \<Rightarrow> nat \<Rightarrow> bytes" where
  "memset_loop m dst c 0 = m"
| "memset_loop m dst c (Suc i) = (memset_loop m dst c i)(dst + i := c)"

definition memset :: "bytes \<Rightarrow> nat \<Rightarrow> u32 \<Rightarrow> nat \<Rightarrow> bytes" where
  "memset m dst c n = memset_loop m dst (ucast c) n"

primrec memcmp :: "nat \<Rightarrow> bytes \<Rightarrow> bytes \<Rightarrow> int" where
  "memcmp 0 s1 s2 = 0"
| "memcmp (Suc n) s1 s2 =
     (if s1 0 \<noteq> s2 0 then uint (s1 0) - uint (s2 0)
      else memcmp n (\<lambda>i. s1 (Suc i)) (\<lambda>i. s2 (Suc i)))"

text \<open>The two copy loops of \<open>memmove\<close>: \<^verbatim>\<open>*--d = *--s\<close> and \<^verbatim>\<open>*d++ = *s++\<close>.\<close>

primrec memmove_bwd :: "nat \<Rightarrow> bytes \<Rightarrow> nat \<Rightarrow> nat \<Rightarrow> bytes" where
  "memmove_bwd 0 m d s = m"
| "memmove_bwd (Suc n) m d s = memmove_bwd n (m(d - 1 := m (s - 1))) (d - 1) (s - 1)"

primrec memmove_fwd :: "nat \<Rightarrow> bytes \<Rightarrow> nat \<Rightarrow> nat \<Rightarrow> bytes" where
  "memmove_fwd 0 m d s = m"
| "memmove_fwd (Suc n) m d s = memmove_fwd n (m(d := m s)) (d + 1) (s + 1)"

definition memmove :: "bytes \<Rightarrow> nat \<Rightarrow> nat \<Rightarrow> nat \<Rightarrow> bytes" where
  "memmove m dst src n =
     (if n = 0 then m
      else if src < dst \<and> src + n > dst then memmove_bwd n m (dst + n) (src + n)
      else memmove_fwd n m dst src)"

definition memcpy :: "bytes \<Rightarrow> nat \<Rightarrow> nat \<Rightarrow> nat \<Rightarrow> bytes" where
  "memcpy m dst src n = memmove m dst src n"

primrec strncmp :: "nat \<Rightarrow> bytes \<Rightarrow> bytes \<Rightarrow> int" where
  "strncmp 0 p q = 0"
| "strncmp (Suc n) p q =
     (if p 0 \<noteq> 0 \<and> p 0 = q 0 then strncmp n (\<lambda>i. p (Suc i)) (\<lambda>i. q (Suc i))
      else uint (p 0) - uint (q 0))"

primrec strncpy_copy :: "nat \<Rightarrow> bytes \<Rightarrow> bytes \<Rightarrow> nat \<Rightarrow> bytes \<times> nat \<times> nat" where
  "strncpy_copy 0 s t i = (s, i, 0)"
| "strncpy_copy (Suc n) s t i =
     (if t i \<noteq> 0 then strncpy_copy n (s(i := t i)) t (Suc i) else (s(i := t i), Suc i, n))"

primrec strncpy_pad :: "nat \<Rightarrow> bytes \<Rightarrow> nat \<Rightarrow> bytes" where
  "strncpy_pad 0 s i = s"
| "strncpy_pad (Suc n) s i = strncpy_pad n (s(i := 0)) (Suc i)"

definition strncpy :: "bytes \<Rightarrow> bytes \<Rightarrow> int \<Rightarrow> bytes" where
  "strncpy s t n = (case strncpy_copy (nat n) s t 0 of (s', i, n') \<Rightarrow> strncpy_pad n' s' i)"

text \<open>\<open>n\<close> counts the iterations still allowed by \<^verbatim>\<open>--n > 0\<close>.\<close>

primrec safestrcpy_copy :: "nat \<Rightarrow> bytes \<Rightarrow> bytes \<Rightarrow> nat \<Rightarrow> bytes \<times> nat" where
  "safestrcpy_copy 0 s t i = (s, i)"
| "safestrcpy_copy (Suc n) s t i =
     (if t i \<noteq> 0 then safestrcpy_copy n (s(i := t i)) t (Suc i) else (s(i := t i), Suc i))"

definition safestrcpy :: "bytes \<Rightarrow> bytes \<Rightarrow> int \<Rightarrow> bytes" where
  "safestrcpy s t n =
     (if n \<le> 0 then s
      else case safestrcpy_copy (nat (n - 1)) s t 0 of (s', i) \<Rightarrow> s'(i := 0))"

text \<open>\<open>None\<close> stands for a string without a terminating NUL, where the C loop runs on.\<close>

partial_function (option) strlen_loop :: "bytes \<Rightarrow> nat \<Rightarrow> nat option" where
  "strlen_loop s n = (if s n = 0 then Some n else strlen_loop s (Suc n))"

definition strlen :: "bytes \<Rightarrow> nat option" where
  "strlen s = strlen_loop s 0"

section \<open>What the routines compute\<close>

text \<open>The C string held by the first \<open>n\<close> bytes of an array.\<close>

definition cstr :: "nat \<Rightarrow> bytes \<Rightarrow> u8 list" where
  "cstr n s = takeWhile (\<lambda>c. c \<noteq> 0) (map s [0..<n])"

lemma memset_loop_eq: "memset_loop m dst c n = (\<lambda>a. if dst \<le> a \<and> a < dst + n then c else m a)"
  by (induction n) (auto simp: fun_eq_iff)

lemma memset_eq:
  "memset m dst c n = (\<lambda>a. if dst \<le> a \<and> a < dst + n then ucast c else m a)"
  by (simp add: memset_def memset_loop_eq)

lemma memmove_fwd_eq:
  "d \<le> s \<or> s + n \<le> d \<Longrightarrow>
   memmove_fwd n m d s = (\<lambda>a. if d \<le> a \<and> a < d + n then m (s + (a - d)) else m a)"
proof (induction n arbitrary: m d s)
  case 0
  then show ?case by (auto simp: fun_eq_iff)
next
  case (Suc n)
  have "memmove_fwd n (m(d := m s)) (d + 1) (s + 1)
      = (\<lambda>a. if d + 1 \<le> a \<and> a < d + 1 + n
             then (m(d := m s)) (s + 1 + (a - (d + 1))) else (m(d := m s)) a)"
    using Suc.prems by (intro Suc.IH) auto
  also have "\<dots> = (\<lambda>a. if d \<le> a \<and> a < d + Suc n then m (s + (a - d)) else m a)"
    using Suc.prems by (auto simp: fun_eq_iff intro!: arg_cong [of _ _ m])
  finally show ?case by simp
qed

lemma memmove_bwd_eq:
  "s \<le> d \<or> d + n \<le> s \<Longrightarrow>
   memmove_bwd n m (d + n) (s + n) = (\<lambda>a. if d \<le> a \<and> a < d + n then m (s + (a - d)) else m a)"
proof (induction n arbitrary: m)
  case 0
  then show ?case by (auto simp: fun_eq_iff)
next
  case (Suc n)
  have "memmove_bwd n (m(d + n := m (s + n))) (d + n) (s + n)
      = (\<lambda>a. if d \<le> a \<and> a < d + n
             then (m(d + n := m (s + n))) (s + (a - d)) else (m(d + n := m (s + n))) a)"
    using Suc.prems by (intro Suc.IH) auto
  also have "\<dots> = (\<lambda>a. if d \<le> a \<and> a < d + Suc n then m (s + (a - d)) else m a)"
    using Suc.prems by (auto simp: fun_eq_iff less_Suc_eq)
  finally show ?case by simp
qed

lemma memmove_eq:
  "memmove m dst src n = (\<lambda>a. if dst \<le> a \<and> a < dst + n then m (src + (a - dst)) else m a)"
  unfolding memmove_def
  by (auto simp: fun_eq_iff memmove_bwd_eq memmove_fwd_eq not_less)

lemma memcmp_0_iff: "memcmp n s1 s2 = 0 \<longleftrightarrow> (\<forall>i<n. s1 i = s2 i)"
proof (induction n arbitrary: s1 s2)
  case 0
  then show ?case by simp
next
  case (Suc n)
  then show ?case by (simp add: All_less_Suc2 word_uint_eq_iff)
qed

lemma cstr_Suc:
  "cstr (Suc n) s = (if s 0 = 0 then [] else s 0 # cstr n (\<lambda>i. s (Suc i)))"
  unfolding cstr_def by (simp add: upt_conv_Cons map_Suc_upt [symmetric] comp_def del: upt_Suc)

lemma cstr_0 [simp]: "cstr 0 s = []"
  by (simp add: cstr_def)

lemma strncmp_0_iff: "strncmp n p q = 0 \<longleftrightarrow> cstr n p = cstr n q"
  by (induction n arbitrary: p q) (auto simp: cstr_Suc word_uint_eq_iff)

lemma cstr_cong: "(\<And>i. i < n \<Longrightarrow> s i = t i) \<Longrightarrow> cstr n s = cstr n t"
  unfolding cstr_def by (metis (mono_tags, lifting) atLeastLessThan_iff map_eq_conv set_upt)

lemma cstr_nz: "cstr n (\<lambda>a. if \<forall>k\<le>a. t k \<noteq> 0 then t a else 0) = cstr n t"
proof (induction n arbitrary: t)
  case 0
  then show ?case by simp
next
  case (Suc n)
  have "(\<forall>k\<le>Suc a. t k \<noteq> 0) \<longleftrightarrow> t 0 \<noteq> 0 \<and> (\<forall>k\<le>a. t (Suc k) \<noteq> 0)" for a
    by (metis Suc_le_mono le0 not0_implies_Suc)
  then show ?case using Suc.IH [of "\<lambda>k. t (Suc k)"] by (simp add: cstr_Suc)
qed

lemma strncpy_pad_eq:
  "strncpy_pad n s i = (\<lambda>a. if i \<le> a \<and> a < i + n then 0 else s a)"
  by (induction n arbitrary: s i) (auto simp: fun_eq_iff)

lemma strncpy_loops_eq:
  "(case strncpy_copy n s t i of (s', j, n') \<Rightarrow> strncpy_pad n' s' j)
   = (\<lambda>a. if i \<le> a \<and> a < i + n then (if \<forall>k. i \<le> k \<and> k \<le> a \<longrightarrow> t k \<noteq> 0 then t a else 0) else s a)"
proof (induction n arbitrary: s i)
  case 0
  then show ?case by (auto simp: fun_eq_iff)
next
  case (Suc n)
  show ?case
  proof (cases "t i = 0")
    case True
    then show ?thesis by (auto simp: fun_eq_iff strncpy_pad_eq)
  next
    case False
    have step: "(\<forall>k. i \<le> k \<and> k \<le> a \<longrightarrow> t k \<noteq> 0) = (\<forall>k. Suc i \<le> k \<and> k \<le> a \<longrightarrow> t k \<noteq> 0)"
      if "i < a" for a
      using False by (metis Suc_leI le_neq_implies_less less_or_eq_imp_le Suc_leD)
    have one: "(\<forall>k. i \<le> k \<and> k \<le> i \<longrightarrow> t k \<noteq> 0) = True"
      using False by (metis le_antisym)
    have eq: "(case strncpy_copy (Suc n) s t i of (s', j, n') \<Rightarrow> strncpy_pad n' s' j)
        = (\<lambda>a. if Suc i \<le> a \<and> a < Suc i + n
               then (if \<forall>k. Suc i \<le> k \<and> k \<le> a \<longrightarrow> t k \<noteq> 0 then t a else 0)
               else (s(i := t i)) a)"
      using False by (simp only: strncpy_copy.simps simp_thms if_True Suc.IH)
    show ?thesis
      unfolding eq
    proof (rule ext)
      fix a
      consider "a < i" | "a = i" | "i < a" by linarith
      then show "(if Suc i \<le> a \<and> a < Suc i + n
               then (if \<forall>k. Suc i \<le> k \<and> k \<le> a \<longrightarrow> t k \<noteq> 0 then t a else 0)
               else (s(i := t i)) a) =
          (if i \<le> a \<and> a < i + Suc n
           then (if \<forall>k. i \<le> k \<and> k \<le> a \<longrightarrow> t k \<noteq> 0 then t a else 0) else s a)"
        by cases (simp_all add: one step)
    qed
  qed
qed

lemma strncpy_eq:
  "strncpy s t n = (\<lambda>a. if a < nat n then (if \<forall>k\<le>a. t k \<noteq> 0 then t a else 0) else s a)"
  by (auto simp: fun_eq_iff strncpy_def strncpy_loops_eq)

lemma cstr_strncpy: "cstr (nat n) (strncpy s t n) = cstr (nat n) t"
proof -
  have "cstr (nat n) (strncpy s t n) = cstr (nat n) (\<lambda>a. if \<forall>k\<le>a. t k \<noteq> 0 then t a else 0)"
    by (rule cstr_cong) (simp add: strncpy_eq)
  then show ?thesis by (simp add: cstr_nz)
qed

lemma safestrcpy_copy_frame:
  "safestrcpy_copy n s t i = (s', j) \<Longrightarrow> i \<le> j \<and> j \<le> i + n \<and> (\<forall>a. a < i \<or> i + n \<le> a \<longrightarrow> s' a = s a)"
proof (induction n arbitrary: s i)
  case 0
  then show ?case by simp
next
  case (Suc n)
  show ?case
  proof (cases "t i = 0")
    case True
    with Suc.prems show ?thesis by auto
  next
    case False
    with Suc.prems have "safestrcpy_copy n (s(i := t i)) t (Suc i) = (s', j)" by simp
    from Suc.IH [OF this] show ?thesis by auto
  qed
qed

lemma safestrcpy_copy_cstr:
  "safestrcpy_copy n s t i = (s', j) \<Longrightarrow>
   cstr (Suc n) (\<lambda>a. (s'(j := 0)) (i + a)) = cstr n (\<lambda>a. t (i + a))"
proof (induction n arbitrary: s i)
  case 0
  then show ?case by (simp add: cstr_Suc)
next
  case (Suc n)
  show ?case
  proof (cases "t i = 0")
    case True
    with Suc.prems show ?thesis by (auto simp: cstr_Suc)
  next
    case False
    with Suc.prems have rec: "safestrcpy_copy n (s(i := t i)) t (Suc i) = (s', j)" by simp
    from safestrcpy_copy_frame [OF this] have "s' i = t i" "i < j" by auto
    with False Suc.IH [OF rec] show ?thesis
      by (subst (1 2) cstr_Suc) (simp add: fun_upd_def)
  qed
qed

lemma cstr_safestrcpy:
  assumes "0 < n"
  shows "cstr (nat n) (safestrcpy s t n) = cstr (nat (n - 1)) t"
proof -
  obtain s' j where c: "safestrcpy_copy (nat (n - 1)) s t 0 = (s', j)"
    by (meson prod.exhaust)
  from assms have "nat n = Suc (nat (n - 1))" by simp
  with c safestrcpy_copy_cstr [OF c] assms show ?thesis
    by (simp add: safestrcpy_def fun_upd_def)
qed

lemma safestrcpy_frame:
  assumes "nat n \<le> a"
  shows "safestrcpy s t n a = s a"
proof (cases "n \<le> 0")
  case True
  then show ?thesis by (simp add: safestrcpy_def)
next
  case False
  obtain s' j where c: "safestrcpy_copy (nat (n - 1)) s t 0 = (s', j)"
    by (meson prod.exhaust)
  from safestrcpy_copy_frame [OF c] assms False show ?thesis
    by (auto simp: safestrcpy_def c)
qed

lemma safestrcpy_terminated:
  assumes "0 < n"
  shows "\<exists>i < nat n. safestrcpy s t n i = 0"
proof -
  obtain s' j where c: "safestrcpy_copy (nat (n - 1)) s t 0 = (s', j)"
    by (meson prod.exhaust)
  from safestrcpy_copy_frame [OF c] assms have "j < nat n" by auto
  with c assms show ?thesis by (intro exI [of _ j]) (simp add: safestrcpy_def)
qed

lemma strlen_loop_Some:
  assumes "\<forall>i<k. s (n + i) \<noteq> 0" "s (n + k) = 0"
  shows "strlen_loop s n = Some (n + k)"
  using assms
proof (induction k arbitrary: n)
  case 0
  then show ?case by (simp add: strlen_loop.simps)
next
  case (Suc k)
  have "s n \<noteq> 0" using Suc.prems(1) by (metis add.right_neutral zero_less_Suc)
  moreover have "strlen_loop s (Suc n) = Some (Suc n + k)"
    using Suc.prems by (intro Suc.IH) (auto dest: spec [of _ "Suc i" for i])
  ultimately show ?case by (simp add: strlen_loop.simps [of s n])
qed

lemma strlen_Some: "\<forall>i<k. s i \<noteq> 0 \<Longrightarrow> s k = 0 \<Longrightarrow> strlen s = Some k"
  using strlen_loop_Some [of k s 0] by (simp add: strlen_def)

section \<open>Properties\<close>

text \<open>
  C3. \<open>memmove\<close> copies as if through a temporary buffer, whichever way the two areas overlap:
  afterwards the destination holds the old contents of the source and no other byte has changed.
\<close>

theorem memmove_overlap_safe:
  "memmove m dst src n = (\<lambda>a. if dst \<le> a \<and> a < dst + n then m (src + (a - dst)) else m a)"
  by (rule memmove_eq)

text \<open>
  C4. For a positive size \<open>safestrcpy\<close> leaves a NUL-terminated copy of the source, cut to
  \<open>n - 1\<close> characters, and writes no byte outside the \<open>n\<close> bytes of the destination.
\<close>

theorem safestrcpy_truncates:
  assumes "0 < n"
  shows "cstr (nat n) (safestrcpy s t n) = cstr (nat (n - 1)) t \<and>
    (\<exists>i < nat n. safestrcpy s t n i = 0) \<and> (\<forall>a. nat n \<le> a \<longrightarrow> safestrcpy s t n a = s a)"
  using assms by (simp add: cstr_safestrcpy safestrcpy_terminated safestrcpy_frame)

theorem safestrcpy_truncates_witness:
  "cstr 4 (safestrcpy (\<lambda>_. 7) (\<lambda>_. 65) 4) = [65, 65, 65] \<and> safestrcpy (\<lambda>_. 7) (\<lambda>_. 65) 4 4 = 7"
  using safestrcpy_truncates [of 4 "\<lambda>_. 7" "\<lambda>_. 65"]
  by (simp add: cstr_def upt_rec)

end
