(* ===== verification/Kalloc.thy ===== *)
theory Kalloc
  imports Spinlock Cstring
begin

text \<open>
  The physical page allocator of \<^verbatim>\<open>kernel/kalloc.c\<close>. Physical memory is a byte store; the
  free list is kept, as in the source, inside the free pages themselves: the first
  eight bytes of a free page hold the address of the next one.
\<close>

section \<open>State and operations\<close>

abbreviation PGSIZE :: "'a::numeral" where "PGSIZE \<equiv> 4096"
abbreviation KERNBASE :: "'a::numeral" where "KERNBASE \<equiv> 0x80000000"

definition PHYSTOP :: u64 where "PHYSTOP = KERNBASE + 128 * 1024 * 1024"

definition PGROUNDUP :: "u64 \<Rightarrow> u64" where
  "PGROUNDUP sz = (sz + PGSIZE - 1) AND NOT (PGSIZE - 1)"

definition PGROUNDDOWN :: "u64 \<Rightarrow> u64" where
  "PGROUNDDOWN a = a AND NOT (PGSIZE - 1)"

text \<open>\<open>kend\<close> is the linker symbol \<^verbatim>\<open>end\<close>: the first address after the kernel.\<close>

record kmem_st = mach +
  mem :: bytes
  kend :: u64
  freelist :: u64

definition kmemset :: "u64 \<Rightarrow> u32 \<Rightarrow> nat \<Rightarrow> ('x kmem_st_scheme, unit) kop" where
  "kmemset a c n = modify (\<lambda>s. s\<lparr>mem := memset (mem s) (unat a) c n\<rparr>)"

definition store64 :: "u64 \<Rightarrow> u64 \<Rightarrow> ('x kmem_st_scheme, unit) kop" where
  "store64 a v = modify (\<lambda>s. s\<lparr>mem := st64 (mem s) (unat a) v\<rparr>)"

definition load64 :: "u64 \<Rightarrow> ('x kmem_st_scheme, u64) kop" where
  "load64 a = gets (\<lambda>s. ld64 (mem s) (unat a))"

definition kfree :: "u64 \<Rightarrow> ('x kmem_st_scheme, unit) kop" where
  "kfree pa =
     bnd (gets kend) (\<lambda>end.
     if pa mod PGSIZE \<noteq> 0 \<or> pa < end \<or> pa \<ge> PHYSTOP then panic ''kfree'' else
     stmts
      [kmemset pa 1 PGSIZE,
       acquire L_kmem,
       bnd (gets freelist) (\<lambda>fl. store64 pa fl),
       modify (\<lambda>s. s\<lparr>freelist := pa\<rparr>),
       release L_kmem])"

definition kalloc :: "('x kmem_st_scheme, u64) kop" where
  "kalloc =
     seq (acquire L_kmem)
     (bnd (gets freelist) (\<lambda>r.
     seq (kwhen (r \<noteq> 0) (bnd (load64 r) (\<lambda>nx. modify (\<lambda>s. s\<lparr>freelist := nx\<rparr>))))
     (seq (release L_kmem)
     (seq (kwhen (r \<noteq> 0) (kmemset r 5 PGSIZE))
     (ret r)))))"

text \<open>
  The loop of \<open>freerange\<close>, over the loop variable \<open>p\<close>. Every iteration that frees a page
  moves \<open>p\<close> up by a page, so that one iteration per page below \<open>pa_end\<close> is enough.
\<close>

definition freerange :: "u64 \<Rightarrow> u64 \<Rightarrow> ('x kmem_st_scheme, unit) kop" where
  "freerange pa_start pa_end =
     kiter (unat pa_end div PGSIZE + 1)
       (\<lambda>p. if p + PGSIZE \<le> pa_end then seq (kfree p) (ret (Inl (p + PGSIZE))) else ret (Inr ()))
       (PGROUNDUP pa_start)"

definition kinit :: "('x kmem_st_scheme, unit) kop" where
  "kinit = seq (initlock L_kmem ''kmem'')
     (bnd (gets kend) (\<lambda>end. freerange end PHYSTOP))"

section \<open>Page arithmetic\<close>

lemma PHYSTOP_val: "PHYSTOP = 0x88000000"
  by (simp add: PHYSTOP_def)

lemma page_mask: "x AND - 4096 = (x :: u64) - x mod PGSIZE"
proof -
  have "(- 4096 :: u64) = NOT (mask 12)" by (simp add: mask_eq_exp_minus_1)
  then have "x AND - 4096 = x AND NOT (mask 12)" by (simp only:)
  also have "\<dots> = x AND NOT (take_bit 12 x)"
    by (rule bit_word_eqI) (auto simp: bit_and_iff bit_not_iff bit_mask_iff bit_take_bit_iff)
  also have "\<dots> = x - take_bit 12 x"
    by (rule disjunctive_diff_eq_and_not [symmetric])
      (auto intro!: bit_word_eqI simp: bit_simps)
  finally show ?thesis by (simp add: take_bit_eq_mod)
qed

lemma unat_mod_PGSIZE: "unat (x mod PGSIZE :: u64) = unat x mod PGSIZE"
  by (simp add: unat_mod)

lemma unat_PGROUNDDOWN: "unat (PGROUNDDOWN a) = unat a - unat a mod PGSIZE"
proof -
  have "a mod PGSIZE \<le> a" by (simp add: word_le_nat_alt unat_mod_PGSIZE)
  then show ?thesis
    by (simp add: PGROUNDDOWN_def page_mask unat_sub unat_mod_PGSIZE)
qed

lemma PGROUNDUP_eq: "PGROUNDUP sz = PGROUNDDOWN (sz + 4095)"
  by (simp add: PGROUNDUP_def PGROUNDDOWN_def add.commute)

lemma unat_PGROUNDUP:
  assumes "unat sz + 4095 < 2 ^ 64"
  shows "unat (PGROUNDUP sz) = (unat sz + 4095) div PGSIZE * PGSIZE"
proof -
  have "unat (sz + 4095) = unat sz + 4095"
    using assms by (simp add: unat_word_ariths)
  then show ?thesis
    by (simp add: PGROUNDUP_eq unat_PGROUNDDOWN minus_mod_eq_div_mult)
qed

text \<open>Page addresses: multiples of the page size, whose byte ranges are disjoint.\<close>

definition page_aligned :: "u64 \<Rightarrow> bool" where
  "page_aligned a \<longleftrightarrow> unat a mod PGSIZE = 0"

lemma mod_PGSIZE_0: "a mod PGSIZE = 0 \<longleftrightarrow> page_aligned a"
  by (metis page_aligned_def unat_eq_zero unat_mod_PGSIZE)

lemma aligned_disjoint:
  assumes "page_aligned a" "page_aligned b" "a \<noteq> b"
  shows "unat a + PGSIZE \<le> unat b \<or> unat b + PGSIZE \<le> unat a"
proof -
  from assms obtain i j where "unat a = i * PGSIZE" "unat b = j * PGSIZE"
    unfolding page_aligned_def by (metis div_mult_mod_eq add.right_neutral)
  moreover from this assms(3) have "i \<noteq> j" by (metis word_unat_eq_iff)
  then have "i < j \<or> j < i" by auto
  ultimately show ?thesis by auto
qed

lemma page_aligned_bound:
  assumes "page_aligned a"
  shows "unat a + PGSIZE \<le> 2 ^ 64"
proof -
  from assms obtain k where k: "unat a = k * PGSIZE"
    unfolding page_aligned_def by (metis div_mult_mod_eq add.right_neutral)
  have "unat a < 2 ^ 64" using unsigned_less [of a, where ?'a = nat] by simp
  then have "k * PGSIZE < 4503599627370496 * PGSIZE" by (simp add: k)
  then have "k < 4503599627370496" by simp
  then show ?thesis by (simp add: k)
qed

lemma page_aligned_PGROUNDDOWN: "page_aligned (PGROUNDDOWN a)"
  by (simp add: page_aligned_def unat_PGROUNDDOWN minus_mod_eq_div_mult)

lemma page_aligned_PGROUNDUP: "page_aligned (PGROUNDUP a)"
  by (simp add: PGROUNDUP_eq page_aligned_PGROUNDDOWN)

section \<open>The free list\<close>

text \<open>\<open>flist m p xs\<close>: from address \<open>p\<close>, following the links in memory, lie the pages \<open>xs\<close>.\<close>

fun flist :: "bytes \<Rightarrow> u64 \<Rightarrow> u64 list \<Rightarrow> bool" where
  "flist m p [] \<longleftrightarrow> p = 0"
| "flist m p (x # xs) \<longleftrightarrow> p = x \<and> p \<noteq> 0 \<and> flist m (ld64 m (unat x)) xs"

text \<open>A page that the allocator may hand out: aligned, after the kernel, below PHYSTOP.\<close>

definition ram_page :: "'x kmem_st_scheme \<Rightarrow> u64 \<Rightarrow> bool" where
  "ram_page s x \<longleftrightarrow> page_aligned x \<and> kend s \<le> x \<and> x < PHYSTOP"

definition kmem_inv :: "'x kmem_st_scheme \<Rightarrow> u64 list \<Rightarrow> bool" where
  "kmem_inv s xs \<longleftrightarrow> flist (mem s) (freelist s) xs \<and> distinct xs \<and> 0 < kend s \<and>
     (\<forall>x\<in>set xs. ram_page s x)"

lemma flist_frame:
  assumes "flist m p xs" "\<And>x i. x \<in> set xs \<Longrightarrow> i < 8 \<Longrightarrow> m' (unat x + i) = m (unat x + i)"
  shows "flist m' p xs"
  using assms
proof (induction xs arbitrary: p)
  case Nil
  then show ?case by simp
next
  case (Cons x xs)
  have "ld64 m' (unat x) = ld64 m (unat x)"
    by (rule ld64_cong) (simp add: Cons.prems(2))
  with Cons show ?case by auto
qed

text \<open>Bytes of one page do not affect the links kept in other pages.\<close>

lemma flist_other_page:
  assumes "flist m p xs" "\<forall>x\<in>set xs. page_aligned x" "page_aligned a" "a \<notin> set xs"
    and "\<And>b. b < unat a \<or> unat a + PGSIZE \<le> b \<Longrightarrow> m' b = m b"
  shows "flist m' p xs"
proof (rule flist_frame [OF assms(1)])
  fix x i assume x: "x \<in> set xs" and i: "i < (8::nat)"
  with assms(2-4) have "unat a + PGSIZE \<le> unat x \<or> unat x + PGSIZE \<le> unat a"
    by (intro aligned_disjoint) auto
  with i show "m' (unat x + i) = m (unat x + i)"
    by (intro assms(5)) auto
qed

lemma flist_head: "flist m p xs \<Longrightarrow> (p = 0 \<longleftrightarrow> xs = [])"
  by (cases xs) auto

lemma kmem_inv_nonzero: "kmem_inv s xs \<Longrightarrow> x \<in> set xs \<Longrightarrow> x \<noteq> 0"
  by (auto simp: kmem_inv_def ram_page_def)

text \<open>The exact effect of the two operations.\<close>

lemmas kmem_unfold = kmemset_def store64_def load64_def seq_def bnd_def kwhen_def

lemma kfree_eq:
  assumes "unlocked L_kmem s" "cpu_ok s"
  shows "kfree pa s =
     (if ram_page s pa then
        Ok () (s\<lparr>mem := st64 (memset (mem s) (unat pa) 1 PGSIZE) (unat pa) (freelist s),
                 freelist := pa, cpus := cs_cpus s\<rparr>)
      else Panic ''kfree'')"
proof -
  let ?s = "s\<lparr>mem := memset (mem s) (unat pa) 1 PGSIZE\<rparr>"
  have u: "unlocked L_kmem ?s" and c: "cpu_ok ?s" using assms by (simp_all add: unlocked_def cpu_ok_def)
  have "cs_cpus ?s = cs_cpus s" by (simp add: cs_cpus_def)
  moreover have "acq L_kmem ?s\<lparr>mem := m, freelist := f, cpus := x, csr := csr s, locks := locks s\<rparr>
     = s\<lparr>mem := m, freelist := f, cpus := x\<rparr>" for m f x
    by (simp add: acq_def)
  ultimately show ?thesis
    using assms
    by (auto simp: kfree_def kmem_unfold acquire_unlocked [OF u] release_acq [OF u c] ram_page_def
        mod_PGSIZE_0 not_le not_less)
      (simp_all add: acq_def)
qed

lemma kalloc_eq:
  assumes "unlocked L_kmem s" "cpu_ok s"
  shows "kalloc s = Ok (freelist s)
     (if freelist s = 0 then s\<lparr>cpus := cs_cpus s\<rparr>
      else s\<lparr>freelist := ld64 (mem s) (unat (freelist s)),
             mem := memset (mem s) (unat (freelist s)) 5 PGSIZE, cpus := cs_cpus s\<rparr>)"
  using assms
  by (auto simp: kalloc_def kmem_unfold acquire_unlocked release_acq [OF assms])
    (simp_all add: acq_def)

section \<open>Correctness\<close>

text \<open>Only bytes of the pages in \<open>A\<close> differ.\<close>

definition mem_frame :: "u64 set \<Rightarrow> bytes \<Rightarrow> bytes \<Rightarrow> bool" where
  "mem_frame A m m' \<longleftrightarrow> (\<forall>b. (\<forall>a\<in>A. b < unat a \<or> unat a + PGSIZE \<le> b) \<longrightarrow> m' b = m b)"

lemma mem_frame_refl [simp]: "mem_frame A m m"
  by (simp add: mem_frame_def)

lemma mem_frame_trans: "mem_frame A m m' \<Longrightarrow> mem_frame B m' m'' \<Longrightarrow> mem_frame (A \<union> B) m m''"
  by (simp add: mem_frame_def)

lemma mem_frame_trans1: "mem_frame A m m' \<Longrightarrow> mem_frame A m' m'' \<Longrightarrow> mem_frame A m m''"
  by (simp add: mem_frame_def)

lemma mem_frame_mono: "A \<subseteq> B \<Longrightarrow> mem_frame A m m' \<Longrightarrow> mem_frame B m m'"
  by (auto simp: mem_frame_def)

lemma mem_frame_memset: "n \<le> PGSIZE \<Longrightarrow> mem_frame {a} m (memset m (unat a) c n)"
  by (auto simp: mem_frame_def memset_eq)

lemma mem_frame_st64: "mem_frame {a} m (st64 m (unat a) v)"
  by (auto simp: mem_frame_def intro!: st64_other)

lemma flist_mem_frame:
  assumes "flist m p xs" "\<forall>x\<in>set xs. page_aligned x" "page_aligned a" "a \<notin> set xs"
    and "mem_frame {a} m m'"
  shows "flist m' p xs"
  using assms(1-4) by (rule flist_other_page) (use assms(5) in \<open>auto simp: mem_frame_def\<close>)

lemma flist_frame_set:
  assumes "flist m p xs" "\<forall>x\<in>set xs. page_aligned x \<and> x \<notin> A" "mem_frame A m m'" "\<forall>a\<in>A. page_aligned a"
  shows "flist m' p xs"
proof (rule flist_frame [OF assms(1)])
  fix x i assume x: "x \<in> set xs" and i: "i < (8::nat)"
  have "unat x + i < unat a \<or> unat a + PGSIZE \<le> unat x + i" if "a \<in> A" for a
  proof -
    have "unat a + PGSIZE \<le> unat x \<or> unat x + PGSIZE \<le> unat a"
      using assms(2,4) x that by (intro aligned_disjoint) auto
    with i show ?thesis by auto
  qed
  then show "m' (unat x + i) = m (unat x + i)" using assms(3) by (simp add: mem_frame_def)
qed

lemma ram_page_cong: "kend t = kend s \<Longrightarrow> ram_page t = ram_page s"
  by (auto simp: ram_page_def fun_eq_iff)

text \<open>Freeing a page puts it on the list and touches no other page.\<close>

lemma wp_kfree:
  assumes inv: "kmem_inv s xs" and pa: "ram_page s pa" "pa \<notin> set xs"
    and l: "unlocked L_kmem s" "cpu_ok s"
  shows "wp (kfree pa) (\<lambda>_ s'. kmem_inv s' (pa # xs) \<and> balanced s s' \<and> kend s' = kend s \<and>
     mem_frame {pa} (mem s) (mem s')) s"
proof -
  let ?m = "st64 (memset (mem s) (unat pa) 1 PGSIZE) (unat pa) (freelist s)"
  have fr: "mem_frame {pa} (mem s) ?m"
    by (rule mem_frame_trans1 [OF mem_frame_memset [where n = PGSIZE] mem_frame_st64]) simp
  have al: "\<forall>x\<in>set xs. page_aligned x" "page_aligned pa"
    using inv pa by (auto simp: kmem_inv_def ram_page_def)
  have fl: "flist (mem s) (freelist s) xs" using inv by (simp add: kmem_inv_def)
  have "flist ?m (freelist s) xs"
    by (rule flist_mem_frame [OF fl al pa(2) fr])
  moreover have "pa \<noteq> 0" using inv pa by (auto simp: kmem_inv_def ram_page_def)
  ultimately have "kmem_inv (s\<lparr>mem := ?m, freelist := pa, cpus := cs_cpus s\<rparr>) (pa # xs)"
    using inv pa by (simp add: kmem_inv_def ram_page_def)
  moreover have "kfree pa s = Ok () (s\<lparr>mem := ?m, freelist := pa, cpus := cs_cpus s\<rparr>)"
    by (simp add: kfree_eq [OF l] pa(1))
  ultimately show ?thesis
    using fr by (simp add: wp_def balanced_def)
qed

text \<open>Allocating takes the first page of the list and touches only that page.\<close>

lemma wp_kalloc:
  assumes inv: "kmem_inv s xs" and l: "unlocked L_kmem s" "cpu_ok s"
  shows "wp kalloc (\<lambda>r s'. kend s' = kend s \<and> balanced s s' \<and>
     (case xs of [] \<Rightarrow> r = 0 \<and> s' = s\<lparr>cpus := cs_cpus s\<rparr>
      | x # ys \<Rightarrow> r = x \<and> r \<noteq> 0 \<and> kmem_inv s' ys \<and>
          (\<exists>f. s' = s\<lparr>freelist := f, mem := memset (mem s) (unat x) 5 PGSIZE,
                cpus := cs_cpus s\<rparr>))) s"
proof (cases xs)
  case Nil
  with inv show ?thesis
    unfolding wp_def kalloc_eq [OF l] by (simp add: kmem_inv_def balanced_def)
next
  case (Cons x ys)
  let ?m = "memset (mem s) (unat x) 5 PGSIZE"
  from inv Cons have fl: "freelist s = x" "x \<noteq> 0" "flist (mem s) (ld64 (mem s) (unat x)) ys"
    and x: "page_aligned x" "x \<notin> set ys"
    by (auto simp: kmem_inv_def ram_page_def)
  have al: "\<forall>y\<in>set ys. page_aligned y"
    using inv Cons by (auto simp: kmem_inv_def ram_page_def)
  have "flist ?m (ld64 (mem s) (unat x)) ys"
    by (rule flist_mem_frame [OF fl(3) al x mem_frame_memset]) simp
  then have "kmem_inv (s\<lparr>freelist := ld64 (mem s) (unat x), mem := ?m, cpus := cs_cpus s\<rparr>) ys"
    using inv Cons by (auto simp: kmem_inv_def ram_page_def)
  then show ?thesis
    unfolding wp_def kalloc_eq [OF l] by (simp add: Cons fl(1,2) balanced_def) blast
qed

text \<open>
  \<open>freerange\<close> terminates and adds exactly the whole pages of its range. The invariant of
  its loop says that the pages from the rounded start up to \<open>p\<close> have been added.
\<close>

definition pages_in :: "u64 \<Rightarrow> u64 \<Rightarrow> u64 set" where
  "pages_in lo hi = {x. page_aligned x \<and> lo \<le> x \<and> x < hi}"

lemma page_aligned_step:
  assumes "page_aligned p" "unat p + PGSIZE < 2 ^ 64"
  shows "unat (p + PGSIZE) = unat p + PGSIZE" and "page_aligned (p + PGSIZE)"
    and "pages_in lo (p + PGSIZE) = (if lo \<le> p then insert p (pages_in lo p) else pages_in lo p)"
proof -
  show u: "unat (p + PGSIZE) = unat p + PGSIZE"
    using assms(2) by (simp add: unat_word_ariths)
  then show "page_aligned (p + PGSIZE)" using assms(1) by (simp add: page_aligned_def)
  have "x < p + PGSIZE \<longleftrightarrow> x < p \<or> x = p" if "page_aligned x" for x
    using aligned_disjoint [OF that assms(1)] u
    by (cases "x = p") (auto simp: word_less_nat_alt)
  then show "pages_in lo (p + PGSIZE) = (if lo \<le> p then insert p (pages_in lo p) else pages_in lo p)"
    using assms(1) by (auto simp: pages_in_def)
qed

lemma PGROUNDUP_bound:
  assumes "a \<le> PHYSTOP"
  shows "a \<le> PGROUNDUP a" "PGROUNDUP a \<le> PHYSTOP"
    "page_aligned x \<Longrightarrow> PGROUNDUP a \<le> x \<longleftrightarrow> a \<le> x"
proof -
  have a: "unat a \<le> 0x88000000" using assms by (simp add: PHYSTOP_val word_le_nat_alt)
  then have u: "unat (PGROUNDUP a) = (unat a + 4095) div PGSIZE * PGSIZE"
    by (intro unat_PGROUNDUP) simp
  show "a \<le> PGROUNDUP a" by (simp add: word_le_nat_alt u)
  show "PGROUNDUP a \<le> PHYSTOP" using a by (simp add: word_le_nat_alt u PHYSTOP_val)
  show "PGROUNDUP a \<le> x \<longleftrightarrow> a \<le> x" if "page_aligned x"
  proof -
    from that obtain k where "unat x = k * PGSIZE"
      unfolding page_aligned_def by (metis div_mult_mod_eq add.right_neutral)
    moreover have "(unat a + 4095) div PGSIZE < Suc k \<longleftrightarrow> unat a + 4095 < Suc k * PGSIZE"
      by (rule div_less_iff_less_mult) simp
    ultimately show ?thesis by (auto simp: word_le_nat_alt u)
  qed
qed

lemma wp_freerange:
  assumes inv: "kmem_inv s xs" and l: "unlocked L_kmem s" "cpu_ok s"
    and lo: "kend s \<le> lo" "lo \<le> PHYSTOP" and hi: "hi \<le> PHYSTOP" "page_aligned hi"
    and new: "set xs \<inter> pages_in lo hi = {}"
  shows "wp (freerange lo hi) (\<lambda>_ s'. balanced s s' \<and> kend s' = kend s \<and>
     (\<exists>ys. kmem_inv s' ys \<and> set ys = set xs \<union> pages_in lo hi)) s"
proof -
  let ?p0 = "PGROUNDUP lo"
  note p0 = PGROUNDUP_bound [OF lo(2)]
  have eqset: "pages_in ?p0 h = pages_in lo h" for h
    using p0(3) by (auto simp: pages_in_def)
  have empty: "pages_in h h = {}" for h by (auto simp: pages_in_def)
  define I where "I = (\<lambda>p t. page_aligned p \<and> ?p0 \<le> p \<and> p \<le> PHYSTOP \<and> (p \<le> hi \<or> p = ?p0) \<and>
     balanced s t \<and> kend t = kend s \<and>
     (\<exists>ys. kmem_inv t ys \<and> set ys = set xs \<union> pages_in ?p0 p))"
  show ?thesis
    unfolding freerange_def
  proof (rule wp_kiter [where I = I and \<mu> = "\<lambda>p. (unat hi - unat p) div PGSIZE"])
    show "I ?p0 s"
      using inv p0 empty by (auto simp: I_def page_aligned_PGROUNDUP)
    show "(unat hi - unat ?p0) div PGSIZE < unat hi div PGSIZE + 1"
      by (simp add: less_Suc_eq_le div_le_mono)
  next
    fix p t assume I: "I p t"
    then obtain ys where ys: "kmem_inv t ys" "set ys = set xs \<union> pages_in ?p0 p"
      by (auto simp: I_def)
    have pu: "unat p \<le> 0x88000000" using I by (simp add: I_def PHYSTOP_val word_le_nat_alt)
    have hu: "unat hi \<le> 0x88000000" using hi by (simp add: PHYSTOP_val word_le_nat_alt)
    have al: "page_aligned p" using I by (simp add: I_def)
    have step: "unat (p + PGSIZE) = unat p + PGSIZE" "page_aligned (p + PGSIZE)"
      "pages_in ?p0 (p + PGSIZE) = insert p (pages_in ?p0 p)"
      using page_aligned_step [OF al] pu I by (auto simp: I_def)
    have lk: "unlocked L_kmem t" "cpu_ok t"
      using I l balanced_unlocked [of s t] balanced_cpu_ok [of s t] by (auto simp: I_def)
    show "wp (if p + PGSIZE \<le> hi then seq (kfree p) (ret (Inl (p + PGSIZE))) else ret (Inr ()))
       (\<lambda>r t'. case r of Inl p' \<Rightarrow> I p' t' \<and> (unat hi - unat p') div PGSIZE < (unat hi - unat p) div PGSIZE
          | Inr a \<Rightarrow> balanced s t' \<and> kend t' = kend s \<and>
             (\<exists>ys. kmem_inv t' ys \<and> set ys = set xs \<union> pages_in lo hi)) t"
    proof (cases "p + PGSIZE \<le> hi")
      case True
      then have lt: "unat p + PGSIZE \<le> unat hi" by (simp add: word_le_nat_alt step)
      have ram: "ram_page t p"
        using I lt lo p0(1) hu by (auto simp: ram_page_def I_def word_le_nat_alt word_less_nat_alt PHYSTOP_val)
      have "p \<in> pages_in lo hi"
        using I lt eqset [of hi] by (auto simp: I_def pages_in_def word_less_nat_alt)
      then have notin: "p \<notin> set ys" using new ys(2) by (auto simp: pages_in_def)
      have dec: "(unat hi - unat (p + PGSIZE)) div PGSIZE < (unat hi - unat p) div PGSIZE"
        using lt by (simp add: step(1) div_less_dividend less_eq_div_iff_mult_less_eq div_if [of "unat hi - unat p"])
      have "wp (kfree p) (\<lambda>_ t'. I (p + PGSIZE) t') t"
      proof (rule wp_mono [OF wp_kfree [OF ys(1) ram notin lk]], elim conjE)
        fix t' assume t': "kmem_inv t' (p # ys)" "balanced t t'" "kend t' = kend t"
        have "balanced s t'" using I t'(2) by (auto simp: I_def intro: balanced_trans)
        moreover have "p + PGSIZE \<le> PHYSTOP" using True hi(1) by simp
        moreover have "?p0 \<le> p + PGSIZE"
          using I by (simp add: I_def word_le_nat_alt step(1))
        ultimately show "I (p + PGSIZE) t'"
          using I t' True step ys(2) by (auto simp: I_def intro!: exI [of _ "p # ys"])
      qed
      with True dec show ?thesis by (auto simp: wp_simps elim!: wp_mono)
    next
      case False
      then have gt: "unat hi < unat p + PGSIZE" by (simp add: word_le_nat_alt step)
      have "pages_in ?p0 p = pages_in lo hi"
      proof (cases "p \<le> hi")
        case True
        with gt aligned_disjoint [OF al hi(2)] have "p = hi" by (auto simp: word_le_nat_alt)
        then show ?thesis by (simp add: eqset)
      next
        case False
        with I have "p = ?p0" "hi < ?p0" by (auto simp: I_def)
        then show ?thesis unfolding eqset [symmetric] by (auto simp: pages_in_def)
      qed
      with False I ys show ?thesis by (auto simp: wp_simps I_def)
    qed
  qed
qed

text \<open>
  \<open>kinit\<close> from boot leaves every page between the kernel and PHYSTOP on the free list,
  each exactly once.
\<close>

lemma wp_kinit:
  assumes "freelist s = 0" "0 < kend s" "kend s \<le> PHYSTOP" "cpu_ok s"
  shows "wp kinit (\<lambda>_ s'. kend s' = kend s \<and> cpu_ok s' \<and> unlocked L_kmem s' \<and>
     (\<exists>xs. kmem_inv s' xs \<and> set xs = {x. ram_page s' x})) s"
proof -
  let ?s = "upd_lock L_kmem (\<lambda>_. \<lparr>locked = False, lname = ''kmem'', lcpu = None\<rparr>) s"
  have "page_aligned PHYSTOP" by (simp add: page_aligned_def PHYSTOP_val)
  moreover have "kmem_inv ?s []" "unlocked L_kmem ?s" "cpu_ok ?s" "kend ?s = kend s"
    using assms by (simp_all add: upd_lock_def kmem_inv_def unlocked_def cpu_ok_def)
  ultimately have "wp (freerange (kend s) PHYSTOP) (\<lambda>_ s'. balanced ?s s' \<and> kend s' = kend ?s \<and>
     (\<exists>ys. kmem_inv s' ys \<and> set ys = set [] \<union> pages_in (kend s) PHYSTOP)) ?s"
    using assms(3) by (intro wp_freerange) simp_all
  then have "wp (freerange (kend s) PHYSTOP) (\<lambda>_ s'. kend s' = kend s \<and> cpu_ok s' \<and> unlocked L_kmem s' \<and>
     (\<exists>xs. kmem_inv s' xs \<and> set xs = {x. ram_page s' x})) ?s"
  proof (rule wp_mono)
    fix u s'
    assume *: "balanced ?s s' \<and> kend s' = kend ?s \<and>
      (\<exists>ys. kmem_inv s' ys \<and> set ys = set [] \<union> pages_in (kend s) PHYSTOP)"
    have "pages_in (kend s) PHYSTOP = {x. ram_page s' x}"
      using * \<open>kend ?s = kend s\<close> by (auto simp: pages_in_def ram_page_def)
    moreover have "cpu_ok s'" "unlocked L_kmem s'"
      using * \<open>unlocked L_kmem ?s\<close> \<open>cpu_ok ?s\<close> balanced_cpu_ok [of ?s s'] balanced_unlocked [of ?s s']
      by blast+
    ultimately show "kend s' = kend s \<and> cpu_ok s' \<and> unlocked L_kmem s' \<and> (\<exists>xs. kmem_inv s' xs \<and> set xs = {x. ram_page s' x})"
      using * \<open>kend ?s = kend s\<close> by auto
  qed
  then show ?thesis
    by (simp add: kinit_def wp_simps initlock_def) (simp add: upd_lock_def)
qed

section \<open>Runs of the allocator\<close>

text \<open>
  The allocator's life: \<open>kinit\<close>, then any sequence of \<open>kalloc\<close>, of \<open>kfree\<close> of a page
  handed out before, and of writes by the owners of pages. \<open>A\<close> is the set of pages that are
  out.
\<close>

inductive kmem_run :: "'x kmem_st_scheme \<Rightarrow> u64 set \<Rightarrow> bool" where
  kr_init: "freelist s = 0 \<Longrightarrow> 0 < kend s \<Longrightarrow> kend s \<le> PHYSTOP \<Longrightarrow> cpu_ok s \<Longrightarrow>
     kinit s = Ok () t \<Longrightarrow> kmem_run t {}"
| kr_alloc: "kmem_run s A \<Longrightarrow> kalloc s = Ok p t \<Longrightarrow> kmem_run t (if p = 0 then A else insert p A)"
| kr_free: "kmem_run s A \<Longrightarrow> p \<in> A \<Longrightarrow> kfree p s = Ok () t \<Longrightarrow> kmem_run t (A - {p})"
| kr_write: "kmem_run s A \<Longrightarrow> p \<in> A \<Longrightarrow> mem_frame {p} (mem s) m \<Longrightarrow> kmem_run (s\<lparr>mem := m\<rparr>) A"

definition kmem_account :: "'x kmem_st_scheme \<Rightarrow> u64 set \<Rightarrow> u64 list \<Rightarrow> bool" where
  "kmem_account s A xs \<longleftrightarrow> kmem_inv s xs \<and> cpu_ok s \<and> unlocked L_kmem s \<and>
     set xs \<inter> A = {} \<and> set xs \<union> A = {x. ram_page s x}"

lemma kmem_account_alloc:
  assumes "kmem_account s A xs" "kalloc s = Ok p t"
  shows "\<exists>ys. kmem_account t (if p = 0 then A else insert p A) ys"
proof -
  from assms(1) have i: "kmem_inv s xs" and l: "unlocked L_kmem s" "cpu_ok s"
    and d: "set xs \<inter> A = {}" "set xs \<union> A = {x. ram_page s x}" and dx: "distinct xs"
    by (auto simp: kmem_account_def kmem_inv_def)
  from wp_kalloc [OF i l] assms(2) have w: "kend t = kend s" "balanced s t"
    and c: "case xs of [] \<Rightarrow> p = 0 \<and> t = s\<lparr>cpus := cs_cpus s\<rparr>
      | x # ys \<Rightarrow> p = x \<and> p \<noteq> 0 \<and> kmem_inv t ys \<and>
          (\<exists>f. t = s\<lparr>freelist := f, mem := memset (mem s) (unat x) 5 PGSIZE, cpus := cs_cpus s\<rparr>)"
    by (simp_all add: wp_def)
  have t: "cpu_ok t" "unlocked L_kmem t" "ram_page t = ram_page s"
    using l by (simp_all add: balanced_cpu_ok [OF w(2)] balanced_unlocked [OF w(2)] ram_page_cong [OF w(1)])
  show ?thesis
  proof (cases xs)
    case Nil
    then have "p = 0" "kmem_inv t []" using c i by (auto simp: kmem_inv_def)
    with t d Nil show ?thesis unfolding kmem_account_def by (intro exI [of _ "[]"]) simp
  next
    case (Cons x ys)
    then have "p = x" "p \<noteq> 0" "kmem_inv t ys" using c by auto
    moreover have "set ys \<inter> insert x A = {}" "set ys \<union> insert x A = {x. ram_page s x}"
      using d dx Cons by auto
    ultimately show ?thesis using t unfolding kmem_account_def by (intro exI [of _ ys]) simp
  qed
qed

lemma kmem_account_free:
  assumes "kmem_account s A xs" "p \<in> A"
  shows "\<exists>t. kfree p s = Ok () t \<and> kmem_account t (A - {p}) (p # xs)"
proof -
  from assms have i: "kmem_inv s xs" and l: "unlocked L_kmem s" "cpu_ok s"
    and p: "ram_page s p" "p \<notin> set xs"
    by (auto simp: kmem_account_def)
  from wp_kfree [OF i p l] obtain t where t: "kfree p s = Ok () t" "kmem_inv t (p # xs)"
    "balanced s t" "kend t = kend s"
    by (auto simp: wp_iff)
  then have "cpu_ok t" "unlocked L_kmem t" "ram_page t = ram_page s"
    using l by (simp_all add: balanced_cpu_ok [OF t(3)] balanced_unlocked [OF t(3)] ram_page_cong [OF t(4)])
  with t assms p show ?thesis by (auto simp: kmem_account_def)
qed

lemma kmem_account_write:
  assumes "kmem_account s A xs" "p \<in> A" "mem_frame {p} (mem s) m"
  shows "kmem_account (s\<lparr>mem := m\<rparr>) A xs"
proof -
  from assms have fl: "flist (mem s) (freelist s) xs" and al: "\<forall>x\<in>set xs. page_aligned x"
    "page_aligned p" and p: "p \<notin> set xs"
    by (auto simp: kmem_account_def kmem_inv_def ram_page_def)
  have "flist m (freelist s) xs" by (rule flist_mem_frame [OF fl al p assms(3)])
  with assms(1) show ?thesis
    by (simp add: kmem_account_def kmem_inv_def ram_page_def cpu_ok_def unlocked_def)
qed

lemma kmem_run_account: "kmem_run s A \<Longrightarrow> \<exists>xs. kmem_account s A xs"
proof (induction rule: kmem_run.induct)
  case (kr_init s t)
  from wp_kinit [OF kr_init(1-4)] kr_init(5) show ?case
    by (auto simp: wp_def kmem_account_def)
next
  case (kr_alloc s A p t)
  then show ?case using kmem_account_alloc by blast
next
  case (kr_free s A p t)
  then obtain xs where "kmem_account s A xs" by blast
  from kmem_account_free [OF this kr_free(2)] kr_free(3) show ?case by auto
next
  case (kr_write s A p m)
  then show ?case using kmem_account_write by blast
qed

section \<open>Properties\<close>

text \<open>
  C2. In every state of the allocator's life the pages of physical memory are accounted for: each
  page between the kernel and PHYSTOP is either out or on the free list, exactly once. So \<open>kalloc\<close>
  never panics and never hands out a page that is already out, it returns 0 only when every page
  is out, and \<open>kfree\<close> accepts every page that is out.
\<close>

theorem kalloc_never_double:
  assumes "kmem_run s A"
  shows "\<exists>xs. kmem_inv s xs \<and> distinct xs \<and> set xs \<inter> A = {} \<and> set xs \<union> A = {x. ram_page s x} \<and>
     (\<exists>p t. kalloc s = Ok p t \<and> (p = 0 \<longleftrightarrow> A = {x. ram_page s x}) \<and> (p \<noteq> 0 \<longrightarrow> ram_page s p \<and> p \<notin> A)) \<and>
     (\<forall>p\<in>A. \<exists>t. kfree p s = Ok () t)"
proof -
  from kmem_run_account [OF assms] obtain xs where a: "kmem_account s A xs" by blast
  then have i: "kmem_inv s xs" and l: "unlocked L_kmem s" "cpu_ok s" and d: "distinct xs"
    "set xs \<inter> A = {}" "set xs \<union> A = {x. ram_page s x}"
    by (auto simp: kmem_account_def kmem_inv_def)
  obtain t where k: "kalloc s = Ok (freelist s) t" using kalloc_eq [OF l] by blast
  have "(freelist s = 0 \<longleftrightarrow> A = {x. ram_page s x}) \<and>
    (freelist s \<noteq> 0 \<longrightarrow> ram_page s (freelist s) \<and> freelist s \<notin> A)"
  proof (cases xs)
    case Nil
    with i d show ?thesis by (simp add: kmem_inv_def)
  next
    case (Cons x ys)
    with i d have "freelist s = x" "x \<noteq> 0" "ram_page s x" "x \<notin> A" by (auto simp: kmem_inv_def)
    then show ?thesis by auto
  qed
  moreover have "\<forall>p\<in>A. \<exists>t. kfree p s = Ok () t" using kmem_account_free [OF a] by blast
  ultimately show ?thesis using i d k by blast
qed

text \<open>A machine with one page of memory after the kernel, for evaluation.\<close>

definition kmem0 :: kmem_st where
  "kmem0 = \<lparr>hart = hart mach0, cpus = cpus mach0, csr = csr mach0, locks = locks mach0,
     mem = (\<lambda>_. 0), kend = 0x87fff000, freelist = 0\<rparr>"

theorem kalloc_never_double_witness:
  "\<exists>t xs p u. kinit kmem0 = Ok () t \<and> kmem_inv t xs \<and> set xs = {x. ram_page t x} \<and> kalloc t = Ok p u"
proof -
  have h: "freelist kmem0 = 0" "0 < kend kmem0" "kend kmem0 \<le> PHYSTOP" "cpu_ok kmem0"
    by (simp_all add: kmem0_def mach0_def PHYSTOP_val cpu_ok_def)
  from wp_kinit [OF h] obtain t where t: "kinit kmem0 = Ok () t" by (auto simp: wp_iff)
  from kalloc_never_double [OF kr_init [OF h t]] t show ?thesis by auto
qed

end
