(* ===== verification/Vm.thy ===== *)
theory Vm
  imports Kalloc
begin

text \<open>
  Page tables: \<^verbatim>\<open>kernel/vm.c\<close> with the Sv39 macros of \<^verbatim>\<open>kernel/riscv.h\<close>. A page table is the
  address of a page of physical memory that holds 512 little-endian page-table entries,
  so that \<open>walk\<close>, \<open>mappages\<close> and the rest read and write the same memory the page
  allocator manages. Kernel buffers handed to \<open>copyout\<close> and \<open>copyin\<close> are byte views.
\<close>

section \<open>Page-table entries and address fields\<close>

definition PTE_V :: u64 where "PTE_V = push_bit 0 1"
definition PTE_R :: u64 where "PTE_R = push_bit 1 1"
definition PTE_W :: u64 where "PTE_W = push_bit 2 1"
definition PTE_X :: u64 where "PTE_X = push_bit 3 1"
definition PTE_U :: u64 where "PTE_U = push_bit 4 1"

definition PA2PTE :: "u64 \<Rightarrow> u64" where "PA2PTE pa = push_bit 10 (drop_bit 12 pa)"
definition PTE2PA :: "u64 \<Rightarrow> u64" where "PTE2PA pte = push_bit 12 (drop_bit 10 pte)"
definition PTE_FLAGS :: "u64 \<Rightarrow> u64" where "PTE_FLAGS pte = pte AND 0x3FF"

definition PX :: "nat \<Rightarrow> u64 \<Rightarrow> u64" where
  "PX level va = drop_bit (12 + 9 * level) va AND 0x1FF"

definition MAXVA :: u64 where "MAXVA = push_bit (9 + 9 + 9 + 12 - 1) 1"
definition TRAMPOLINE :: u64 where "TRAMPOLINE = MAXVA - PGSIZE"
definition TRAPFRAME :: u64 where "TRAPFRAME = TRAMPOLINE - PGSIZE"
definition KSTACK :: "u64 \<Rightarrow> u64" where "KSTACK p = TRAMPOLINE - (p + 1) * 2 * PGSIZE"

definition UART0 :: u64 where "UART0 = 0x10000000"
definition VIRTIO0 :: u64 where "VIRTIO0 = 0x10001000"
definition PLIC :: u64 where "PLIC = 0x0c000000"

definition SATP_SV39 :: u64 where "SATP_SV39 = push_bit 60 8"
definition MAKE_SATP :: "u64 \<Rightarrow> u64" where "MAKE_SATP pagetable = SATP_SV39 OR drop_bit 12 pagetable"

text \<open>
  The kernel page table, and the addresses the linker script provides: the end of the
  kernel text and the trampoline page.
\<close>

record vm_st = kmem_st +
  kernel_pagetable :: u64
  etext :: u64
  trampoline :: u64

section \<open>Walking and mapping\<close>

text \<open>The address of entry \<open>i\<close> of a page-table page: \<^verbatim>\<open>&pagetable[i]\<close>.\<close>

definition pte_addr :: "u64 \<Rightarrow> u64 \<Rightarrow> u64" where
  "pte_addr pagetable i = pagetable + 8 * i"

fun walk_loop :: "nat \<Rightarrow> u64 \<Rightarrow> u64 \<Rightarrow> bool \<Rightarrow> ('x kmem_st_scheme, u64) kop" where
  "walk_loop 0 pagetable va alloc = ret (pte_addr pagetable (PX 0 va))"
| "walk_loop (Suc l) pagetable va alloc =
     (let pte = pte_addr pagetable (PX (Suc l) va) in
      bnd (load64 pte) (\<lambda>e.
      if e AND PTE_V \<noteq> 0 then walk_loop l (PTE2PA e) va alloc
      else if \<not> alloc then ret 0
      else bnd kalloc (\<lambda>pt.
        if pt = 0 then ret 0
        else seq (kmemset pt 0 PGSIZE)
             (seq (store64 pte (PA2PTE pt OR PTE_V))
             (walk_loop l pt va alloc)))))"

definition walk :: "u64 \<Rightarrow> u64 \<Rightarrow> bool \<Rightarrow> ('x kmem_st_scheme, u64) kop" where
  "walk pagetable va alloc =
     (if va \<ge> MAXVA then panic ''walk'' else walk_loop 2 pagetable va alloc)"

definition walkaddr :: "u64 \<Rightarrow> u64 \<Rightarrow> ('x kmem_st_scheme, u64) kop" where
  "walkaddr pagetable va =
     (if va \<ge> MAXVA then ret 0 else
      bnd (walk pagetable va False) (\<lambda>pte.
      if pte = 0 then ret 0 else
      bnd (load64 pte) (\<lambda>e.
      if e AND PTE_V = 0 then ret 0
      else if e AND PTE_U = 0 then ret 0
      else ret (PTE2PA e))))"

text \<open>
  The loop of \<open>mappages\<close> runs over \<open>(a, pa)\<close> until \<open>a = last\<close>; both sizes being
  multiples of the page size, it makes one iteration per page.
\<close>

definition mappages_step :: "u64 \<Rightarrow> u64 \<Rightarrow> u64 \<Rightarrow> u64 \<times> u64 \<Rightarrow> ('x kmem_st_scheme, (u64 \<times> u64) + int) kop" where
  "mappages_step pagetable perm end_page = (\<lambda>(a, pa).
     bnd (walk pagetable a True) (\<lambda>pte.
     if pte = 0 then ret (Inr (-1)) else
     bnd (load64 pte) (\<lambda>e.
     if e AND PTE_V \<noteq> 0 then panic ''mappages: remap'' else
     seq (store64 pte (PA2PTE pa OR perm OR PTE_V))
     (if a = end_page then ret (Inr 0) else ret (Inl (a + PGSIZE, pa + PGSIZE))))))"

definition mappages :: "u64 \<Rightarrow> u64 \<Rightarrow> u64 \<Rightarrow> u64 \<Rightarrow> u64 \<Rightarrow> ('x kmem_st_scheme, int) kop" where
  "mappages pagetable va sz pa perm =
     (if va mod PGSIZE \<noteq> 0 then panic ''mappages: va not aligned''
      else if sz mod PGSIZE \<noteq> 0 then panic ''mappages: size not aligned''
      else if sz = 0 then panic ''mappages: size''
      else kiter (unat sz div PGSIZE) (mappages_step pagetable perm (va + sz - PGSIZE)) (va, pa))"

definition kvmmap :: "u64 \<Rightarrow> u64 \<Rightarrow> u64 \<Rightarrow> u64 \<Rightarrow> u64 \<Rightarrow> ('x kmem_st_scheme, unit) kop" where
  "kvmmap kpgtbl va pa sz perm =
     bnd (mappages kpgtbl va sz pa perm) (\<lambda>r. if r \<noteq> 0 then panic ''kvmmap'' else ret ())"

definition uvmunmap_step :: "u64 \<Rightarrow> u64 \<Rightarrow> bool \<Rightarrow> u64 \<Rightarrow> ('x kmem_st_scheme, u64 + unit) kop" where
  "uvmunmap_step pagetable stop do_free a =
     (if \<not> a < stop then ret (Inr ()) else
      bnd (walk pagetable a False) (\<lambda>pte.
      if pte = 0 then panic ''uvmunmap: walk'' else
      bnd (load64 pte) (\<lambda>e.
      if e AND PTE_V = 0 then panic ''uvmunmap: not mapped''
      else if PTE_FLAGS e = PTE_V then panic ''uvmunmap: not a leaf''
      else seq (kwhen do_free (kfree (PTE2PA e)))
        (seq (store64 pte 0) (ret (Inl (a + PGSIZE)))))))"

definition uvmunmap :: "u64 \<Rightarrow> u64 \<Rightarrow> u64 \<Rightarrow> bool \<Rightarrow> ('x kmem_st_scheme, unit) kop" where
  "uvmunmap pagetable va npages do_free =
     (if va mod PGSIZE \<noteq> 0 then panic ''uvmunmap: not aligned'' else
      kiter (unat npages + 1) (uvmunmap_step pagetable (va + npages * PGSIZE) do_free) va)"

section \<open>User page tables\<close>

definition uvmcreate :: "('x kmem_st_scheme, u64) kop" where
  "uvmcreate =
     bnd kalloc (\<lambda>pagetable.
     if pagetable = 0 then ret 0
     else seq (kmemset pagetable 0 PGSIZE) (ret pagetable))"

text \<open>\<open>put_bytes\<close> is \<open>memmove\<close> from a kernel object outside the modelled memory.\<close>

definition put_bytes :: "u64 \<Rightarrow> bytes \<Rightarrow> nat \<Rightarrow> ('x kmem_st_scheme, unit) kop" where
  "put_bytes dst src n = modify (\<lambda>s. s\<lparr>mem := (\<lambda>a.
     if unat dst \<le> a \<and> a < unat dst + n then src (a - unat dst) else mem s a)\<rparr>)"

definition kmemmove :: "u64 \<Rightarrow> u64 \<Rightarrow> nat \<Rightarrow> ('x kmem_st_scheme, unit) kop" where
  "kmemmove dst src n = modify (\<lambda>s. s\<lparr>mem := memmove (mem s) (unat dst) (unat src) n\<rparr>)"

definition uvmfirst :: "u64 \<Rightarrow> bytes \<Rightarrow> u32 \<Rightarrow> ('x kmem_st_scheme, unit) kop" where
  "uvmfirst pagetable src sz =
     (if sz \<ge> PGSIZE then panic ''uvmfirst: more than a page'' else
      bnd kalloc (\<lambda>m.
      seq (kmemset m 0 PGSIZE)
      (seq (mappages pagetable 0 PGSIZE m (PTE_W OR PTE_R OR PTE_X OR PTE_U))
      (put_bytes m src (unat sz)))))"

text \<open>\<^verbatim>\<open>int npages\<close> keeps the low 32 bits of the quotient, sign-extended at the call.\<close>

definition uvmdealloc :: "u64 \<Rightarrow> u64 \<Rightarrow> u64 \<Rightarrow> ('x kmem_st_scheme, u64) kop" where
  "uvmdealloc pagetable oldsz newsz =
     (if newsz \<ge> oldsz then ret oldsz
      else seq (kwhen (PGROUNDUP newsz < PGROUNDUP oldsz)
        (let npages = (ucast ((PGROUNDUP oldsz - PGROUNDUP newsz) div PGSIZE) :: u32) in
         uvmunmap pagetable (PGROUNDUP newsz) (scast npages) True))
      (ret newsz))"

definition uvmalloc :: "u64 \<Rightarrow> u64 \<Rightarrow> u64 \<Rightarrow> u64 \<Rightarrow> ('x kmem_st_scheme, u64) kop" where
  "uvmalloc pagetable oldsz0 newsz xperm =
     (if newsz < oldsz0 then ret oldsz0
      else let oldsz = PGROUNDUP oldsz0 in
      kiter ((unat newsz - unat oldsz) div PGSIZE + 2)
        (\<lambda>a. if \<not> a < newsz then ret (Inr newsz) else
          bnd kalloc (\<lambda>m.
          if m = 0 then seq (uvmdealloc pagetable a oldsz) (ret (Inr 0)) else
          seq (kmemset m 0 PGSIZE)
          (bnd (mappages pagetable a PGSIZE m (PTE_R OR PTE_U OR xperm)) (\<lambda>r.
          if r \<noteq> 0 then seq (kfree m) (seq (uvmdealloc pagetable a oldsz) (ret (Inr 0)))
          else ret (Inl (a + PGSIZE))))))
        oldsz)"

text \<open>
  The recursion of \<open>freewalk\<close> is bounded by the depth of the tree; callers start it with
  the three levels of Sv39.
\<close>

fun freewalk :: "nat \<Rightarrow> u64 \<Rightarrow> ('x kmem_st_scheme, unit) kop" where
  "freewalk 0 pagetable = (\<lambda>s. Nofuel)"
| "freewalk (Suc d) pagetable =
     seq (kfor [0..<512] (\<lambda>i.
       let pp = pte_addr pagetable (of_nat i) in
       bnd (load64 pp) (\<lambda>pte.
       if pte AND PTE_V \<noteq> 0 \<and> pte AND (PTE_R OR PTE_W OR PTE_X) = 0
       then seq (freewalk d (PTE2PA pte)) (store64 pp 0)
       else if pte AND PTE_V \<noteq> 0 then panic ''freewalk: leaf''
       else ret ())))
     (kfree pagetable)"

definition uvmfree :: "u64 \<Rightarrow> u64 \<Rightarrow> ('x kmem_st_scheme, unit) kop" where
  "uvmfree pagetable sz =
     seq (kwhen (sz > 0) (uvmunmap pagetable 0 (PGROUNDUP sz div PGSIZE) True))
     (freewalk 3 pagetable)"

definition uvmcopy :: "u64 \<Rightarrow> u64 \<Rightarrow> u64 \<Rightarrow> ('x kmem_st_scheme, int) kop" where
  "uvmcopy old new sz =
     kiter (unat sz div PGSIZE + 2)
       (\<lambda>i. if \<not> i < sz then ret (Inr 0) else
         bnd (walk old i False) (\<lambda>pte.
         if pte = 0 then panic ''uvmcopy: pte should exist'' else
         bnd (load64 pte) (\<lambda>e.
         if e AND PTE_V = 0 then panic ''uvmcopy: page not present'' else
         let pa = PTE2PA e; flags = PTE_FLAGS e;
             err = seq (uvmunmap new 0 (i div PGSIZE) True) (ret (Inr (-1))) in
         bnd kalloc (\<lambda>m.
         if m = 0 then err else
         seq (kmemmove m pa PGSIZE)
         (bnd (mappages new i PGSIZE m flags) (\<lambda>r.
         if r \<noteq> 0 then seq (kfree m) err
         else ret (Inl (i + PGSIZE))))))))
       0"

definition uvmclear :: "u64 \<Rightarrow> u64 \<Rightarrow> ('x kmem_st_scheme, unit) kop" where
  "uvmclear pagetable va =
     bnd (walk pagetable va False) (\<lambda>pte.
     if pte = 0 then panic ''uvmclear'' else
     bnd (load64 pte) (\<lambda>e. store64 pte (e AND NOT PTE_U)))"

section \<open>Copying between kernel and user space\<close>

text \<open>
  Each iteration copies at least one byte, so the length bounds the iterations. \<open>src\<close> is
  the view of the kernel buffer at the current position.
\<close>

definition copyout_step :: "u64 \<Rightarrow> u64 \<times> bytes \<times> u64 \<Rightarrow> ('x kmem_st_scheme, (u64 \<times> bytes \<times> u64) + int) kop" where
  "copyout_step pagetable = (\<lambda>(dstva, src, len).
     if \<not> len > 0 then ret (Inr 0) else
     let va0 = PGROUNDDOWN dstva in
     if va0 \<ge> MAXVA then ret (Inr (-1)) else
     bnd (walk pagetable va0 False) (\<lambda>pte.
     if pte = 0 then ret (Inr (-1)) else
     bnd (load64 pte) (\<lambda>e.
     if e AND PTE_V = 0 \<or> e AND PTE_U = 0 \<or> e AND PTE_W = 0 then ret (Inr (-1)) else
     let pa0 = PTE2PA e;
         n0 = PGSIZE - (dstva - va0);
         n = (if n0 > len then len else n0) in
     seq (put_bytes (pa0 + (dstva - va0)) src (unat n))
     (ret (Inl (va0 + PGSIZE, (\<lambda>i. src (i + unat n)), len - n))))))"

definition copyout :: "u64 \<Rightarrow> u64 \<Rightarrow> bytes \<Rightarrow> u64 \<Rightarrow> ('x kmem_st_scheme, int) kop" where
  "copyout pagetable dstva src len = kiter (unat len + 1) (copyout_step pagetable) (dstva, src, len)"

text \<open>\<open>get_bytes\<close> is \<open>memmove\<close> into a kernel object: \<open>dst\<close> with \<open>n\<close> bytes at \<open>k\<close> replaced.\<close>

definition get_bytes :: "bytes \<Rightarrow> nat \<Rightarrow> u64 \<Rightarrow> nat \<Rightarrow> ('x kmem_st_scheme, bytes) kop" where
  "get_bytes dst k src n = gets (\<lambda>s i.
     if k \<le> i \<and> i < k + n then mem s (unat src + (i - k)) else dst i)"

text \<open>The result of \<open>copyin\<close> is its return value and the new contents of \<open>dst\<close>.\<close>

definition copyin_step :: "u64 \<Rightarrow> bytes \<times> nat \<times> u64 \<times> u64 \<Rightarrow>
    ('x kmem_st_scheme, (bytes \<times> nat \<times> u64 \<times> u64) + (int \<times> bytes)) kop" where
  "copyin_step pagetable = (\<lambda>(dst, k, srcva, len).
     if \<not> len > 0 then ret (Inr (0, dst)) else
     let va0 = PGROUNDDOWN srcva in
     bnd (walkaddr pagetable va0) (\<lambda>pa0.
     if pa0 = 0 then ret (Inr (-1, dst)) else
     let n0 = PGSIZE - (srcva - va0);
         n = (if n0 > len then len else n0) in
     bnd (get_bytes dst k (pa0 + (srcva - va0)) (unat n)) (\<lambda>dst'.
     ret (Inl (dst', k + unat n, va0 + PGSIZE, len - n)))))"

definition copyin :: "u64 \<Rightarrow> bytes \<Rightarrow> u64 \<Rightarrow> u64 \<Rightarrow> ('x kmem_st_scheme, int \<times> bytes) kop" where
  "copyin pagetable dst srcva len = kiter (unat len + 1) (copyin_step pagetable) (dst, 0, srcva, len)"

text \<open>
  The inner loop of \<open>copyinstr\<close> over at most \<open>n\<close> bytes at \<open>p\<close>: the new destination, the
  number of bytes copied before the NUL, and whether the NUL was found.
\<close>

primrec copyinstr_page :: "nat \<Rightarrow> bytes \<Rightarrow> nat \<Rightarrow> bytes \<Rightarrow> nat \<Rightarrow> bytes \<times> nat \<times> bool" where
  "copyinstr_page 0 m p dst k = (dst, k, False)"
| "copyinstr_page (Suc n) m p dst k =
     (if m p = 0 then (dst(k := 0), k, True)
      else copyinstr_page n m (Suc p) (dst(k := m p)) (Suc k))"

definition copyinstr :: "u64 \<Rightarrow> bytes \<Rightarrow> u64 \<Rightarrow> u64 \<Rightarrow> ('x kmem_st_scheme, int \<times> bytes) kop" where
  "copyinstr pagetable dst srcva maxlen =
     kiter (unat maxlen + 2)
       (\<lambda>(dst, k, srcva, maxlen, got_null).
         if \<not> (\<not> got_null \<and> maxlen > 0) then ret (Inr (if got_null then 0 else -1, dst)) else
         let va0 = PGROUNDDOWN srcva in
         bnd (walkaddr pagetable va0) (\<lambda>pa0.
         if pa0 = 0 then ret (Inr (-1, dst)) else
         let n0 = PGSIZE - (srcva - va0);
             n = (if n0 > maxlen then maxlen else n0) in
         bnd (gets mem) (\<lambda>m.
         case copyinstr_page (unat n) m (unat (pa0 + (srcva - va0))) dst k of
           (dst', k', got) \<Rightarrow>
             ret (Inl (dst', k', va0 + PGSIZE, maxlen - of_nat (k' - k), got)))))
       (dst, 0, srcva, maxlen, False)"

section \<open>The kernel page table\<close>

text \<open>\<open>proc_mapstacks\<close> of \<^verbatim>\<open>kernel/proc.c\<close>: a kernel stack page for each of NPROC processes.\<close>

definition proc_mapstacks :: "u64 \<Rightarrow> ('x kmem_st_scheme, unit) kop" where
  "proc_mapstacks kpgtbl =
     kfor [0..<64] (\<lambda>p.
       bnd kalloc (\<lambda>pa.
       if pa = 0 then panic ''kalloc'' else
       kvmmap kpgtbl (KSTACK (of_nat p)) pa PGSIZE (PTE_R OR PTE_W)))"

definition kvmmake :: "('x vm_st_scheme, u64) kop" where
  "kvmmake =
     bnd kalloc (\<lambda>kpgtbl.
     seq (kmemset kpgtbl 0 PGSIZE)
     (bnd (gets etext) (\<lambda>etext.
     bnd (gets trampoline) (\<lambda>trampoline.
     seq (stmts
      [kvmmap kpgtbl UART0 UART0 PGSIZE (PTE_R OR PTE_W),
       kvmmap kpgtbl VIRTIO0 VIRTIO0 PGSIZE (PTE_R OR PTE_W),
       kvmmap kpgtbl PLIC PLIC 0x400000 (PTE_R OR PTE_W),
       kvmmap kpgtbl KERNBASE KERNBASE (etext - KERNBASE) (PTE_R OR PTE_X),
       kvmmap kpgtbl etext etext (PHYSTOP - etext) (PTE_R OR PTE_W),
       kvmmap kpgtbl TRAMPOLINE trampoline PGSIZE (PTE_R OR PTE_X),
       proc_mapstacks kpgtbl])
     (ret kpgtbl)))))"

definition kvminit :: "('x vm_st_scheme, unit) kop" where
  "kvminit = bnd kvmmake (\<lambda>pt. modify (\<lambda>s. s\<lparr>kernel_pagetable := pt\<rparr>))"

text \<open>\<open>sfence_vma\<close> flushes the TLB, which the model does not have.\<close>

definition kvminithart :: "('x vm_st_scheme, unit) kop" where
  "kvminithart =
     bnd (gets kernel_pagetable) (\<lambda>pt. modify (upd_csr (\<lambda>c. c\<lparr>satp := MAKE_SATP pt\<rparr>)))"

end
