(* ===== verification/Printf.thy ===== *)
theory Printf
  imports Vm
begin

text \<open>
  Formatted output of \<^verbatim>\<open>kernel/printf.c\<close>. The formatting loop computes the characters passed to
  \<open>consputc\<close>; \<open>printf\<close> appends them to the console output \<open>kout\<close> under \<open>pr.lock\<close>.
\<close>

section \<open>Formatting\<close>

abbreviation newline :: string where
  "newline \<equiv> [CHR 0x0A]"

definition digits :: string where
  "digits = ''0123456789abcdef''"

text \<open>
  The do-while loop of \<open>printint\<close>: \<^verbatim>\<open>buf[0..i)\<close>, least significant digit first. A 32-bit
  number has at most 32 digits in any base from 2.
\<close>

fun printint_digits :: "nat \<Rightarrow> u32 \<Rightarrow> u32 \<Rightarrow> string" where
  "printint_digits 0 base x = []"
| "printint_digits (Suc n) base x =
     digits ! unat (x mod base) #
     (if x div base \<noteq> 0 then printint_digits n base (x div base) else [])"

definition printint :: "i32 \<Rightarrow> u32 \<Rightarrow> bool \<Rightarrow> string" where
  "printint xx base sign =
     (let neg = sign \<and> sint xx < 0;
          x = (if neg then - xx else xx)
      in rev (printint_digits 32 base x @ (if neg then ''-'' else [])))"

fun printptr_loop :: "nat \<Rightarrow> u64 \<Rightarrow> string" where
  "printptr_loop 0 x = []"
| "printptr_loop (Suc n) x = digits ! unat (drop_bit 60 x) # printptr_loop n (push_bit 4 x)"

definition printptr :: "u64 \<Rightarrow> string" where
  "printptr x = ''0x'' @ printptr_loop 16 x"

text \<open>
  Variadic arguments; a null \<^verbatim>\<open>char*\<close> is \<open>A_str None\<close>. \<open>None\<close> as a result: an argument of the
  wanted type is missing, which C leaves undefined.
\<close>

datatype varg = A_int i32 | A_ptr u64 | A_str "string option"

definition addout :: "string \<Rightarrow> string option \<Rightarrow> string option" where
  "addout s r = map_option (append s) r"

fun printf_out :: "string \<Rightarrow> varg list \<Rightarrow> string option" where
  "printf_out [] ap = Some []"
| "printf_out [c] ap = Some (if c = CHR ''%'' then [] else [c])"
| "printf_out (c # c' # fmt) ap =
     (if c \<noteq> CHR ''%'' then addout [c] (printf_out (c' # fmt) ap)
      else if c' = CHR ''d'' then
        (case ap of A_int v # ap' \<Rightarrow> addout (printint v 10 True) (printf_out fmt ap') | _ \<Rightarrow> None)
      else if c' = CHR ''x'' then
        (case ap of A_int v # ap' \<Rightarrow> addout (printint v 16 True) (printf_out fmt ap') | _ \<Rightarrow> None)
      else if c' = CHR ''p'' then
        (case ap of A_ptr v # ap' \<Rightarrow> addout (printptr v) (printf_out fmt ap') | _ \<Rightarrow> None)
      else if c' = CHR ''s'' then
        (case ap of
           A_str v # ap' \<Rightarrow> addout (case v of None \<Rightarrow> ''(null)'' | Some t \<Rightarrow> t) (printf_out fmt ap')
         | _ \<Rightarrow> None)
      else if c' = CHR ''%'' then addout ''%'' (printf_out fmt ap)
      else addout [CHR ''%'', c'] (printf_out fmt ap))"

section \<open>State and printing\<close>

text \<open>\<open>kout\<close>: the characters given to the UART's transmit register so far.\<close>

record pr_st = vm_st +
  pr_locking :: bool
  kout :: string

definition printf :: "string \<Rightarrow> varg list \<Rightarrow> ('x pr_st_scheme, unit) kop" where
  "printf fmt ap =
     bnd (gets pr_locking) (\<lambda>locking.
     stmts
      [kwhen locking (acquire L_pr),
       (case printf_out fmt ap of
          None \<Rightarrow> undef
        | Some t \<Rightarrow> modify (\<lambda>s. s\<lparr>kout := kout s @ t\<rparr>)),
       kwhen locking (release L_pr)])"

definition printfinit :: "('x pr_st_scheme, unit) kop" where
  "printfinit =
     stmts [initlock L_pr ''pr'', modify (\<lambda>s. s\<lparr>pr_locking := True\<rparr>)]"

end
