(* ===== verification/Proc.thy ===== *)
theory Proc
  imports Printf
begin

text \<open>
  The process table of \<^verbatim>\<open>kernel/proc.h\<close> and the operations of \<^verbatim>\<open>kernel/proc.c\<close> that work on it
  and on page tables: allocation and release of process slots, \<open>sleep\<close>/\<open>wakeup\<close>,
  \<open>sched\<close>/\<open>yield\<close> and the scheduler body, \<open>kill\<close>, \<open>wait\<close>; and the sleep locks of
  \<^verbatim>\<open>kernel/sleeplock.c\<close>. \<open>fork\<close> and \<open>exit\<close>, which also use files and inodes, are modelled
  after those components.
\<close>

section \<open>State\<close>

abbreviation NPROC :: "'a::numeral" where "NPROC \<equiv> 64"
abbreviation NCPU :: "'a::numeral" where "NCPU \<equiv> 8"
abbreviation NOFILE :: "'a::numeral" where "NOFILE \<equiv> 16"

datatype procstate = UNUSED | USED | SLEEPING | RUNNABLE | RUNNING | ZOMBIE

text \<open>\<^verbatim>\<open>struct context\<close>: the registers \<open>swtch\<close> saves.\<close>

record pcontext =
  ctx_ra :: u64
  ctx_sp :: u64
  ctx_s0 :: u64
  ctx_s1 :: u64
  ctx_s2 :: u64
  ctx_s3 :: u64
  ctx_s4 :: u64
  ctx_s5 :: u64
  ctx_s6 :: u64
  ctx_s7 :: u64
  ctx_s8 :: u64
  ctx_s9 :: u64
  ctx_s10 :: u64
  ctx_s11 :: u64

definition zero_context :: pcontext where
  "zero_context = \<lparr>ctx_ra = 0, ctx_sp = 0, ctx_s0 = 0, ctx_s1 = 0, ctx_s2 = 0, ctx_s3 = 0,
     ctx_s4 = 0, ctx_s5 = 0, ctx_s6 = 0, ctx_s7 = 0, ctx_s8 = 0, ctx_s9 = 0, ctx_s10 = 0,
     ctx_s11 = 0\<rparr>"

text \<open>
  \<^verbatim>\<open>struct proc\<close>. Pointers to processes, open files and in-memory inodes are indices into
  their tables, \<open>None\<close> being the null pointer; the lock of slot \<open>p\<close> is \<open>L_proc p\<close>.
\<close>

record proc =
  p_state :: procstate
  p_chan :: "chan option"
  p_killed :: bool
  p_xstate :: i32
  p_pid :: i32
  p_parent :: "nat option"
  p_kstack :: u64
  p_sz :: u64
  p_pagetable :: u64
  p_trapframe :: u64
  p_context :: pcontext
  p_ofile :: "nat \<Rightarrow> nat option"
  p_cwd :: "nat option"
  p_name :: bytes
  p_trace_mask :: i32

text \<open>Byte offsets of the fields of \<^verbatim>\<open>struct trapframe\<close> in its page.\<close>

datatype tf_reg =
    TF_kernel_satp | TF_kernel_sp | TF_kernel_trap | TF_epc | TF_kernel_hartid
  | TF_ra | TF_sp | TF_gp | TF_tp | TF_t0 | TF_t1 | TF_t2 | TF_s0 | TF_s1
  | TF_a0 | TF_a1 | TF_a2 | TF_a3 | TF_a4 | TF_a5 | TF_a6 | TF_a7
  | TF_s2 | TF_s3 | TF_s4 | TF_s5 | TF_s6 | TF_s7 | TF_s8 | TF_s9 | TF_s10 | TF_s11
  | TF_t3 | TF_t4 | TF_t5 | TF_t6

fun tf_off :: "tf_reg \<Rightarrow> u64" where
  "tf_off TF_kernel_satp = 0" | "tf_off TF_kernel_sp = 8" | "tf_off TF_kernel_trap = 16"
| "tf_off TF_epc = 24" | "tf_off TF_kernel_hartid = 32" | "tf_off TF_ra = 40" | "tf_off TF_sp = 48"
| "tf_off TF_gp = 56" | "tf_off TF_tp = 64" | "tf_off TF_t0 = 72" | "tf_off TF_t1 = 80"
| "tf_off TF_t2 = 88" | "tf_off TF_s0 = 96" | "tf_off TF_s1 = 104" | "tf_off TF_a0 = 112"
| "tf_off TF_a1 = 120" | "tf_off TF_a2 = 128" | "tf_off TF_a3 = 136" | "tf_off TF_a4 = 144"
| "tf_off TF_a5 = 152" | "tf_off TF_a6 = 160" | "tf_off TF_a7 = 168" | "tf_off TF_s2 = 176"
| "tf_off TF_s3 = 184" | "tf_off TF_s4 = 192" | "tf_off TF_s5 = 200" | "tf_off TF_s6 = 208"
| "tf_off TF_s7 = 216" | "tf_off TF_s8 = 224" | "tf_off TF_s9 = 232" | "tf_off TF_s10 = 240"
| "tf_off TF_s11 = 248" | "tf_off TF_t3 = 256" | "tf_off TF_t4 = 264" | "tf_off TF_t5 = 272"
| "tf_off TF_t6 = 280"

text \<open>\<^verbatim>\<open>struct sleeplock\<close>, stored under the name of its inner spinlock.\<close>

record sleeplock =
  sl_locked :: bool
  sl_name :: string
  sl_pid :: i32

text \<open>\<open>forkret\<close> is the address of the function, where a new process starts running.\<close>

record proc_st = pr_st +
  procs :: "nat \<Rightarrow> proc"
  initproc :: "nat option"
  nextpid :: i32
  slocks :: "lockid \<Rightarrow> sleeplock"
  forkret_addr :: u64

definition upd_proc :: "nat \<Rightarrow> (proc \<Rightarrow> proc) \<Rightarrow> ('x proc_st_scheme, unit) kop" where
  "upd_proc p f = modify (\<lambda>s. s\<lparr>procs := (procs s)(p := f (procs s p))\<rparr>)"

definition get_proc :: "nat \<Rightarrow> ('x proc_st_scheme, proc) kop" where
  "get_proc p = gets (\<lambda>s. procs s p)"

section \<open>The running process\<close>

definition myproc :: "('x mach_scheme, nat option) kop" where
  "myproc = seq push_off (bnd (gets mycpu) (\<lambda>c. seq pop_off (ret (c_proc c))))"

text \<open>
  Code that uses \<^verbatim>\<open>myproc()\<close> without testing it: a null pointer would fault in the kernel,
  where \<open>kerneltrap\<close> panics.
\<close>

definition curproc :: "('x mach_scheme, nat) kop" where
  "curproc = bnd myproc (\<lambda>p. case p of None \<Rightarrow> panic ''kerneltrap'' | Some i \<Rightarrow> ret i)"

definition allocpid :: "('x proc_st_scheme, i32) kop" where
  "allocpid =
     seq (acquire L_pid)
     (bnd (gets nextpid) (\<lambda>pid.
     seq (modify (\<lambda>s. s\<lparr>nextpid := nextpid s + 1\<rparr>))
     (seq (release L_pid) (ret pid))))"

definition procinit :: "('x proc_st_scheme, unit) kop" where
  "procinit =
     stmts
      [initlock L_pid ''nextpid'',
       initlock L_wait ''wait_lock'',
       kfor [0..<NPROC] (\<lambda>p. stmts
        [initlock (L_proc p) ''proc'',
         upd_proc p (\<lambda>q. q\<lparr>p_state := UNUSED, p_kstack := KSTACK (of_nat p)\<rparr>)])]"

section \<open>Process slots and their page tables\<close>

definition proc_freepagetable :: "u64 \<Rightarrow> u64 \<Rightarrow> ('x kmem_st_scheme, unit) kop" where
  "proc_freepagetable pagetable sz =
     stmts
      [uvmunmap pagetable TRAMPOLINE 1 False,
       uvmunmap pagetable TRAPFRAME 1 False,
       uvmfree pagetable sz]"

definition proc_pagetable :: "nat \<Rightarrow> ('x proc_st_scheme, u64) kop" where
  "proc_pagetable p =
     bnd uvmcreate (\<lambda>pagetable.
     if pagetable = 0 then ret 0 else
     bnd (gets trampoline) (\<lambda>tr.
     bnd (mappages pagetable TRAMPOLINE PGSIZE tr (PTE_R OR PTE_X)) (\<lambda>r.
     if r < 0 then seq (uvmfree pagetable 0) (ret 0) else
     bnd (get_proc p) (\<lambda>q.
     bnd (mappages pagetable TRAPFRAME PGSIZE (p_trapframe q) (PTE_R OR PTE_W)) (\<lambda>r.
     if r < 0 then seq (uvmunmap pagetable TRAMPOLINE 1 False) (seq (uvmfree pagetable 0) (ret 0))
     else ret pagetable)))))"

definition freeproc :: "nat \<Rightarrow> ('x proc_st_scheme, unit) kop" where
  "freeproc p =
     stmts
      [bnd (get_proc p) (\<lambda>q. kwhen (p_trapframe q \<noteq> 0) (kfree (p_trapframe q))),
       upd_proc p (\<lambda>q. q\<lparr>p_trapframe := 0\<rparr>),
       bnd (get_proc p) (\<lambda>q. kwhen (p_pagetable q \<noteq> 0)
         (proc_freepagetable (p_pagetable q) (p_sz q))),
       upd_proc p (\<lambda>q. q\<lparr>p_pagetable := 0, p_sz := 0, p_pid := 0, p_parent := None,
         p_name := (p_name q)(0 := 0), p_chan := None, p_killed := False, p_xstate := 0,
         p_trace_mask := 0, p_state := UNUSED\<rparr>)]"

text \<open>Returns the slot with its lock held, or \<open>None\<close>.\<close>

definition allocproc :: "('x proc_st_scheme, nat option) kop" where
  "allocproc =
     bnd (kfind [0..<NPROC] (\<lambda>p.
       seq (acquire (L_proc p))
       (bnd (get_proc p) (\<lambda>q.
       if p_state q = UNUSED then ret (Some p)
       else seq (release (L_proc p)) (ret None))))) (\<lambda>found.
     case found of None \<Rightarrow> ret None | Some p \<Rightarrow>
     bnd allocpid (\<lambda>pid.
     seq (upd_proc p (\<lambda>q. q\<lparr>p_pid := pid, p_state := USED\<rparr>))
     (bnd kalloc (\<lambda>tf.
     seq (upd_proc p (\<lambda>q. q\<lparr>p_trapframe := tf\<rparr>))
     (if tf = 0 then seq (freeproc p) (seq (release (L_proc p)) (ret None)) else
     bnd (proc_pagetable p) (\<lambda>pt.
     seq (upd_proc p (\<lambda>q. q\<lparr>p_pagetable := pt\<rparr>))
     (if pt = 0 then seq (freeproc p) (seq (release (L_proc p)) (ret None)) else
     bnd (gets forkret_addr) (\<lambda>forkret.
     seq (upd_proc p (\<lambda>q. q\<lparr>p_context := zero_context
        \<lparr>ctx_ra := forkret, ctx_sp := p_kstack q + PGSIZE\<rparr>\<rparr>))
     (ret (Some p))))))))))"

definition growproc :: "i32 \<Rightarrow> ('x proc_st_scheme, int) kop" where
  "growproc n =
     bnd curproc (\<lambda>p.
     bnd (get_proc p) (\<lambda>q.
     let sz = p_sz q in
     if sint n > 0 then
       bnd (uvmalloc (p_pagetable q) sz (sz + scast n) PTE_W) (\<lambda>sz'.
       if sz' = 0 then ret (-1)
       else seq (upd_proc p (\<lambda>q. q\<lparr>p_sz := sz'\<rparr>)) (ret 0))
     else if sint n < 0 then
       bnd (uvmdealloc (p_pagetable q) sz (sz + scast n)) (\<lambda>sz'.
       seq (upd_proc p (\<lambda>q. q\<lparr>p_sz := sz'\<rparr>)) (ret 0))
     else seq (upd_proc p (\<lambda>q. q\<lparr>p_sz := sz\<rparr>)) (ret 0)))"

section \<open>Switching, sleeping and waking\<close>

text \<open>
  \<open>sched\<close> up to its call of \<open>swtch\<close>. When the thread runs again it restores
  \<open>intena\<close>: \<open>sched_resume\<close>.
\<close>

definition sched :: "('x proc_st_scheme, 'a) kop" where
  "sched =
     bnd curproc (\<lambda>p.
     bnd (holding (L_proc p)) (\<lambda>h.
     if \<not> h then panic ''sched p->lock'' else
     bnd (gets mycpu) (\<lambda>c.
     if noff c \<noteq> 1 then panic ''sched locks'' else
     bnd (get_proc p) (\<lambda>q.
     if p_state q = RUNNING then panic ''sched running'' else
     bnd intr_get (\<lambda>i.
     if i then panic ''sched interruptible'' else
     (\<lambda>s. Swtch s))))))"

definition sched_resume :: "bool \<Rightarrow> ('x proc_st_scheme, unit) kop" where
  "sched_resume ena = modify (upd_cpu (\<lambda>c. c\<lparr>intena := ena\<rparr>))"

definition yield :: "('x proc_st_scheme, unit) kop" where
  "yield =
     bnd curproc (\<lambda>p.
     seq (acquire (L_proc p))
     (seq (upd_proc p (\<lambda>q. q\<lparr>p_state := RUNNABLE\<rparr>))
     sched))"

definition yield_resume :: "nat \<Rightarrow> bool \<Rightarrow> ('x proc_st_scheme, unit) kop" where
  "yield_resume p ena = seq (sched_resume ena) (release (L_proc p))"

text \<open>\<open>sleep\<close> up to the switch, and what it does once the thread runs again.\<close>

definition sleep :: "chan \<Rightarrow> lockid \<Rightarrow> ('x proc_st_scheme, 'a) kop" where
  "sleep chan lk =
     bnd curproc (\<lambda>p.
     seq (acquire (L_proc p))
     (seq (release lk)
     (seq (upd_proc p (\<lambda>q. q\<lparr>p_chan := Some chan, p_state := SLEEPING\<rparr>))
     sched)))"

definition sleep_resume :: "nat \<Rightarrow> lockid \<Rightarrow> bool \<Rightarrow> ('x proc_st_scheme, unit) kop" where
  "sleep_resume p lk ena =
     stmts
      [sched_resume ena,
       upd_proc p (\<lambda>q. q\<lparr>p_chan := None\<rparr>),
       release (L_proc p),
       acquire lk]"

text \<open>\<open>wakeup\<close> takes a channel pointer, which \<open>exit\<close> and \<open>reparent\<close> may pass as null.\<close>

definition wakeup_one :: "chan option \<Rightarrow> nat \<Rightarrow> ('x proc_st_scheme, unit) kop" where
  "wakeup_one chan p =
     bnd myproc (\<lambda>me.
     kwhen (Some p \<noteq> me)
      (stmts
        [acquire (L_proc p),
         bnd (get_proc p) (\<lambda>q. kwhen (p_state q = SLEEPING \<and> p_chan q = chan)
           (upd_proc p (\<lambda>q. q\<lparr>p_state := RUNNABLE\<rparr>))),
         release (L_proc p)]))"

definition wakeup_ptr :: "chan option \<Rightarrow> ('x proc_st_scheme, unit) kop" where
  "wakeup_ptr chan = kfor [0..<NPROC] (wakeup_one chan)"

abbreviation wakeup :: "chan \<Rightarrow> ('x proc_st_scheme, unit) kop" where
  "wakeup chan \<equiv> wakeup_ptr (Some chan)"

text \<open>
  One iteration of the scheduler's inner loop for slot \<open>p\<close>, up to \<open>swtch\<close> if the process
  is chosen, and the rest of the iteration after the process has switched back.
\<close>

definition scheduler_try :: "nat \<Rightarrow> ('x proc_st_scheme, unit) kop" where
  "scheduler_try p =
     seq (acquire (L_proc p))
     (bnd (get_proc p) (\<lambda>q.
     if p_state q = RUNNABLE then
       seq (upd_proc p (\<lambda>q. q\<lparr>p_state := RUNNING\<rparr>))
       (seq (modify (upd_cpu (\<lambda>c. c\<lparr>c_proc := Some p\<rparr>)))
       (\<lambda>s. Swtch s))
     else release (L_proc p)))"

definition scheduler_back :: "nat \<Rightarrow> ('x proc_st_scheme, unit) kop" where
  "scheduler_back p =
     seq (modify (upd_cpu (\<lambda>c. c\<lparr>c_proc := None\<rparr>))) (release (L_proc p))"

section \<open>Killing, waiting\<close>

definition kill :: "i32 \<Rightarrow> ('x proc_st_scheme, int) kop" where
  "kill pid =
     bnd (kfind [0..<NPROC] (\<lambda>p.
       seq (acquire (L_proc p))
       (bnd (get_proc p) (\<lambda>q.
       if p_pid q = pid then
         seq (upd_proc p (\<lambda>q. q\<lparr>p_killed := True\<rparr>))
         (seq (kwhen (p_state q = SLEEPING) (upd_proc p (\<lambda>q. q\<lparr>p_state := RUNNABLE\<rparr>)))
         (seq (release (L_proc p)) (ret (Some 0))))
       else seq (release (L_proc p)) (ret None))))) (\<lambda>r.
     ret (case r of None \<Rightarrow> -1 | Some v \<Rightarrow> v))"

definition setkilled :: "nat \<Rightarrow> ('x proc_st_scheme, unit) kop" where
  "setkilled p =
     stmts [acquire (L_proc p), upd_proc p (\<lambda>q. q\<lparr>p_killed := True\<rparr>), release (L_proc p)]"

definition killed :: "nat \<Rightarrow> ('x proc_st_scheme, bool) kop" where
  "killed p =
     seq (acquire (L_proc p))
     (bnd (get_proc p) (\<lambda>q. seq (release (L_proc p)) (ret (p_killed q))))"

definition reparent :: "nat \<Rightarrow> ('x proc_st_scheme, unit) kop" where
  "reparent p =
     kfor [0..<NPROC] (\<lambda>pp.
       bnd (get_proc pp) (\<lambda>q.
       kwhen (p_parent q = Some p)
         (bnd (gets initproc) (\<lambda>ip.
         seq (upd_proc pp (\<lambda>q. q\<lparr>p_parent := ip\<rparr>))
         (wakeup_ptr (map_option Ch_proc ip))))))"

text \<open>The four bytes of an \<^verbatim>\<open>int\<close> in memory.\<close>

definition bytes32 :: "i32 \<Rightarrow> bytes" where
  "bytes32 v = st32 (\<lambda>_. 0) 0 v"

text \<open>
  One scan of the process table by \<open>wait\<close>: \<open>Inl pid\<close> if the call returns, else whether
  a child was seen. The scan runs under \<open>wait_lock\<close>, so the parent fields it reads are those
  at its start.
\<close>

definition wait_scan :: "nat \<Rightarrow> u64 \<Rightarrow> ('x proc_st_scheme, i32 + bool) kop" where
  "wait_scan p addr =
     bnd (gets (\<lambda>s. \<exists>pp\<in>set [0..<NPROC]. p_parent (procs s pp) = Some p)) (\<lambda>havekids.
     bnd (kfind [0..<NPROC] (\<lambda>pp.
       bnd (get_proc pp) (\<lambda>q0.
       if p_parent q0 \<noteq> Some p then ret None else
       seq (acquire (L_proc pp))
       (bnd (get_proc pp) (\<lambda>q.
       if p_state q = ZOMBIE then
         bnd (get_proc p) (\<lambda>me.
         bnd (if addr \<noteq> 0 then copyout (p_pagetable me) addr (bytes32 (p_xstate q)) 4 else ret 0) (\<lambda>r.
         if r < 0 then
           seq (release (L_proc pp)) (seq (release L_wait) (ret (Some (-1))))
         else
           seq (stmts [freeproc pp, release (L_proc pp), release L_wait]) (ret (Some (p_pid q)))))
       else seq (release (L_proc pp)) (ret None)))))) (\<lambda>r.
     ret (case r of Some v \<Rightarrow> Inl v | None \<Rightarrow> Inr havekids)))"

definition wait_loop :: "nat \<Rightarrow> u64 \<Rightarrow> ('x proc_st_scheme, i32) kop" where
  "wait_loop p addr =
     bnd (wait_scan p addr) (\<lambda>r. case r of
       Inl v \<Rightarrow> ret v
     | Inr havekids \<Rightarrow>
         bnd (if \<not> havekids then ret True else killed p) (\<lambda>stop.
         if stop then seq (release L_wait) (ret (-1))
         else sleep (Ch_proc p) L_wait))"

definition wait :: "u64 \<Rightarrow> ('x proc_st_scheme, i32) kop" where
  "wait addr = bnd curproc (\<lambda>p. seq (acquire L_wait) (wait_loop p addr))"

section \<open>Copying to or from either address space\<close>

text \<open>
  The destination of \<open>either_copyout\<close> and the source of \<open>either_copyin\<close>: a user virtual
  address, or a kernel address, which is physical memory or a kernel object such as a local
  variable; an object is passed by value and the updated object is returned.
  The offset \<open>k\<close> is what the callers' loops have already copied.
\<close>

datatype kaddr = U_addr u64 | K_addr u64 | K_obj bytes

definition either_copyout ::
    "kaddr \<Rightarrow> nat \<Rightarrow> bytes \<Rightarrow> nat \<Rightarrow> ('x proc_st_scheme, int \<times> kaddr) kop" where
  "either_copyout dst k src len =
     bnd curproc (\<lambda>p.
     case dst of
       U_addr a \<Rightarrow>
         bnd (get_proc p) (\<lambda>q.
         bnd (copyout (p_pagetable q) (a + of_nat k) src (of_nat len)) (\<lambda>r. ret (r, dst)))
     | K_addr a \<Rightarrow> seq (put_bytes (a + of_nat k) src len) (ret (0, dst))
     | K_obj b \<Rightarrow> ret (0, K_obj (\<lambda>i. if k \<le> i \<and> i < k + len then src (i - k) else b i)))"

definition either_copyin ::
    "bytes \<Rightarrow> kaddr \<Rightarrow> nat \<Rightarrow> nat \<Rightarrow> ('x proc_st_scheme, int \<times> bytes) kop" where
  "either_copyin dst src k len =
     bnd curproc (\<lambda>p.
     case src of
       U_addr a \<Rightarrow>
         bnd (get_proc p) (\<lambda>q.
         copyin (p_pagetable q) dst (a + of_nat k) (of_nat len))
     | K_addr a \<Rightarrow>
         bnd (get_bytes dst 0 (a + of_nat k) len) (\<lambda>b. ret (0, b))
     | K_obj b \<Rightarrow> ret (0, \<lambda>i. if i < len then b (k + i) else dst i))"

section \<open>Process listing\<close>

text \<open>A process name as a string: the characters before the NUL.\<close>

definition name_string :: "bytes \<Rightarrow> string" where
  "name_string nm = map (\<lambda>b. char_of (unat b)) (takeWhile (\<lambda>b. b \<noteq> 0) (map nm [0..<16]))"

fun state_name :: "procstate \<Rightarrow> string" where
  "state_name UNUSED = ''unused''"
| "state_name USED = ''used''"
| "state_name SLEEPING = ''sleep ''"
| "state_name RUNNABLE = ''runble''"
| "state_name RUNNING = ''run   ''"
| "state_name ZOMBIE = ''zombie''"

definition procdump :: "('x proc_st_scheme, unit) kop" where
  "procdump =
     stmts
      [printf newline [],
       kfor [0..<NPROC] (\<lambda>p.
         bnd (get_proc p) (\<lambda>q.
         kwhen (p_state q \<noteq> UNUSED)
          (stmts
            [printf ''%d %s %s'' [A_int (p_pid q), A_str (Some (state_name (p_state q))),
               A_str (Some (name_string (p_name q)))],
             printf newline []])))]"

section \<open>Sleep locks\<close>

definition initsleeplock :: "lockid \<Rightarrow> string \<Rightarrow> ('x proc_st_scheme, unit) kop" where
  "initsleeplock lk name =
     stmts
      [initlock lk ''sleep lock'',
       modify (\<lambda>s. s\<lparr>slocks := (slocks s)(lk := \<lparr>sl_locked = False, sl_name = name, sl_pid = 0\<rparr>)\<rparr>)]"

text \<open>The loop \<^verbatim>\<open>while(lk->locked) sleep(lk, &lk->lk)\<close> and the rest; also where a woken thread continues.\<close>

definition acquiresleep_loop :: "lockid \<Rightarrow> ('x proc_st_scheme, unit) kop" where
  "acquiresleep_loop lk =
     bnd (gets (\<lambda>s. sl_locked (slocks s lk))) (\<lambda>b.
     if b then sleep (Ch_sleeplock lk) lk else
     bnd curproc (\<lambda>p.
     bnd (get_proc p) (\<lambda>q.
     seq (modify (\<lambda>s. s\<lparr>slocks := (slocks s)(lk := (slocks s lk)\<lparr>sl_locked := True, sl_pid := p_pid q\<rparr>)\<rparr>))
     (release lk))))"

definition acquiresleep :: "lockid \<Rightarrow> ('x proc_st_scheme, unit) kop" where
  "acquiresleep lk = seq (acquire lk) (acquiresleep_loop lk)"

definition releasesleep :: "lockid \<Rightarrow> ('x proc_st_scheme, unit) kop" where
  "releasesleep lk =
     stmts
      [acquire lk,
       modify (\<lambda>s. s\<lparr>slocks := (slocks s)(lk := (slocks s lk)\<lparr>sl_locked := False, sl_pid := 0\<rparr>)\<rparr>),
       wakeup (Ch_sleeplock lk),
       release lk]"

definition holdingsleep :: "lockid \<Rightarrow> ('x proc_st_scheme, bool) kop" where
  "holdingsleep lk =
     seq (acquire lk)
     (bnd (gets (\<lambda>s. slocks s lk)) (\<lambda>sl.
     bnd (if sl_locked sl then bnd curproc (\<lambda>p. bnd (get_proc p) (\<lambda>q. ret (sl_pid sl = p_pid q)))
          else ret False) (\<lambda>r.
     seq (release lk) (ret r))))"

end
