(* ===== verification/Bio.thy ===== *)
theory Bio
  imports Proc
begin

text \<open>
  The buffer cache of \<^verbatim>\<open>kernel/bio.c\<close>: \<open>NBUF\<close> buffers on a doubly linked ring in
  most-recently-used order, each with a reference count and a sleep lock. The disk is a map
  from block numbers to blocks; \<open>disk_rw\<close> is the effect of a completed \<open>virtio_disk_rw\<close>,
  and the list of writes the disk has completed, in order, is kept for crash reasoning.
\<close>

section \<open>State\<close>

abbreviation NBUF :: "'a::numeral" where "NBUF \<equiv> 30"
abbreviation BSIZE :: "'a::numeral" where "BSIZE \<equiv> 1024"

record buf =
  b_valid :: bool
  b_disk :: bool
  b_dev :: u32
  b_blockno :: u32
  b_refcnt :: u32
  b_prev :: nat
  b_next :: nat
  b_data :: bytes

text \<open>Buffers are numbered \<open>0..<NBUF\<close>; the list head \<^verbatim>\<open>bcache.head\<close> has the number \<open>NBUF\<close>.\<close>

abbreviation bhead :: nat where "bhead \<equiv> NBUF"

record bio_st = proc_st +
  bufs :: "nat \<Rightarrow> buf"
  disk :: "u32 \<Rightarrow> bytes"
  dwrites :: "(u32 \<times> bytes) list"

definition upd_buf :: "nat \<Rightarrow> (buf \<Rightarrow> buf) \<Rightarrow> ('x bio_st_scheme, unit) kop" where
  "upd_buf b f = modify (\<lambda>s. s\<lparr>bufs := (bufs s)(b := f (bufs s b))\<rparr>)"

definition get_buf :: "nat \<Rightarrow> ('x bio_st_scheme, buf) kop" where
  "get_buf b = gets (\<lambda>s. bufs s b)"

definition disk_rw :: "nat \<Rightarrow> bool \<Rightarrow> ('x bio_st_scheme, unit) kop" where
  "disk_rw b wr =
     bnd (get_buf b) (\<lambda>bf.
     if wr then modify (\<lambda>s. s\<lparr>disk := (disk s)(b_blockno bf := b_data bf),
                              dwrites := dwrites s @ [(b_blockno bf, b_data bf)]\<rparr>)
     else bnd (gets disk) (\<lambda>d. upd_buf b (\<lambda>bf. bf\<lparr>b_data := d (b_blockno bf)\<rparr>)))"

section \<open>Operations\<close>

definition binit :: "('x bio_st_scheme, unit) kop" where
  "binit =
     stmts
      [initlock L_bcache ''bcache'',
       upd_buf bhead (\<lambda>h. h\<lparr>b_prev := bhead\<rparr>),
       upd_buf bhead (\<lambda>h. h\<lparr>b_next := bhead\<rparr>),
       kfor [0..<NBUF] (\<lambda>b.
         bnd (get_buf bhead) (\<lambda>h. stmts
          [upd_buf b (\<lambda>x. x\<lparr>b_next := b_next h\<rparr>),
           upd_buf b (\<lambda>x. x\<lparr>b_prev := bhead\<rparr>),
           initsleeplock (L_buf b) ''buffer'',
           upd_buf (b_next h) (\<lambda>x. x\<lparr>b_prev := b\<rparr>),
           upd_buf bhead (\<lambda>x. x\<lparr>b_next := b\<rparr>)]))]"

text \<open>
  The two searches of \<open>bget\<close>, along \<open>next\<close> for the block and along \<open>prev\<close> for a free
  buffer. The ring has \<open>NBUF\<close> buffers, so \<open>NBUF + 1\<close> iterations reach the head again.
\<close>

definition bget_cached :: "u32 \<Rightarrow> u32 \<Rightarrow> ('x bio_st_scheme, nat option) kop" where
  "bget_cached dev blockno =
     bnd (get_buf bhead) (\<lambda>h.
     kiter (NBUF + 1) (\<lambda>b.
       if b = bhead then ret (Inr None) else
       bnd (get_buf b) (\<lambda>x.
       if b_dev x = dev \<and> b_blockno x = blockno then
         seq (upd_buf b (\<lambda>x. x\<lparr>b_refcnt := b_refcnt x + 1\<rparr>)) (ret (Inr (Some b)))
       else ret (Inl (b_next x)))) (b_next h))"

definition bget_recycle :: "u32 \<Rightarrow> u32 \<Rightarrow> ('x bio_st_scheme, nat option) kop" where
  "bget_recycle dev blockno =
     bnd (get_buf bhead) (\<lambda>h.
     kiter (NBUF + 1) (\<lambda>b.
       if b = bhead then ret (Inr None) else
       bnd (get_buf b) (\<lambda>x.
       if b_refcnt x = 0 then
         seq (upd_buf b (\<lambda>x. x\<lparr>b_dev := dev, b_blockno := blockno, b_valid := False,
               b_refcnt := 1\<rparr>)) (ret (Inr (Some b)))
       else ret (Inl (b_prev x)))) (b_prev h))"

definition bget :: "u32 \<Rightarrow> u32 \<Rightarrow> ('x bio_st_scheme, nat) kop" where
  "bget dev blockno =
     seq (acquire L_bcache)
     (bnd (bget_cached dev blockno) (\<lambda>r. case r of
       Some b \<Rightarrow> seq (release L_bcache) (seq (acquiresleep (L_buf b)) (ret b))
     | None \<Rightarrow>
         bnd (bget_recycle dev blockno) (\<lambda>r. case r of
           Some b \<Rightarrow> seq (release L_bcache) (seq (acquiresleep (L_buf b)) (ret b))
         | None \<Rightarrow> panic ''bget: no buffers'')))"

definition bread :: "u32 \<Rightarrow> u32 \<Rightarrow> ('x bio_st_scheme, nat) kop" where
  "bread dev blockno =
     bnd (bget dev blockno) (\<lambda>b.
     bnd (get_buf b) (\<lambda>x.
     seq (kwhen (\<not> b_valid x)
           (stmts [disk_rw b False, upd_buf b (\<lambda>x. x\<lparr>b_valid := True\<rparr>)]))
     (ret b)))"

definition bwrite :: "nat \<Rightarrow> ('x bio_st_scheme, unit) kop" where
  "bwrite b =
     bnd (holdingsleep (L_buf b)) (\<lambda>h.
     if \<not> h then panic ''bwrite'' else disk_rw b True)"

text \<open>\<open>brelse\<close> moves a buffer nobody uses any more to the front of the ring.\<close>

definition move_front :: "nat \<Rightarrow> ('x bio_st_scheme, unit) kop" where
  "move_front b =
     stmts
      [bnd (get_buf b) (\<lambda>x. upd_buf (b_next x) (\<lambda>y. y\<lparr>b_prev := b_prev x\<rparr>)),
       bnd (get_buf b) (\<lambda>x. upd_buf (b_prev x) (\<lambda>y. y\<lparr>b_next := b_next x\<rparr>)),
       bnd (get_buf bhead) (\<lambda>h. upd_buf b (\<lambda>x. x\<lparr>b_next := b_next h\<rparr>)),
       upd_buf b (\<lambda>x. x\<lparr>b_prev := bhead\<rparr>),
       bnd (get_buf bhead) (\<lambda>h. upd_buf (b_next h) (\<lambda>y. y\<lparr>b_prev := b\<rparr>)),
       upd_buf bhead (\<lambda>h. h\<lparr>b_next := b\<rparr>)]"

definition brelse :: "nat \<Rightarrow> ('x bio_st_scheme, unit) kop" where
  "brelse b =
     bnd (holdingsleep (L_buf b)) (\<lambda>h.
     if \<not> h then panic ''brelse'' else
     stmts
      [releasesleep (L_buf b),
       acquire L_bcache,
       upd_buf b (\<lambda>x. x\<lparr>b_refcnt := b_refcnt x - 1\<rparr>),
       bnd (get_buf b) (\<lambda>x. kwhen (b_refcnt x = 0) (move_front b)),
       release L_bcache])"

definition bpin :: "nat \<Rightarrow> ('x bio_st_scheme, unit) kop" where
  "bpin b =
     stmts
      [acquire L_bcache,
       upd_buf b (\<lambda>x. x\<lparr>b_refcnt := b_refcnt x + 1\<rparr>),
       release L_bcache]"

definition bunpin :: "nat \<Rightarrow> ('x bio_st_scheme, unit) kop" where
  "bunpin b =
     stmts
      [acquire L_bcache,
       upd_buf b (\<lambda>x. x\<lparr>b_refcnt := b_refcnt x - 1\<rparr>),
       release L_bcache]"

end
