(* ===== verification/Log.thy ===== *)
theory Log
  imports Bio
begin

text \<open>
  The write-ahead log of \<^verbatim>\<open>kernel/log.c\<close>: transactions (\<open>begin_op\<close>, \<open>log_write\<close>,
  \<open>end_op\<close>), group commit, and recovery from the on-disk log.
\<close>

section \<open>State\<close>

abbreviation MAXOPBLOCKS :: "'a::numeral" where "MAXOPBLOCKS \<equiv> 10"
abbreviation LOGSIZE :: "'a::numeral" where "LOGSIZE \<equiv> 30"

text \<open>\<^verbatim>\<open>struct superblock\<close> of \<^verbatim>\<open>kernel/fs.h\<close>.\<close>

record superblock =
  sb_magic :: u32
  sb_size :: u32
  sb_nblocks :: u32
  sb_ninodes :: u32
  sb_nlog :: u32
  sb_logstart :: u32
  sb_inodestart :: u32
  sb_bmapstart :: u32

record logheader =
  lh_n :: int
  lh_block :: "nat \<Rightarrow> u32"

record log =
  l_start :: u32
  l_size :: int
  l_outstanding :: int
  l_committing :: bool
  l_dev :: u32
  l_lh :: logheader

record log_st = bio_st +
  klog :: log

definition upd_log :: "(log \<Rightarrow> log) \<Rightarrow> ('x log_st_scheme, unit) kop" where
  "upd_log f = modify (\<lambda>s. s\<lparr>klog := f (klog s)\<rparr>)"

definition upd_lh :: "(logheader \<Rightarrow> logheader) \<Rightarrow> ('x log_st_scheme, unit) kop" where
  "upd_lh f = upd_log (\<lambda>l. l\<lparr>l_lh := f (l_lh l)\<rparr>)"

section \<open>Header and block transfer\<close>

text \<open>The in-place view of a header block: \<open>n\<close>, then the block numbers, 32 bits each.\<close>

definition hb_get :: "bytes \<Rightarrow> logheader" where
  "hb_get d = \<lparr>lh_n = sint (ld32 d 0), lh_block = (\<lambda>i. ld32 d (4 + 4 * i))\<rparr>"

fun hb_put_blocks :: "nat \<Rightarrow> (nat \<Rightarrow> u32) \<Rightarrow> bytes \<Rightarrow> bytes" where
  "hb_put_blocks 0 bs d = d"
| "hb_put_blocks (Suc i) bs d = st32 (hb_put_blocks i bs d) (4 + 4 * i) (bs i)"

definition hb_put :: "logheader \<Rightarrow> bytes \<Rightarrow> bytes" where
  "hb_put lh d = hb_put_blocks (nat (lh_n lh)) (lh_block lh) (st32 d 0 (of_int (lh_n lh)))"

definition install_trans :: "bool \<Rightarrow> ('x log_st_scheme, unit) kop" where
  "install_trans recovering =
     bnd (gets klog) (\<lambda>l.
     kfor [0..<nat (lh_n (l_lh l))] (\<lambda>tail.
       bnd (bread (l_dev l) (l_start l + of_nat tail + 1)) (\<lambda>lbuf.
       bnd (bread (l_dev l) (lh_block (l_lh l) tail)) (\<lambda>dbuf.
       stmts
        [bnd (get_buf lbuf) (\<lambda>lb. upd_buf dbuf (\<lambda>db. db\<lparr>b_data := b_data lb\<rparr>)),
         bwrite dbuf,
         kwhen (\<not> recovering) (bunpin dbuf),
         brelse lbuf,
         brelse dbuf]))))"

definition read_head :: "('x log_st_scheme, unit) kop" where
  "read_head =
     bnd (gets klog) (\<lambda>l.
     bnd (bread (l_dev l) (l_start l)) (\<lambda>b.
     bnd (get_buf b) (\<lambda>x.
     stmts
      [upd_lh (\<lambda>lh. lh\<lparr>lh_n := lh_n (hb_get (b_data x))\<rparr>),
       bnd (gets klog) (\<lambda>l.
       kfor [0..<nat (lh_n (l_lh l))] (\<lambda>i.
         upd_lh (\<lambda>lh. lh\<lparr>lh_block := (lh_block lh)(i := lh_block (hb_get (b_data x)) i)\<rparr>))),
       brelse b])))"

definition write_head :: "('x log_st_scheme, unit) kop" where
  "write_head =
     bnd (gets klog) (\<lambda>l.
     bnd (bread (l_dev l) (l_start l)) (\<lambda>b.
     stmts
      [upd_buf b (\<lambda>x. x\<lparr>b_data := hb_put (l_lh l) (b_data x)\<rparr>),
       bwrite b,
       brelse b]))"

definition recover_from_log :: "('x log_st_scheme, unit) kop" where
  "recover_from_log =
     stmts
      [read_head,
       install_trans True,
       upd_lh (\<lambda>lh. lh\<lparr>lh_n := 0\<rparr>),
       write_head]"

text \<open>\<^verbatim>\<open>sizeof(struct logheader)\<close> is 4 + 4 * LOGSIZE.\<close>

definition initlog :: "u32 \<Rightarrow> superblock \<Rightarrow> ('x log_st_scheme, unit) kop" where
  "initlog dev sb =
     (if 4 + 4 * LOGSIZE \<ge> (BSIZE :: nat) then panic ''initlog: too big logheader'' else
      stmts
       [initlock L_log ''log'',
        upd_log (\<lambda>l. l\<lparr>l_start := sb_logstart sb, l_size := sint (sb_nlog sb), l_dev := dev\<rparr>),
        recover_from_log])"

definition write_log :: "('x log_st_scheme, unit) kop" where
  "write_log =
     bnd (gets klog) (\<lambda>l.
     kfor [0..<nat (lh_n (l_lh l))] (\<lambda>tail.
       bnd (bread (l_dev l) (l_start l + of_nat tail + 1)) (\<lambda>to.
       bnd (bread (l_dev l) (lh_block (l_lh l) tail)) (\<lambda>from.
       stmts
        [bnd (get_buf from) (\<lambda>fb. upd_buf to (\<lambda>tb. tb\<lparr>b_data := b_data fb\<rparr>)),
         bwrite to,
         brelse from,
         brelse to]))))"

definition commit :: "('x log_st_scheme, unit) kop" where
  "commit =
     bnd (gets klog) (\<lambda>l.
     kwhen (lh_n (l_lh l) > 0)
      (stmts
        [write_log,
         write_head,
         install_trans False,
         upd_lh (\<lambda>lh. lh\<lparr>lh_n := 0\<rparr>),
         write_head]))"

section \<open>Transactions\<close>

text \<open>The loop of \<open>begin_op\<close>, entered with the log lock held; a woken thread continues here.\<close>

definition begin_op_loop :: "('x log_st_scheme, unit) kop" where
  "begin_op_loop =
     bnd (gets klog) (\<lambda>l.
     if l_committing l then sleep Ch_log L_log
     else if lh_n (l_lh l) + (l_outstanding l + 1) * MAXOPBLOCKS > LOGSIZE then sleep Ch_log L_log
     else
       seq (upd_log (\<lambda>l. l\<lparr>l_outstanding := l_outstanding l + 1\<rparr>)) (release L_log))"

definition begin_op :: "('x log_st_scheme, unit) kop" where
  "begin_op = seq (acquire L_log) begin_op_loop"

definition end_op :: "('x log_st_scheme, unit) kop" where
  "end_op =
     seq (acquire L_log)
     (seq (upd_log (\<lambda>l. l\<lparr>l_outstanding := l_outstanding l - 1\<rparr>))
     (bnd (gets klog) (\<lambda>l.
     if l_committing l then panic ''log.committing'' else
     let do_commit = (l_outstanding l = 0) in
     stmts
      [if do_commit then upd_log (\<lambda>l. l\<lparr>l_committing := True\<rparr>) else wakeup Ch_log,
       release L_log,
       kwhen do_commit
        (stmts
          [commit,
           acquire L_log,
           upd_log (\<lambda>l. l\<lparr>l_committing := False\<rparr>),
           wakeup Ch_log,
           release L_log])])))"

text \<open>The index at which \<open>log_write\<close> records block \<open>bno\<close>: its slot if already logged, else \<open>n\<close>.\<close>

fun absorb_idx :: "nat \<Rightarrow> nat \<Rightarrow> (nat \<Rightarrow> u32) \<Rightarrow> u32 \<Rightarrow> nat" where
  "absorb_idx 0 i bs bno = i"
| "absorb_idx (Suc k) i bs bno = (if bs i = bno then i else absorb_idx k (Suc i) bs bno)"

definition log_write :: "nat \<Rightarrow> ('x log_st_scheme, unit) kop" where
  "log_write b =
     seq (acquire L_log)
     (bnd (gets klog) (\<lambda>l.
     if lh_n (l_lh l) \<ge> LOGSIZE \<or> lh_n (l_lh l) \<ge> l_size l - 1 then panic ''too big a transaction''
     else if l_outstanding l < 1 then panic ''log_write outside of trans''
     else
       bnd (get_buf b) (\<lambda>x.
       let i = absorb_idx (nat (lh_n (l_lh l))) 0 (lh_block (l_lh l)) (b_blockno x) in
       stmts
        [upd_lh (\<lambda>lh. lh\<lparr>lh_block := (lh_block lh)(i := b_blockno x)\<rparr>),
         kwhen (int i = lh_n (l_lh l))
          (stmts [bpin b, upd_lh (\<lambda>lh. lh\<lparr>lh_n := lh_n lh + 1\<rparr>)]),
         release L_log])))"

end
