(* ===== verification/Fs.thy ===== *)
theory Fs
  imports Log
begin

text \<open>
  The file system of \<^verbatim>\<open>kernel/fs.c\<close> and its on-disk format \<^verbatim>\<open>kernel/fs.h\<close>: the block bitmap,
  on-disk and in-memory inodes, inode contents, directories and path lookup.
\<close>

section \<open>Format\<close>

abbreviation NINODE :: "'a::numeral" where "NINODE \<equiv> 50"
abbreviation ROOTDEV :: "'a::{numeral}" where "ROOTDEV \<equiv> 1"
abbreviation ROOTINO :: "'a::{numeral}" where "ROOTINO \<equiv> 1"
abbreviation FSMAGIC :: u32 where "FSMAGIC \<equiv> 0x10203040"
abbreviation NDIRECT :: "'a::numeral" where "NDIRECT \<equiv> 12"
abbreviation NINDIRECT :: "'a::numeral" where "NINDIRECT \<equiv> 256"
abbreviation MAXFILE :: "'a::numeral" where "MAXFILE \<equiv> 268"
abbreviation IPB :: "'a::numeral" where "IPB \<equiv> 16"
abbreviation BPB :: "'a::numeral" where "BPB \<equiv> 8192"
abbreviation DIRSIZ :: "'a::numeral" where "DIRSIZ \<equiv> 14"
abbreviation T_DIR :: i16 where "T_DIR \<equiv> 1"
abbreviation T_FILE :: i16 where "T_FILE \<equiv> 2"
abbreviation T_DEVICE :: i16 where "T_DEVICE \<equiv> 3"

definition IBLOCK :: "u32 \<Rightarrow> superblock \<Rightarrow> u32" where
  "IBLOCK i sb = i div IPB + sb_inodestart sb"

definition BBLOCK :: "u32 \<Rightarrow> superblock \<Rightarrow> u32" where
  "BBLOCK b sb = b div BPB + sb_bmapstart sb"

record dinode =
  d_type :: i16
  d_major :: i16
  d_minor :: i16
  d_nlink :: i16
  d_size :: u32
  d_addrs :: "nat \<Rightarrow> u32"

text \<open>A \<^verbatim>\<open>struct dinode\<close> is 64 bytes: four shorts, the size and 13 block addresses.\<close>

definition dinode_get :: "bytes \<Rightarrow> nat \<Rightarrow> dinode" where
  "dinode_get d pos = \<lparr>d_type = ld16 d pos, d_major = ld16 d (pos + 2), d_minor = ld16 d (pos + 4),
     d_nlink = ld16 d (pos + 6), d_size = ld32 d (pos + 8), d_addrs = (\<lambda>i. ld32 d (pos + 12 + 4 * i))\<rparr>"

fun addrs_put :: "nat \<Rightarrow> bytes \<Rightarrow> nat \<Rightarrow> (nat \<Rightarrow> u32) \<Rightarrow> bytes" where
  "addrs_put 0 d pos a = d"
| "addrs_put (Suc i) d pos a = st32 (addrs_put i d pos a) (pos + 4 * i) (a i)"

definition dinode_put :: "bytes \<Rightarrow> nat \<Rightarrow> dinode \<Rightarrow> bytes" where
  "dinode_put d pos di =
     addrs_put (NDIRECT + 1)
      (st32 (st16 (st16 (st16 (st16 d pos (d_type di)) (pos + 2) (d_major di)) (pos + 4) (d_minor di))
        (pos + 6) (d_nlink di)) (pos + 8) (d_size di))
      (pos + 12) (d_addrs di)"

definition dinode_off :: "u32 \<Rightarrow> nat" where
  "dinode_off inum = unat (inum mod IPB) * 64"

definition sb_get :: "bytes \<Rightarrow> superblock" where
  "sb_get d = \<lparr>sb_magic = ld32 d 0, sb_size = ld32 d 4, sb_nblocks = ld32 d 8, sb_ninodes = ld32 d 12,
     sb_nlog = ld32 d 16, sb_logstart = ld32 d 20, sb_inodestart = ld32 d 24, sb_bmapstart = ld32 d 28\<rparr>"

section \<open>State\<close>

text \<open>\<^verbatim>\<open>struct inode\<close> of \<^verbatim>\<open>kernel/file.h\<close>; the sleep lock of table entry \<open>i\<close> is \<open>L_inode i\<close>.\<close>

record inode =
  i_dev :: u32
  i_inum :: u32
  i_ref :: int
  i_valid :: bool
  i_type :: i16
  i_major :: i16
  i_minor :: i16
  i_nlink :: i16
  i_size :: u32
  i_addrs :: "nat \<Rightarrow> u32"

record fs_st = log_st +
  sb :: superblock
  itable :: "nat \<Rightarrow> inode"

definition upd_inode :: "nat \<Rightarrow> (inode \<Rightarrow> inode) \<Rightarrow> ('x fs_st_scheme, unit) kop" where
  "upd_inode ip f = modify (\<lambda>s. s\<lparr>itable := (itable s)(ip := f (itable s ip))\<rparr>)"

definition get_inode :: "nat \<Rightarrow> ('x fs_st_scheme, inode) kop" where
  "get_inode ip = gets (\<lambda>s. itable s ip)"

section \<open>Blocks\<close>

definition readsb :: "u32 \<Rightarrow> ('x fs_st_scheme, superblock) kop" where
  "readsb dev =
     bnd (bread dev 1) (\<lambda>bp.
     bnd (get_buf bp) (\<lambda>x.
     seq (brelse bp) (ret (sb_get (b_data x)))))"

definition fsinit :: "u32 \<Rightarrow> ('x fs_st_scheme, unit) kop" where
  "fsinit dev =
     bnd (readsb dev) (\<lambda>sb'.
     seq (modify (\<lambda>s. s\<lparr>sb := sb'\<rparr>))
     (if sb_magic sb' \<noteq> FSMAGIC then panic ''invalid file system'' else initlog dev sb'))"

definition bzero :: "u32 \<Rightarrow> u32 \<Rightarrow> ('x fs_st_scheme, unit) kop" where
  "bzero dev bno =
     bnd (bread dev bno) (\<lambda>bp.
     stmts
      [upd_buf bp (\<lambda>x. x\<lparr>b_data := memset (b_data x) 0 0 BSIZE\<rparr>),
       log_write bp,
       brelse bp])"

definition bitmask :: "nat \<Rightarrow> u8" where
  "bitmask bi = push_bit (bi mod 8) 1"

definition balloc :: "u32 \<Rightarrow> ('x fs_st_scheme, u32) kop" where
  "balloc dev =
     bnd (gets sb) (\<lambda>sb.
     bnd (kfind [0..<(unat (sb_size sb) + BPB - 1) div BPB] (\<lambda>k.
       let b = k * BPB in
       bnd (bread dev (BBLOCK (of_nat b) sb)) (\<lambda>bp.
       bnd (kfind [0..<min BPB (unat (sb_size sb) - b)] (\<lambda>bi.
         bnd (get_buf bp) (\<lambda>x.
         let m = bitmask bi in
         if b_data x (bi div 8) AND m = 0 then
           seq (stmts
            [upd_buf bp (\<lambda>x. x\<lparr>b_data := (b_data x)(bi div 8 := b_data x (bi div 8) OR m)\<rparr>),
             log_write bp,
             brelse bp,
             bzero dev (of_nat (b + bi))])
           (ret (Some (of_nat (b + bi))))
         else ret None))) (\<lambda>r.
       case r of Some a \<Rightarrow> ret (Some a) | None \<Rightarrow> seq (brelse bp) (ret None))))) (\<lambda>r.
     case r of Some a \<Rightarrow> ret a
     | None \<Rightarrow> seq (printf (''balloc: out of blocks'' @ newline) []) (ret 0)))"

definition bfree :: "u32 \<Rightarrow> u32 \<Rightarrow> ('x fs_st_scheme, unit) kop" where
  "bfree dev b =
     bnd (gets sb) (\<lambda>sb.
     bnd (bread dev (BBLOCK b sb)) (\<lambda>bp.
     bnd (get_buf bp) (\<lambda>x.
     let bi = unat (b mod BPB); m = bitmask bi in
     if b_data x (bi div 8) AND m = 0 then panic ''freeing free block'' else
     stmts
      [upd_buf bp (\<lambda>x. x\<lparr>b_data := (b_data x)(bi div 8 := b_data x (bi div 8) AND NOT m)\<rparr>),
       log_write bp,
       brelse bp])))"

section \<open>Inodes\<close>

definition iinit :: "('x fs_st_scheme, unit) kop" where
  "iinit =
     stmts
      [initlock L_itable ''itable'',
       kfor [0..<NINODE] (\<lambda>i. initsleeplock (L_inode i) ''inode'')]"

text \<open>The scan of \<open>iget\<close>: the entry of the inode if it is in the table, else the first empty entry.\<close>

fun iget_scan :: "nat list \<Rightarrow> (nat \<Rightarrow> inode) \<Rightarrow> u32 \<Rightarrow> u32 \<Rightarrow> nat option \<Rightarrow> nat + nat option" where
  "iget_scan [] it dev inum emp = Inr emp"
| "iget_scan (ip # ips) it dev inum emp =
     (if i_ref (it ip) > 0 \<and> i_dev (it ip) = dev \<and> i_inum (it ip) = inum then Inl ip
      else iget_scan ips it dev inum
        (if emp = None \<and> i_ref (it ip) = 0 then Some ip else emp))"

definition iget :: "u32 \<Rightarrow> u32 \<Rightarrow> ('x fs_st_scheme, nat) kop" where
  "iget dev inum =
     seq (acquire L_itable)
     (bnd (gets itable) (\<lambda>it.
     case iget_scan [0..<NINODE] it dev inum None of
       Inl ip \<Rightarrow>
         seq (upd_inode ip (\<lambda>i. i\<lparr>i_ref := i_ref i + 1\<rparr>)) (seq (release L_itable) (ret ip))
     | Inr None \<Rightarrow> panic ''iget: no inodes''
     | Inr (Some ip) \<Rightarrow>
         seq (upd_inode ip (\<lambda>i. i\<lparr>i_dev := dev, i_inum := inum, i_ref := 1, i_valid := False\<rparr>))
         (seq (release L_itable) (ret ip))))"

definition ialloc :: "u32 \<Rightarrow> i16 \<Rightarrow> ('x fs_st_scheme, nat option) kop" where
  "ialloc dev type =
     bnd (gets sb) (\<lambda>sb.
     bnd (kfind [1..<unat (sb_ninodes sb)] (\<lambda>inum.
       bnd (bread dev (IBLOCK (of_nat inum) sb)) (\<lambda>bp.
       bnd (get_buf bp) (\<lambda>x.
       let pos = dinode_off (of_nat inum) in
       if ld16 (b_data x) pos = 0 then
         seq (stmts
          [upd_buf bp (\<lambda>x. x\<lparr>b_data := memset (b_data x) pos 0 64\<rparr>),
           upd_buf bp (\<lambda>x. x\<lparr>b_data := st16 (b_data x) pos type\<rparr>),
           log_write bp,
           brelse bp])
         (bnd (iget dev (of_nat inum)) (\<lambda>ip. ret (Some ip)))
       else seq (brelse bp) (ret None))))) (\<lambda>r.
     case r of Some ip \<Rightarrow> ret (Some ip)
     | None \<Rightarrow> seq (printf (''ialloc: no inodes'' @ newline) []) (ret None)))"

definition inode_dinode :: "inode \<Rightarrow> dinode" where
  "inode_dinode i = \<lparr>d_type = i_type i, d_major = i_major i, d_minor = i_minor i,
     d_nlink = i_nlink i, d_size = i_size i, d_addrs = i_addrs i\<rparr>"

definition iupdate :: "nat \<Rightarrow> ('x fs_st_scheme, unit) kop" where
  "iupdate ip =
     bnd (gets sb) (\<lambda>sb.
     bnd (get_inode ip) (\<lambda>i.
     bnd (bread (i_dev i) (IBLOCK (i_inum i) sb)) (\<lambda>bp.
     stmts
      [upd_buf bp (\<lambda>x. x\<lparr>b_data :=
         dinode_put (b_data x) (dinode_off (i_inum i)) (inode_dinode i)\<rparr>),
       log_write bp,
       brelse bp])))"

definition idup :: "nat \<Rightarrow> ('x fs_st_scheme, nat) kop" where
  "idup ip =
     seq (acquire L_itable)
     (seq (upd_inode ip (\<lambda>i. i\<lparr>i_ref := i_ref i + 1\<rparr>))
     (seq (release L_itable) (ret ip)))"

text \<open>The part of \<open>ilock\<close> after the sleep lock is acquired.\<close>

definition ilock_load :: "nat \<Rightarrow> ('x fs_st_scheme, unit) kop" where
  "ilock_load ip =
     bnd (get_inode ip) (\<lambda>i.
     kwhen (\<not> i_valid i)
      (bnd (gets sb) (\<lambda>sb.
       bnd (bread (i_dev i) (IBLOCK (i_inum i) sb)) (\<lambda>bp.
       bnd (get_buf bp) (\<lambda>x.
       let d = dinode_get (b_data x) (dinode_off (i_inum i)) in
       stmts
        [upd_inode ip (\<lambda>i. i\<lparr>i_type := d_type d, i_major := d_major d, i_minor := d_minor d,
           i_nlink := d_nlink d, i_size := d_size d,
           i_addrs := (\<lambda>j. if j < NDIRECT + 1 then d_addrs d j else i_addrs i j)\<rparr>),
         brelse bp,
         upd_inode ip (\<lambda>i. i\<lparr>i_valid := True\<rparr>),
         (if d_type d = 0 then panic ''ilock: no type'' else ret ())])))))"

definition ilock :: "nat option \<Rightarrow> ('x fs_st_scheme, unit) kop" where
  "ilock ipo = (case ipo of None \<Rightarrow> panic ''ilock'' | Some ip \<Rightarrow>
     bnd (get_inode ip) (\<lambda>i.
     if i_ref i < 1 then panic ''ilock'' else
     seq (acquiresleep (L_inode ip)) (ilock_load ip)))"

definition iunlock :: "nat option \<Rightarrow> ('x fs_st_scheme, unit) kop" where
  "iunlock ipo = (case ipo of None \<Rightarrow> panic ''iunlock'' | Some ip \<Rightarrow>
     bnd (holdingsleep (L_inode ip)) (\<lambda>h.
     bnd (get_inode ip) (\<lambda>i.
     if \<not> h \<or> i_ref i < 1 then panic ''iunlock'' else releasesleep (L_inode ip))))"

section \<open>Inode content\<close>

definition bmap :: "nat \<Rightarrow> u32 \<Rightarrow> ('x fs_st_scheme, u32) kop" where
  "bmap ip bn =
     bnd (get_inode ip) (\<lambda>i.
     if bn < NDIRECT then
       let addr = i_addrs i (unat bn) in
       if addr = 0 then
         bnd (balloc (i_dev i)) (\<lambda>addr.
         if addr = 0 then ret 0 else
         seq (upd_inode ip (\<lambda>i. i\<lparr>i_addrs := (i_addrs i)(unat bn := addr)\<rparr>)) (ret addr))
       else ret addr
     else let bn = bn - NDIRECT in
     if bn < NINDIRECT then
       bnd (let addr = i_addrs i NDIRECT in
            if addr = 0 then
              bnd (balloc (i_dev i)) (\<lambda>addr.
              if addr = 0 then ret 0 else
              seq (upd_inode ip (\<lambda>i. i\<lparr>i_addrs := (i_addrs i)(NDIRECT := addr)\<rparr>)) (ret addr))
            else ret addr) (\<lambda>ind.
       if ind = 0 then ret 0 else
       bnd (bread (i_dev i) ind) (\<lambda>bp.
       bnd (get_buf bp) (\<lambda>x.
       let addr = ld32 (b_data x) (4 * unat bn) in
       if addr = 0 then
         bnd (balloc (i_dev i)) (\<lambda>addr.
         seq (kwhen (addr \<noteq> 0)
           (stmts
             [upd_buf bp (\<lambda>x. x\<lparr>b_data := st32 (b_data x) (4 * unat bn) addr\<rparr>),
              log_write bp]))
         (seq (brelse bp) (ret addr)))
       else seq (brelse bp) (ret addr))))
     else panic ''bmap: out of range'')"

definition itrunc :: "nat \<Rightarrow> ('x fs_st_scheme, unit) kop" where
  "itrunc ip =
     stmts
      [kfor [0..<NDIRECT] (\<lambda>j.
         bnd (get_inode ip) (\<lambda>i.
         kwhen (i_addrs i j \<noteq> 0)
          (stmts
            [bfree (i_dev i) (i_addrs i j),
             upd_inode ip (\<lambda>i. i\<lparr>i_addrs := (i_addrs i)(j := 0)\<rparr>)]))),
       bnd (get_inode ip) (\<lambda>i.
       kwhen (i_addrs i NDIRECT \<noteq> 0)
        (bnd (bread (i_dev i) (i_addrs i NDIRECT)) (\<lambda>bp.
         stmts
          [kfor [0..<NINDIRECT] (\<lambda>j.
             bnd (get_buf bp) (\<lambda>x.
             kwhen (ld32 (b_data x) (4 * j) \<noteq> 0) (bfree (i_dev i) (ld32 (b_data x) (4 * j))))),
           brelse bp,
           bfree (i_dev i) (i_addrs i NDIRECT),
           upd_inode ip (\<lambda>i. i\<lparr>i_addrs := (i_addrs i)(NDIRECT := 0)\<rparr>)]))),
       upd_inode ip (\<lambda>i. i\<lparr>i_size := 0\<rparr>),
       iupdate ip]"

definition iput :: "nat \<Rightarrow> ('x fs_st_scheme, unit) kop" where
  "iput ip =
     stmts
      [acquire L_itable,
       bnd (get_inode ip) (\<lambda>i.
       kwhen (i_ref i = 1 \<and> i_valid i \<and> i_nlink i = 0)
        (stmts
          [acquiresleep (L_inode ip),
           release L_itable,
           itrunc ip,
           upd_inode ip (\<lambda>i. i\<lparr>i_type := 0\<rparr>),
           iupdate ip,
           upd_inode ip (\<lambda>i. i\<lparr>i_valid := False\<rparr>),
           releasesleep (L_inode ip),
           acquire L_itable])),
       upd_inode ip (\<lambda>i. i\<lparr>i_ref := i_ref i - 1\<rparr>),
       release L_itable]"

definition iunlockput :: "nat \<Rightarrow> ('x fs_st_scheme, unit) kop" where
  "iunlockput ip = seq (iunlock (Some ip)) (iput ip)"

record stat =
  st_dev :: u32
  st_ino :: u32
  st_type :: i16
  st_nlink :: i16
  st_size :: u64

definition stati :: "nat \<Rightarrow> ('x fs_st_scheme, stat) kop" where
  "stati ip = bnd (get_inode ip) (\<lambda>i.
     ret \<lparr>st_dev = i_dev i, st_ino = i_inum i, st_type = i_type i, st_nlink = i_nlink i,
          st_size = ucast (i_size i)\<rparr>)"

text \<open>The result is the return value and the destination object (see \<open>either_copyout\<close>).\<close>

definition readi :: "nat \<Rightarrow> kaddr \<Rightarrow> u32 \<Rightarrow> u32 \<Rightarrow> ('x fs_st_scheme, int \<times> kaddr) kop" where
  "readi ip dst off n =
     bnd (get_inode ip) (\<lambda>i.
     if off > i_size i \<or> off + n < off then ret (0, dst) else
     let n = (if off + n > i_size i then i_size i - off else n) in
     kiter (unat n + 1) (\<lambda>(tot, off, dst).
       if \<not> tot < n then ret (Inr (sint tot, dst)) else
       bnd (bmap ip (off div BSIZE)) (\<lambda>addr.
       if addr = 0 then ret (Inr (sint tot, dst)) else
       bnd (bread (i_dev i) addr) (\<lambda>bp.
       bnd (get_buf bp) (\<lambda>x.
       let m = min (n - tot) (BSIZE - off mod BSIZE) in
       bnd (either_copyout dst (unat tot) (\<lambda>j. b_data x (unat (off mod BSIZE) + j)) (unat m)) (\<lambda>(r, dst).
       if r = -1 then seq (brelse bp) (ret (Inr (-1, dst)))
       else seq (brelse bp) (ret (Inl (tot + m, off + m, dst))))))))
     (0, off, dst))"

definition splice :: "bytes \<Rightarrow> nat \<Rightarrow> nat \<Rightarrow> bytes \<Rightarrow> bytes" where
  "splice d k n v = (\<lambda>i. if k \<le> i \<and> i < k + n then v (i - k) else d i)"

definition writei :: "nat \<Rightarrow> kaddr \<Rightarrow> u32 \<Rightarrow> u32 \<Rightarrow> ('x fs_st_scheme, int) kop" where
  "writei ip src off n =
     bnd (get_inode ip) (\<lambda>i.
     if off > i_size i \<or> off + n < off then ret (-1)
     else if off + n > MAXFILE * BSIZE then ret (-1)
     else
     bnd (kiter (unat n + 1) (\<lambda>(tot, off).
       if \<not> tot < n then ret (Inr (tot, off)) else
       bnd (bmap ip (off div BSIZE)) (\<lambda>addr.
       if addr = 0 then ret (Inr (tot, off)) else
       bnd (bread (i_dev i) addr) (\<lambda>bp.
       bnd (get_buf bp) (\<lambda>x.
       let m = min (n - tot) (BSIZE - off mod BSIZE); pos = unat (off mod BSIZE) in
       bnd (either_copyin (\<lambda>j. b_data x (pos + j)) src (unat tot) (unat m)) (\<lambda>(r, d).
       seq (upd_buf bp (\<lambda>x. x\<lparr>b_data := splice (b_data x) pos (unat m) d\<rparr>))
       (if r = -1 then seq (brelse bp) (ret (Inr (tot, off)))
        else seq (log_write bp) (seq (brelse bp) (ret (Inl (tot + m, off + m)))))))))) (0, off)) (\<lambda>(tot, off).
     seq (stmts
      [upd_inode ip (\<lambda>i. if off > i_size i then i\<lparr>i_size := off\<rparr> else i),
       iupdate ip])
     (ret (sint tot))))"

section \<open>Directories\<close>

text \<open>A \<^verbatim>\<open>struct dirent\<close> is 16 bytes: the inode number and the name.\<close>

definition de_inum :: "bytes \<Rightarrow> u16" where
  "de_inum d = ld16 d 0"

definition de_name :: "bytes \<Rightarrow> bytes" where
  "de_name d = (\<lambda>i. d (2 + i))"

definition de_make :: "bytes \<Rightarrow> bytes \<Rightarrow> u32 \<Rightarrow> bytes" where
  "de_make d name inum = st16 (\<lambda>i. if i < 2 then d i else strncpy (de_name d) name DIRSIZ (i - 2)) 0 (ucast inum)"

definition namecmp :: "bytes \<Rightarrow> bytes \<Rightarrow> int" where
  "namecmp s t = strncmp DIRSIZ s t"

text \<open>Read one directory entry into a local variable.\<close>

definition read_de :: "nat \<Rightarrow> bytes \<Rightarrow> u32 \<Rightarrow> string \<Rightarrow> ('x fs_st_scheme, bytes) kop" where
  "read_de dp de off msg =
     bnd (readi dp (K_obj de) off 16) (\<lambda>(r, dst).
     if r \<noteq> 16 then panic msg else
     ret (case dst of K_obj d \<Rightarrow> d | _ \<Rightarrow> de))"

text \<open>
  Returns the entry's inode and its offset. A directory of \<open>size\<close> bytes has at most
  \<open>size div 16 + 1\<close> entries.
\<close>

definition dirlookup :: "nat \<Rightarrow> bytes \<Rightarrow> ('x fs_st_scheme, (nat \<times> u32) option) kop" where
  "dirlookup dp name =
     bnd (get_inode dp) (\<lambda>i.
     if i_type i \<noteq> T_DIR then panic ''dirlookup not DIR'' else
     kiter (unat (i_size i) div 16 + 2) (\<lambda>(off, de).
       bnd (get_inode dp) (\<lambda>i.
       if \<not> off < i_size i then ret (Inr None) else
       bnd (read_de dp de off ''dirlookup read'') (\<lambda>de.
       if de_inum de = 0 then ret (Inl (off + 16, de))
       else if namecmp name (de_name de) = 0 then
         bnd (iget (i_dev i) (ucast (de_inum de))) (\<lambda>ip. ret (Inr (Some (ip, off))))
       else ret (Inl (off + 16, de)))))
     (0, \<lambda>_. 0))"

definition dirlink :: "nat \<Rightarrow> bytes \<Rightarrow> u32 \<Rightarrow> ('x fs_st_scheme, int) kop" where
  "dirlink dp name inum =
     bnd (dirlookup dp name) (\<lambda>r.
     case r of Some (ip, off) \<Rightarrow> seq (iput ip) (ret (-1))
     | None \<Rightarrow>
       bnd (get_inode dp) (\<lambda>i.
       bnd (kiter (unat (i_size i) div 16 + 2) (\<lambda>(off, de).
         bnd (get_inode dp) (\<lambda>i.
         if \<not> off < i_size i then ret (Inr (off, de)) else
         bnd (read_de dp de off ''dirlink read'') (\<lambda>de.
         if de_inum de = 0 then ret (Inr (off, de)) else ret (Inl (off + 16, de)))))
       (0, \<lambda>_. 0)) (\<lambda>(off, de).
       bnd (writei dp (K_obj (de_make de name inum)) off 16) (\<lambda>r.
       ret (if r \<noteq> 16 then -1 else 0)))))"

section \<open>Paths\<close>

text \<open>A path is the list of its characters before the terminating NUL.\<close>

abbreviation slash :: u8 where "slash \<equiv> 47"

fun skip_slashes :: "u8 list \<Rightarrow> u8 list" where
  "skip_slashes [] = []"
| "skip_slashes (c # cs) = (if c = slash then skip_slashes cs else c # cs)"

fun take_elem :: "u8 list \<Rightarrow> u8 list \<times> u8 list" where
  "take_elem [] = ([], [])"
| "take_elem (c # cs) =
     (if c \<noteq> slash then (case take_elem cs of (e, r) \<Rightarrow> (c # e, r)) else ([], c # cs))"

text \<open>Copy the first \<open>n\<close> characters of a list to the start of a name buffer.\<close>

definition put_chars :: "bytes \<Rightarrow> u8 list \<Rightarrow> nat \<Rightarrow> bytes" where
  "put_chars d cs n = (\<lambda>i. if i < n then cs ! i else d i)"

definition skipelem :: "u8 list \<Rightarrow> bytes \<Rightarrow> (u8 list \<times> bytes) option" where
  "skipelem path name =
     (let path = skip_slashes path in
      if path = [] then None else
      let (s, path) = take_elem path; len = length s in
      Some (skip_slashes path,
        if len \<ge> DIRSIZ then put_chars name s DIRSIZ
        else (put_chars name s len)(len := 0)))"

text \<open>
  Each iteration consumes at least one character of the path. The result is the inode (if any)
  and the name buffer.
\<close>

definition namex :: "u8 list \<Rightarrow> bool \<Rightarrow> bytes \<Rightarrow> ('x fs_st_scheme, nat option \<times> bytes) kop" where
  "namex path nameiparent name =
     bnd (if path \<noteq> [] \<and> hd path = slash then iget ROOTDEV ROOTINO
          else bnd curproc (\<lambda>p. bnd (get_proc p) (\<lambda>q.
            case p_cwd q of None \<Rightarrow> panic ''kerneltrap'' | Some c \<Rightarrow> idup c))) (\<lambda>ip.
     kiter (length path + 1) (\<lambda>(path, name, ip).
       case skipelem path name of
         None \<Rightarrow>
           if nameiparent then seq (iput ip) (ret (Inr (None, name)))
           else ret (Inr (Some ip, name))
       | Some (path, name) \<Rightarrow>
           seq (ilock (Some ip))
           (bnd (get_inode ip) (\<lambda>i.
           if i_type i \<noteq> T_DIR then seq (iunlockput ip) (ret (Inr (None, name)))
           else if nameiparent \<and> path = [] then seq (iunlock (Some ip)) (ret (Inr (Some ip, name)))
           else
             bnd (dirlookup ip name) (\<lambda>nxt.
             case nxt of None \<Rightarrow> seq (iunlockput ip) (ret (Inr (None, name)))
             | Some (next, off) \<Rightarrow> seq (iunlockput ip) (ret (Inl (path, name, next)))))))
     (path, name, ip))"

definition namei :: "u8 list \<Rightarrow> ('x fs_st_scheme, nat option) kop" where
  "namei path = bnd (namex path False (\<lambda>_. 0)) (\<lambda>(ip, name). ret ip)"

definition nameiparent :: "u8 list \<Rightarrow> bytes \<Rightarrow> ('x fs_st_scheme, nat option \<times> bytes) kop" where
  "nameiparent path name = namex path True name"

end
