(* ===== verification/Uart.thy ===== *)
theory Uart
  imports Fs
begin

text \<open>
  The UART driver of \<^verbatim>\<open>kernel/uart.c\<close> and the console of \<^verbatim>\<open>kernel/console.c\<close>. The device is
  not modelled: the values successive reads of its line-status and receive registers return are
  arbitrary streams, and what is written to its transmit register is collected in \<open>kout\<close>.
\<close>

section \<open>Driver\<close>

abbreviation UART_TX_BUF_SIZE :: "'a::numeral" where "UART_TX_BUF_SIZE \<equiv> 32"
abbreviation INPUT_BUF_SIZE :: "'a::numeral" where "INPUT_BUF_SIZE \<equiv> 128"

record cons =
  c_buf :: "nat \<Rightarrow> u8"
  c_r :: u32
  c_w :: u32
  c_e :: u32

record uart_st = fs_st +
  uart_tx_buf :: "nat \<Rightarrow> u8"
  uart_tx_w :: u64
  uart_tx_r :: u64
  u_reg :: "nat \<Rightarrow> u8"
  u_lsr :: "nat \<Rightarrow> u8"
  u_rhr :: "nat \<Rightarrow> u8"
  kcons :: cons

definition WriteReg :: "nat \<Rightarrow> u8 \<Rightarrow> ('x uart_st_scheme, unit) kop" where
  "WriteReg r v = modify (\<lambda>s. s\<lparr>u_reg := (u_reg s)(r := v)\<rparr>)"

definition write_THR :: "u8 \<Rightarrow> ('x pr_st_scheme, unit) kop" where
  "write_THR c = modify (\<lambda>s. s\<lparr>kout := kout s @ [char_of (unat c)]\<rparr>)"

definition read_LSR :: "('x uart_st_scheme, u8) kop" where
  "read_LSR = bnd (gets (\<lambda>s. u_lsr s 0)) (\<lambda>v.
     seq (modify (\<lambda>s. s\<lparr>u_lsr := (\<lambda>i. u_lsr s (Suc i))\<rparr>)) (ret v))"

definition read_RHR :: "('x uart_st_scheme, u8) kop" where
  "read_RHR = bnd (gets (\<lambda>s. u_rhr s 0)) (\<lambda>v.
     seq (modify (\<lambda>s. s\<lparr>u_rhr := (\<lambda>i. u_rhr s (Suc i))\<rparr>)) (ret v))"

definition uartinit :: "('x uart_st_scheme, unit) kop" where
  "uartinit =
     stmts
      [WriteReg 1 0,
       WriteReg 3 0x80,
       WriteReg 0 3,
       WriteReg 1 0,
       WriteReg 3 3,
       WriteReg 2 (1 OR 6),
       WriteReg 1 (2 OR 1),
       initlock L_uart_tx ''uart'']"

text \<open>The transmit ring: the byte at the read position, dropping it, and adding one.\<close>

definition uart_tx_peek :: "'x uart_st_scheme \<Rightarrow> u8" where
  "uart_tx_peek s = uart_tx_buf s (unat (uart_tx_r s mod UART_TX_BUF_SIZE))"

definition uart_tx_adv :: "'x uart_st_scheme \<Rightarrow> 'x uart_st_scheme" where
  "uart_tx_adv s = s\<lparr>uart_tx_r := uart_tx_r s + 1\<rparr>"

definition uart_tx_put :: "u8 \<Rightarrow> 'x uart_st_scheme \<Rightarrow> 'x uart_st_scheme" where
  "uart_tx_put c s = s\<lparr>uart_tx_buf := (uart_tx_buf s)(unat (uart_tx_w s mod UART_TX_BUF_SIZE) := c),
     uart_tx_w := uart_tx_w s + 1\<rparr>"

text \<open>
  One pass of the loop of \<open>uartstart\<close> sends one byte, so with at most \<open>UART_TX_BUF_SIZE\<close>
  bytes buffered \<open>UART_TX_BUF_SIZE + 1\<close> passes are enough.
\<close>

definition uartstart_step :: "unit \<Rightarrow> ('x uart_st_scheme, unit + unit) kop" where
  "uartstart_step _ =
     bnd (gets (\<lambda>s. (uart_tx_w s, uart_tx_r s))) (\<lambda>(w, r).
     if w = r then ret (Inr ()) else
     bnd read_LSR (\<lambda>lsr.
     if lsr AND 0x20 = 0 then ret (Inr ()) else
     bnd (gets uart_tx_peek) (\<lambda>c.
     seq (stmts
      [modify uart_tx_adv,
       wakeup Ch_uart_tx_r,
       write_THR c])
     (ret (Inl ())))))"

definition uartstart :: "('x uart_st_scheme, unit) kop" where
  "uartstart =
     kiter (UART_TX_BUF_SIZE + 1) uartstart_step ()"

text \<open>The part of \<open>uartputc\<close> after the lock is acquired; a woken thread continues here.\<close>

definition uartputc_loop :: "u8 \<Rightarrow> ('x uart_st_scheme, unit) kop" where
  "uartputc_loop c =
     bnd (gets (\<lambda>s. (uart_tx_w s, uart_tx_r s))) (\<lambda>(w, r).
     if w = r + UART_TX_BUF_SIZE then sleep Ch_uart_tx_r L_uart_tx else
     stmts
      [modify (uart_tx_put c),
       uartstart,
       release L_uart_tx])"

definition uartputc :: "u8 \<Rightarrow> ('x uart_st_scheme, unit) kop" where
  "uartputc c = seq (acquire L_uart_tx) (uartputc_loop c)"

text \<open>The busy wait of \<open>uartputc_sync\<close> for an idle transmitter has no effect but delay.\<close>

definition uartputc_sync :: "u8 \<Rightarrow> ('x pr_st_scheme, unit) kop" where
  "uartputc_sync c = stmts [push_off, write_THR c, pop_off]"

definition uartgetc :: "('x uart_st_scheme, u8 option) kop" where
  "uartgetc =
     bnd read_LSR (\<lambda>lsr.
     if lsr AND 1 \<noteq> 0 then bnd read_RHR (\<lambda>c. ret (Some c)) else ret None)"

section \<open>Console\<close>

text \<open>\<open>None\<close> is the code \<^verbatim>\<open>BACKSPACE\<close> (0x100), which is no character.\<close>

definition consputc :: "u8 option \<Rightarrow> ('x pr_st_scheme, unit) kop" where
  "consputc c = (case c of
     None \<Rightarrow> stmts [uartputc_sync 8, uartputc_sync 32, uartputc_sync 8]
   | Some c \<Rightarrow> uartputc_sync c)"

definition upd_cons :: "(cons \<Rightarrow> cons) \<Rightarrow> ('x uart_st_scheme, unit) kop" where
  "upd_cons f = modify (\<lambda>s. s\<lparr>kcons := f (kcons s)\<rparr>)"

definition cbuf :: "cons \<Rightarrow> u32 \<Rightarrow> u8" where
  "cbuf c i = c_buf c (unat (i mod INPUT_BUF_SIZE))"

definition consolewrite :: "kaddr \<Rightarrow> i32 \<Rightarrow> ('x uart_st_scheme, int) kop" where
  "consolewrite src n =
     bnd (kfind [0..<nat (sint n)] (\<lambda>i.
       bnd (either_copyin (\<lambda>_. 0) src i 1) (\<lambda>(r, d).
       if r = -1 then ret (Some (int i)) else seq (uartputc (d 0)) (ret None)))) (\<lambda>r.
     ret (case r of Some i \<Rightarrow> i | None \<Rightarrow> max 0 (sint n)))"

text \<open>
  The loop of \<open>consoleread\<close> with the lock held, after \<open>k\<close> bytes have been copied and with \<open>n\<close>
  still wanted; a woken thread continues here. The result is \<^verbatim>\<open>target - n\<close>.
\<close>

definition consoleread_loop :: "kaddr \<Rightarrow> u32 \<Rightarrow> nat \<Rightarrow> i32 \<Rightarrow> ('x uart_st_scheme, int \<times> kaddr) kop" where
  "consoleread_loop dst target k n =
     kiter (nat (sint n) + 1) (\<lambda>(dst, k, n).
       if \<not> sint n > 0 then
         seq (release L_cons) (ret (Inr (sint (target - n), dst))) else
       bnd (gets kcons) (\<lambda>c.
       if c_r c = c_w c then
         bnd curproc (\<lambda>p. bnd (killed p) (\<lambda>kd.
         if kd then seq (release L_cons) (ret (Inr (-1, dst)))
         else sleep Ch_cons_r L_cons))
       else
         let ch = cbuf c (c_r c) in
         seq (upd_cons (\<lambda>c. c\<lparr>c_r := c_r c + 1\<rparr>))
         (if ch = 4 then
            seq (kwhen (n < target) (upd_cons (\<lambda>c. c\<lparr>c_r := c_r c - 1\<rparr>)))
            (seq (release L_cons) (ret (Inr (sint (target - n), dst))))
          else
            bnd (either_copyout dst k (\<lambda>_. ch) 1) (\<lambda>(r, dst).
            if r = -1 then seq (release L_cons) (ret (Inr (sint (target - n), dst)))
            else if ch = 10 then seq (release L_cons) (ret (Inr (sint (target - (n - 1)), dst)))
            else ret (Inl (dst, k + 1, n - 1))))))
     (dst, k, n)"

definition consoleread :: "kaddr \<Rightarrow> i32 \<Rightarrow> ('x uart_st_scheme, int \<times> kaddr) kop" where
  "consoleread dst n = seq (acquire L_cons) (consoleread_loop dst n 0 n)"

text \<open>Kill line: at most \<open>INPUT_BUF_SIZE\<close> characters are being edited.\<close>

definition kill_line :: "('x uart_st_scheme, unit) kop" where
  "kill_line =
     kiter (INPUT_BUF_SIZE + 1) (\<lambda>_.
       bnd (gets kcons) (\<lambda>c.
       if \<not> (c_e c \<noteq> c_w c \<and> cbuf c (c_e c - 1) \<noteq> 10) then ret (Inr ())
       else seq (upd_cons (\<lambda>c. c\<lparr>c_e := c_e c - 1\<rparr>)) (seq (consputc None) (ret (Inl ())))))
     ()"

definition console_char :: "u8 \<Rightarrow> ('x uart_st_scheme, unit) kop" where
  "console_char c =
     stmts
      [consputc (Some c),
       upd_cons (\<lambda>k. k\<lparr>c_buf := (c_buf k)(unat (c_e k mod INPUT_BUF_SIZE) := c), c_e := c_e k + 1\<rparr>),
       bnd (gets kcons) (\<lambda>k.
       kwhen (c = 10 \<or> c = 4 \<or> c_e k - c_r k = INPUT_BUF_SIZE)
        (stmts [upd_cons (\<lambda>k. k\<lparr>c_w := c_e k\<rparr>), wakeup Ch_cons_r]))]"

definition console_key :: "u8 \<Rightarrow> ('x uart_st_scheme, unit) kop" where
  "console_key c =
     (if c = 16 then procdump
      else if c = 21 then kill_line
      else if c = 8 \<or> c = 127 then
        bnd (gets kcons) (\<lambda>k.
        kwhen (c_e k \<noteq> c_w k)
          (stmts [upd_cons (\<lambda>k. k\<lparr>c_e := c_e k - 1\<rparr>), consputc None]))
      else
        bnd (gets kcons) (\<lambda>k.
        kwhen (c \<noteq> 0 \<and> c_e k - c_r k < INPUT_BUF_SIZE)
          (console_char (if c = 13 then 10 else c))))"

definition consoleintr :: "u8 \<Rightarrow> ('x uart_st_scheme, unit) kop" where
  "consoleintr c = stmts [acquire L_cons, console_key c, release L_cons]"

text \<open>\<open>fuel\<close> bounds the number of input characters one interrupt handles.\<close>

definition uartintr :: "nat \<Rightarrow> ('x uart_st_scheme, unit) kop" where
  "uartintr fuel =
     stmts
      [kiter fuel (\<lambda>_.
         bnd uartgetc (\<lambda>c. case c of
           None \<Rightarrow> ret (Inr ())
         | Some c \<Rightarrow> seq (consoleintr c) (ret (Inl ())))) (),
       acquire L_uart_tx,
       uartstart,
       release L_uart_tx]"

end
