(* ===== verification/Pipe.thy ===== *)
theory Pipe
  imports Uart
begin

text \<open>
  Pipes, \<^verbatim>\<open>kernel/pipe.c\<close>: a 512-byte ring buffer with free-running 32-bit read and write
  counters. A pipe lives in a page from \<open>kalloc\<close>; its fields are kept in \<open>pipes\<close> under the
  address of that page, and its lock is \<open>L_pipe pi\<close>.
\<close>

section \<open>Definitions\<close>

abbreviation PIPESIZE :: "'a::numeral" where "PIPESIZE \<equiv> 512"

record pipe =
  pi_data :: "nat \<Rightarrow> u8"
  pi_nread :: u32
  pi_nwrite :: u32
  pi_readopen :: bool
  pi_writeopen :: bool

record pipe_st = uart_st +
  pipes :: "u64 \<Rightarrow> pipe"

definition upd_pipe :: "u64 \<Rightarrow> (pipe \<Rightarrow> pipe) \<Rightarrow> ('x pipe_st_scheme, unit) kop" where
  "upd_pipe pi f = modify (\<lambda>s. s\<lparr>pipes := (pipes s)(pi := f (pipes s pi))\<rparr>)"

definition get_pipe :: "u64 \<Rightarrow> ('x pipe_st_scheme, pipe) kop" where
  "get_pipe pi = gets (\<lambda>s. pipes s pi)"

definition pipeclose :: "u64 \<Rightarrow> bool \<Rightarrow> ('x pipe_st_scheme, unit) kop" where
  "pipeclose pi writable =
     stmts
      [acquire (L_pipe pi),
       (if writable then
          stmts [upd_pipe pi (\<lambda>p. p\<lparr>pi_writeopen := False\<rparr>), wakeup (Ch_pipe_nread pi)]
        else
          stmts [upd_pipe pi (\<lambda>p. p\<lparr>pi_readopen := False\<rparr>), wakeup (Ch_pipe_nwrite pi)]),
       bnd (get_pipe pi) (\<lambda>p.
       if \<not> pi_readopen p \<and> \<not> pi_writeopen p then stmts [release (L_pipe pi), kfree pi]
       else release (L_pipe pi))]"

text \<open>Storing a byte at the write position and taking the byte at the read position.\<close>

definition pipe_put :: "u8 \<Rightarrow> pipe \<Rightarrow> pipe" where
  "pipe_put ch p = p\<lparr>pi_data := (pi_data p)(unat (pi_nwrite p mod PIPESIZE) := ch),
                      pi_nwrite := pi_nwrite p + 1\<rparr>"

definition pipe_peek :: "pipe \<Rightarrow> u8" where
  "pipe_peek p = pi_data p (unat (pi_nread p mod PIPESIZE))"

definition pipe_adv :: "pipe \<Rightarrow> pipe" where
  "pipe_adv p = p\<lparr>pi_nread := pi_nread p + 1\<rparr>"

text \<open>
  The loop of \<open>pipewrite\<close> with the lock held and \<open>i\<close> bytes already written; a writer woken
  from a full pipe continues here. Every iteration that does not sleep or leave advances \<open>i\<close>.
\<close>

definition pipewrite_step :: "u64 \<Rightarrow> nat \<Rightarrow> u64 \<Rightarrow> int \<Rightarrow> int \<Rightarrow> ('x pipe_st_scheme, int + int) kop" where
  "pipewrite_step pi pr addr n i =
     (if \<not> i < n then
        seq (wakeup (Ch_pipe_nread pi)) (seq (release (L_pipe pi)) (ret (Inr i))) else
      bnd (get_pipe pi) (\<lambda>p.
      bnd (if \<not> pi_readopen p then ret True else killed pr) (\<lambda>stop.
      if stop then seq (release (L_pipe pi)) (ret (Inr (-1)))
      else if pi_nwrite p = pi_nread p + PIPESIZE then
        seq (wakeup (Ch_pipe_nread pi)) (sleep (Ch_pipe_nwrite pi) (L_pipe pi))
      else
        bnd (get_proc pr) (\<lambda>q.
        bnd (copyin (p_pagetable q) (\<lambda>_. 0) (addr + of_int i) 1) (\<lambda>(r, d).
        if r = -1 then
          seq (wakeup (Ch_pipe_nread pi)) (seq (release (L_pipe pi)) (ret (Inr i)))
        else seq (upd_pipe pi (pipe_put (d 0))) (ret (Inl (i + 1))))))))"

definition pipewrite_loop :: "u64 \<Rightarrow> nat \<Rightarrow> u64 \<Rightarrow> int \<Rightarrow> int \<Rightarrow> ('x pipe_st_scheme, int) kop" where
  "pipewrite_loop pi pr addr n i = kiter (nat (n - i) + 1) (pipewrite_step pi pr addr n) i"

definition pipewrite :: "u64 \<Rightarrow> u64 \<Rightarrow> i32 \<Rightarrow> ('x pipe_st_scheme, int) kop" where
  "pipewrite pi addr n =
     bnd curproc (\<lambda>pr.
     seq (acquire (L_pipe pi)) (pipewrite_loop pi pr addr (sint n) 0))"

text \<open>The copy loop of \<open>piperead\<close>, and the whole function from its waiting loop on.\<close>

definition piperead_step :: "u64 \<Rightarrow> nat \<Rightarrow> u64 \<Rightarrow> nat \<Rightarrow> ('x pipe_st_scheme, int option) kop" where
  "piperead_step pi pr addr i =
     bnd (get_pipe pi) (\<lambda>p.
     if pi_nread p = pi_nwrite p then ret (Some (int i)) else
     seq (upd_pipe pi pipe_adv)
     (bnd (get_proc pr) (\<lambda>q.
     bnd (copyout (p_pagetable q) (addr + of_nat i) (\<lambda>_. pipe_peek p) 1) (\<lambda>r.
     if r = -1 then ret (Some (int i)) else ret None))))"

definition piperead_copy :: "u64 \<Rightarrow> nat \<Rightarrow> u64 \<Rightarrow> int \<Rightarrow> ('x pipe_st_scheme, int) kop" where
  "piperead_copy pi pr addr n =
     bnd (kfind [0..<nat n] (piperead_step pi pr addr)) (\<lambda>r.
     let i = (case r of Some i \<Rightarrow> i | None \<Rightarrow> max 0 n) in
     seq (wakeup (Ch_pipe_nwrite pi)) (seq (release (L_pipe pi)) (ret i)))"

definition piperead_loop :: "u64 \<Rightarrow> nat \<Rightarrow> u64 \<Rightarrow> int \<Rightarrow> ('x pipe_st_scheme, int) kop" where
  "piperead_loop pi pr addr n =
     bnd (get_pipe pi) (\<lambda>p.
     if pi_nread p = pi_nwrite p \<and> pi_writeopen p then
       bnd (killed pr) (\<lambda>k.
       if k then seq (release (L_pipe pi)) (ret (-1))
       else sleep (Ch_pipe_nread pi) (L_pipe pi))
     else piperead_copy pi pr addr n)"

definition piperead :: "u64 \<Rightarrow> u64 \<Rightarrow> i32 \<Rightarrow> ('x pipe_st_scheme, int) kop" where
  "piperead pi addr n =
     bnd curproc (\<lambda>pr.
     seq (acquire (L_pipe pi)) (piperead_loop pi pr addr (sint n)))"

end
