(* ===== verification/File.thy ===== *)
theory File
  imports Pipe
begin

text \<open>
  Open files, \<^verbatim>\<open>kernel/file.c\<close>: the system-wide table of \<open>NFILE\<close> reference-counted file
  structures and the operations that dispatch on their type; and \<open>pipealloc\<close> of
  \<^verbatim>\<open>kernel/pipe.c\<close>, which makes a pair of them.
\<close>

section \<open>State\<close>

abbreviation NFILE :: "'a::numeral" where "NFILE \<equiv> 100"
abbreviation NDEV :: "'a::numeral" where "NDEV \<equiv> 10"

datatype filetype = FD_NONE | FD_PIPE | FD_INODE | FD_DEVICE

record kfile =
  f_type :: filetype
  f_ref :: int
  f_readable :: bool
  f_writable :: bool
  f_pipe :: u64
  f_ip :: "nat option"
  f_off :: u32
  f_major :: i16

text \<open>The functions a \<^verbatim>\<open>devsw\<close> entry may point to, by name.\<close>

datatype devfn = Consoleread | Consolewrite

record devsw_entry =
  dv_read :: "devfn option"
  dv_write :: "devfn option"

record file_st = pipe_st +
  ftable :: "nat \<Rightarrow> kfile"
  devsw :: "nat \<Rightarrow> devsw_entry"

definition upd_file :: "nat \<Rightarrow> (kfile \<Rightarrow> kfile) \<Rightarrow> ('x file_st_scheme, unit) kop" where
  "upd_file f g = modify (\<lambda>s. s\<lparr>ftable := (ftable s)(f := g (ftable s f))\<rparr>)"

definition get_file :: "nat \<Rightarrow> ('x file_st_scheme, kfile) kop" where
  "get_file f = gets (\<lambda>s. ftable s f)"

section \<open>Operations\<close>

definition consoleinit :: "('x file_st_scheme, unit) kop" where
  "consoleinit =
     stmts
      [initlock L_cons ''cons'',
       uartinit,
       modify (\<lambda>s. s\<lparr>devsw := (devsw s)(1 := \<lparr>dv_read = Some Consoleread, dv_write = Some Consolewrite\<rparr>)\<rparr>)]"

definition fileinit :: "('x file_st_scheme, unit) kop" where
  "fileinit = initlock L_ftable ''ftable''"

definition filealloc :: "('x file_st_scheme, nat option) kop" where
  "filealloc =
     seq (acquire L_ftable)
     (bnd (kfind [0..<NFILE] (\<lambda>f.
       bnd (get_file f) (\<lambda>x.
       if f_ref x = 0 then
         seq (upd_file f (\<lambda>x. x\<lparr>f_ref := 1\<rparr>)) (seq (release L_ftable) (ret (Some f)))
       else ret None))) (\<lambda>r.
     case r of Some f \<Rightarrow> ret (Some f) | None \<Rightarrow> seq (release L_ftable) (ret None)))"

definition filedup :: "nat \<Rightarrow> ('x file_st_scheme, nat) kop" where
  "filedup f =
     seq (acquire L_ftable)
     (bnd (get_file f) (\<lambda>x.
     if f_ref x < 1 then panic ''filedup'' else
     seq (upd_file f (\<lambda>x. x\<lparr>f_ref := f_ref x + 1\<rparr>)) (seq (release L_ftable) (ret f))))"

text \<open>The inode of an open file; a null pointer would fault.\<close>

definition file_ip :: "kfile \<Rightarrow> ('x file_st_scheme, nat) kop" where
  "file_ip x = (case f_ip x of None \<Rightarrow> panic ''kerneltrap'' | Some ip \<Rightarrow> ret ip)"

definition fileclose :: "nat \<Rightarrow> ('x file_st_scheme, unit) kop" where
  "fileclose f =
     seq (acquire L_ftable)
     (bnd (get_file f) (\<lambda>x.
     if f_ref x < 1 then panic ''fileclose'' else
     seq (upd_file f (\<lambda>x. x\<lparr>f_ref := f_ref x - 1\<rparr>))
     (bnd (get_file f) (\<lambda>ff.
     if f_ref ff > 0 then release L_ftable else
     stmts
      [upd_file f (\<lambda>x. x\<lparr>f_ref := 0, f_type := FD_NONE\<rparr>),
       release L_ftable,
       (if f_type ff = FD_PIPE then pipeclose (f_pipe ff) (f_writable ff)
        else if f_type ff = FD_INODE \<or> f_type ff = FD_DEVICE then
          stmts [begin_op, bnd (file_ip ff) iput, end_op]
        else ret ())]))))"

text \<open>\<^verbatim>\<open>struct stat\<close> in memory: 24 bytes, with 4 bytes of padding before the 64-bit size.\<close>

definition stat_bytes :: "stat \<Rightarrow> bytes" where
  "stat_bytes st = st64 (st16 (st16 (st32 (st32 (\<lambda>_. 0) 0 (st_dev st)) 4 (st_ino st)) 8 (st_type st))
     10 (st_nlink st)) 16 (st_size st)"

definition filestat :: "nat \<Rightarrow> u64 \<Rightarrow> ('x file_st_scheme, int) kop" where
  "filestat f addr =
     bnd curproc (\<lambda>p.
     bnd (get_file f) (\<lambda>x.
     if f_type x = FD_INODE \<or> f_type x = FD_DEVICE then
       seq (ilock (f_ip x))
       (bnd (file_ip x) (\<lambda>ip.
       bnd (stati ip) (\<lambda>st.
       seq (iunlock (f_ip x))
       (bnd (get_proc p) (\<lambda>q.
       bnd (copyout (p_pagetable q) addr (stat_bytes st) 24) (\<lambda>r.
       ret (if r < 0 then -1 else 0)))))))
     else ret (-1)))"

definition call_dev :: "devfn \<Rightarrow> u64 \<Rightarrow> i32 \<Rightarrow> ('x file_st_scheme, int) kop" where
  "call_dev d addr n = (case d of
     Consoleread \<Rightarrow> bnd (consoleread (U_addr addr) n) (\<lambda>(r, _). ret r)
   | Consolewrite \<Rightarrow> consolewrite (U_addr addr) n)"

definition fileread :: "nat \<Rightarrow> u64 \<Rightarrow> i32 \<Rightarrow> ('x file_st_scheme, int) kop" where
  "fileread f addr n =
     bnd (get_file f) (\<lambda>x.
     if \<not> f_readable x then ret (-1)
     else if f_type x = FD_PIPE then piperead (f_pipe x) addr n
     else if f_type x = FD_DEVICE then
       bnd (gets devsw) (\<lambda>dv.
       if sint (f_major x) < 0 \<or> sint (f_major x) \<ge> NDEV then ret (-1) else
       (case dv_read (dv (unat (f_major x))) of
          None \<Rightarrow> ret (-1)
        | Some d \<Rightarrow> call_dev d addr n))
     else if f_type x = FD_INODE then
       seq (ilock (f_ip x))
       (bnd (file_ip x) (\<lambda>ip.
       bnd (get_file f) (\<lambda>x.
       bnd (readi ip (U_addr addr) (f_off x) n) (\<lambda>(r, _).
       seq (kwhen (r > 0) (upd_file f (\<lambda>x. x\<lparr>f_off := f_off x + of_int r\<rparr>)))
       (seq (iunlock (f_ip x)) (ret r))))))
     else panic ''fileread'')"

text \<open>\<^verbatim>\<open>((MAXOPBLOCKS-1-1-2) / 2) * BSIZE\<close>: the most one transaction of \<open>filewrite\<close> writes.\<close>

abbreviation FILEWRITE_MAX :: int where "FILEWRITE_MAX \<equiv> ((MAXOPBLOCKS - 1 - 1 - 2) div 2) * BSIZE"

definition filewrite_chunk :: "nat \<Rightarrow> u64 \<Rightarrow> int \<Rightarrow> int \<Rightarrow> ('x file_st_scheme, int) kop" where
  "filewrite_chunk f addr i n1 =
     seq begin_op
     (bnd (get_file f) (\<lambda>x.
     seq (ilock (f_ip x))
     (bnd (file_ip x) (\<lambda>ip.
     bnd (get_file f) (\<lambda>x.
     bnd (writei ip (U_addr (addr + of_int i)) (f_off x) (of_int n1)) (\<lambda>r.
     seq (stmts
      [kwhen (r > 0) (upd_file f (\<lambda>x. x\<lparr>f_off := f_off x + of_int r\<rparr>)),
       iunlock (f_ip x),
       end_op])
     (ret r)))))))"

definition filewrite :: "nat \<Rightarrow> u64 \<Rightarrow> i32 \<Rightarrow> ('x file_st_scheme, int) kop" where
  "filewrite f addr n =
     bnd (get_file f) (\<lambda>x.
     if \<not> f_writable x then ret (-1)
     else if f_type x = FD_PIPE then pipewrite (f_pipe x) addr n
     else if f_type x = FD_DEVICE then
       bnd (gets devsw) (\<lambda>dv.
       if sint (f_major x) < 0 \<or> sint (f_major x) \<ge> NDEV then ret (-1) else
       (case dv_write (dv (unat (f_major x))) of
          None \<Rightarrow> ret (-1)
        | Some d \<Rightarrow> call_dev d addr n))
     else if f_type x = FD_INODE then
       bnd (kiter (nat (sint n) + 1) (\<lambda>i.
         if \<not> i < sint n then ret (Inr i) else
         let n1 = (if sint n - i > FILEWRITE_MAX then FILEWRITE_MAX else sint n - i) in
         bnd (filewrite_chunk f addr i n1) (\<lambda>r.
         if r \<noteq> n1 then ret (Inr i) else ret (Inl (i + r)))) 0) (\<lambda>i.
       ret (if i = sint n then sint n else -1))
     else panic ''filewrite'')"

text \<open>The fields of the two files of a new pipe.\<close>

definition pipealloc :: "('x file_st_scheme, (nat \<times> nat) option) kop" where
  "pipealloc =
     bnd filealloc (\<lambda>f0.
     case f0 of None \<Rightarrow> ret None | Some f0 \<Rightarrow>
     bnd filealloc (\<lambda>f1.
     case f1 of None \<Rightarrow> seq (fileclose f0) (ret None) | Some f1 \<Rightarrow>
     bnd kalloc (\<lambda>pi.
     if pi = 0 then seq (fileclose f0) (seq (fileclose f1) (ret None)) else
     seq (stmts
      [upd_pipe pi (\<lambda>p. p\<lparr>pi_readopen := True, pi_writeopen := True, pi_nwrite := 0, pi_nread := 0\<rparr>),
       initlock (L_pipe pi) ''pipe'',
       upd_file f0 (\<lambda>x. x\<lparr>f_type := FD_PIPE, f_readable := True, f_writable := False, f_pipe := pi\<rparr>),
       upd_file f1 (\<lambda>x. x\<lparr>f_type := FD_PIPE, f_readable := False, f_writable := True, f_pipe := pi\<rparr>)])
     (ret (Some (f0, f1))))))"

end
