(* ===== verification/ProcLife.thy ===== *)
theory ProcLife
  imports File
begin

text \<open>
  The rest of \<^verbatim>\<open>kernel/proc.c\<close>: creation and termination of processes, which use open files and
  inodes: \<open>userinit\<close>, \<open>fork\<close>, \<open>exit\<close> and the first run of a process, \<open>forkret\<close>.
\<close>

section \<open>Trap frames\<close>

definition get_tf :: "nat \<Rightarrow> tf_reg \<Rightarrow> ('x proc_st_scheme, u64) kop" where
  "get_tf p r = bnd (get_proc p) (\<lambda>q. load64 (p_trapframe q + tf_off r))"

definition set_tf :: "nat \<Rightarrow> tf_reg \<Rightarrow> u64 \<Rightarrow> ('x proc_st_scheme, unit) kop" where
  "set_tf p r v = bnd (get_proc p) (\<lambda>q. store64 (p_trapframe q + tf_off r) v)"

text \<open>\<^verbatim>\<open>sizeof(struct trapframe)\<close> is 288: 36 registers.\<close>

abbreviation TRAPFRAME_SIZE :: nat where "TRAPFRAME_SIZE \<equiv> 288"

section \<open>The first process\<close>

definition initcode :: "u8 list" where
  "initcode =
    [0x17, 0x05, 0x00, 0x00, 0x13, 0x05, 0x45, 0x02,
     0x97, 0x05, 0x00, 0x00, 0x93, 0x85, 0x35, 0x02,
     0x93, 0x08, 0x70, 0x00, 0x73, 0x00, 0x00, 0x00,
     0x93, 0x08, 0x20, 0x00, 0x73, 0x00, 0x00, 0x00,
     0xef, 0xf0, 0x9f, 0xff, 0x2f, 0x69, 0x6e, 0x69,
     0x74, 0x00, 0x00, 0x24, 0x00, 0x00, 0x00, 0x00,
     0x00, 0x00, 0x00, 0x00]"

text \<open>A string literal in memory.\<close>

definition lit :: "string \<Rightarrow> bytes" where
  "lit s = (\<lambda>i. if i < length s then of_char (s ! i) else 0)"

definition userinit :: "('x file_st_scheme, unit) kop" where
  "userinit =
     bnd allocproc (\<lambda>po.
     seq (modify (\<lambda>s. s\<lparr>initproc := po\<rparr>))
     (case po of None \<Rightarrow> panic ''kerneltrap'' | Some p \<Rightarrow>
     stmts
      [bnd (get_proc p) (\<lambda>q. uvmfirst (p_pagetable q) (\<lambda>i. initcode ! i) (of_nat (length initcode))),
       upd_proc p (\<lambda>q. q\<lparr>p_sz := PGSIZE\<rparr>),
       set_tf p TF_epc 0,
       set_tf p TF_sp PGSIZE,
       upd_proc p (\<lambda>q. q\<lparr>p_name := safestrcpy (p_name q) (lit ''initcode'') 16\<rparr>),
       bnd (namei [slash]) (\<lambda>ip. upd_proc p (\<lambda>q. q\<lparr>p_cwd := ip\<rparr>)),
       upd_proc p (\<lambda>q. q\<lparr>p_state := RUNNABLE\<rparr>),
       release (L_proc p)]))"

section \<open>Fork and exit\<close>

definition fork :: "('x file_st_scheme, i32) kop" where
  "fork =
     bnd curproc (\<lambda>p.
     bnd allocproc (\<lambda>npo.
     case npo of None \<Rightarrow> ret (-1) | Some np \<Rightarrow>
     bnd (get_proc p) (\<lambda>q.
     bnd (get_proc np) (\<lambda>nq.
     bnd (uvmcopy (p_pagetable q) (p_pagetable nq) (p_sz q)) (\<lambda>r.
     if r < 0 then seq (freeproc np) (seq (release (L_proc np)) (ret (-1))) else
     seq (stmts
      [upd_proc np (\<lambda>nq. nq\<lparr>p_sz := p_sz q\<rparr>),
       kmemmove (p_trapframe nq) (p_trapframe q) TRAPFRAME_SIZE,
       set_tf np TF_a0 0,
       kfor [0..<NOFILE] (\<lambda>i.
         case p_ofile q i of None \<Rightarrow> ret ()
         | Some f \<Rightarrow> bnd (filedup f) (\<lambda>f. upd_proc np (\<lambda>nq. nq\<lparr>p_ofile := (p_ofile nq)(i \<mapsto> f)\<rparr>))),
       (case p_cwd q of None \<Rightarrow> panic ''kerneltrap''
        | Some c \<Rightarrow> bnd (idup c) (\<lambda>c. upd_proc np (\<lambda>nq. nq\<lparr>p_cwd := Some c\<rparr>))),
       upd_proc np (\<lambda>nq. nq\<lparr>p_trace_mask := p_trace_mask q\<rparr>),
       upd_proc np (\<lambda>nq. nq\<lparr>p_name := safestrcpy (p_name nq) (p_name q) 16\<rparr>)])
     (bnd (get_proc np) (\<lambda>nq.
     seq (stmts
      [release (L_proc np),
       acquire L_wait,
       upd_proc np (\<lambda>nq. nq\<lparr>p_parent := Some p\<rparr>),
       release L_wait,
       acquire (L_proc np),
       upd_proc np (\<lambda>nq. nq\<lparr>p_state := RUNNABLE\<rparr>),
       release (L_proc np)])
     (ret (p_pid nq)))))))))"

definition exit :: "i32 \<Rightarrow> ('x file_st_scheme, 'a) kop" where
  "exit status =
     bnd curproc (\<lambda>p.
     bnd (gets initproc) (\<lambda>ip.
     if Some p = ip then panic ''init exiting'' else
     seq (stmts
      [kfor [0..<NOFILE] (\<lambda>fd.
         bnd (get_proc p) (\<lambda>q.
         case p_ofile q fd of None \<Rightarrow> ret ()
         | Some f \<Rightarrow> stmts [fileclose f, upd_proc p (\<lambda>q. q\<lparr>p_ofile := (p_ofile q)(fd := None)\<rparr>)])),
       begin_op,
       bnd (get_proc p) (\<lambda>q. case p_cwd q of None \<Rightarrow> panic ''kerneltrap'' | Some c \<Rightarrow> iput c),
       end_op,
       upd_proc p (\<lambda>q. q\<lparr>p_cwd := None\<rparr>),
       acquire L_wait,
       reparent p,
       bnd (get_proc p) (\<lambda>q. wakeup_ptr (map_option Ch_proc (p_parent q))),
       acquire (L_proc p),
       upd_proc p (\<lambda>q. q\<lparr>p_xstate := status, p_state := ZOMBIE\<rparr>),
       release L_wait])
     sched))"

text \<open>
  \<open>forkret\<close>, up to \<open>usertrapret\<close>: \<open>first\<close> is its static variable, whose new value is returned.
\<close>

definition forkret :: "bool \<Rightarrow> ('x file_st_scheme, bool) kop" where
  "forkret first =
     bnd curproc (\<lambda>p.
     seq (release (L_proc p))
     (if first then seq (fsinit ROOTDEV) (ret False) else ret False))"

end
