(* ===== verification/Exec.thy ===== *)
theory Exec
  imports ProcLife
begin

text \<open>
  \<^verbatim>\<open>kernel/exec.c\<close> and the ELF format of \<^verbatim>\<open>kernel/elf.h\<close>: replacing a process's memory by
  the segments of an executable file and a stack holding its arguments.
\<close>

section \<open>ELF headers\<close>

abbreviation MAXARG :: "'a::numeral" where "MAXARG \<equiv> 32"
abbreviation ELF_MAGIC :: u32 where "ELF_MAGIC \<equiv> 0x464C457F"
abbreviation ELF_PROG_LOAD :: u32 where "ELF_PROG_LOAD \<equiv> 1"

record elfhdr =
  e_magic :: u32
  e_type :: u16
  e_machine :: u16
  e_version :: u32
  e_entry :: u64
  e_phoff :: u64
  e_shoff :: u64
  e_flags :: u32
  e_ehsize :: u16
  e_phentsize :: u16
  e_phnum :: u16
  e_shentsize :: u16
  e_shnum :: u16
  e_shstrndx :: u16

definition elf_get :: "bytes \<Rightarrow> elfhdr" where
  "elf_get d = \<lparr>e_magic = ld32 d 0, e_type = ld16 d 16, e_machine = ld16 d 18, e_version = ld32 d 20,
     e_entry = ld64 d 24, e_phoff = ld64 d 32, e_shoff = ld64 d 40, e_flags = ld32 d 48,
     e_ehsize = ld16 d 52, e_phentsize = ld16 d 54, e_phnum = ld16 d 56, e_shentsize = ld16 d 58,
     e_shnum = ld16 d 60, e_shstrndx = ld16 d 62\<rparr>"

record proghdr =
  ph_type :: u32
  ph_flags :: u32
  ph_off :: u64
  ph_vaddr :: u64
  ph_paddr :: u64
  ph_filesz :: u64
  ph_memsz :: u64
  ph_align :: u64

definition ph_get :: "bytes \<Rightarrow> proghdr" where
  "ph_get d = \<lparr>ph_type = ld32 d 0, ph_flags = ld32 d 4, ph_off = ld64 d 8, ph_vaddr = ld64 d 16,
     ph_paddr = ld64 d 24, ph_filesz = ld64 d 32, ph_memsz = ld64 d 40, ph_align = ld64 d 48\<rparr>"

definition flags2perm :: "u32 \<Rightarrow> u64" where
  "flags2perm flags =
     (let perm = (if flags AND 1 \<noteq> 0 then PTE_X else 0)
      in if flags AND 2 \<noteq> 0 then perm OR PTE_W else perm)"

section \<open>Loading\<close>

text \<open>Read a structure of \<open>n\<close> bytes from an inode; the result is the return value and the bytes.\<close>

definition read_obj :: "nat \<Rightarrow> u32 \<Rightarrow> u32 \<Rightarrow> ('x fs_st_scheme, int \<times> bytes) kop" where
  "read_obj ip off n =
     bnd (readi ip (K_obj (\<lambda>_. 0)) off n) (\<lambda>(r, dst).
     ret (r, case dst of K_obj d \<Rightarrow> d | _ \<Rightarrow> (\<lambda>_. 0)))"

text \<open>\<open>i\<close> advances by a page, so \<^verbatim>\<open>sz/PGSIZE + 2\<close> iterations are enough unless \<open>i\<close> wraps.\<close>

definition loadseg :: "u64 \<Rightarrow> u64 \<Rightarrow> nat \<Rightarrow> u32 \<Rightarrow> u32 \<Rightarrow> ('x fs_st_scheme, int) kop" where
  "loadseg pagetable va ip offset sz =
     kiter (unat sz div PGSIZE + 2) (\<lambda>i.
       if \<not> i < sz then ret (Inr 0) else
       bnd (walkaddr pagetable (va + ucast i)) (\<lambda>pa.
       if pa = 0 then panic ''loadseg: address should exist'' else
       let n = (if sz - i < PGSIZE then sz - i else PGSIZE) in
       bnd (readi ip (K_addr pa) (offset + i) n) (\<lambda>(r, _).
       if r \<noteq> uint n then ret (Inr (-1)) else ret (Inl (i + PGSIZE)))))
     0"

text \<open>The program-header loop: whether it succeeded, and the size reached.\<close>

definition load_segments :: "nat \<Rightarrow> u64 \<Rightarrow> elfhdr \<Rightarrow> ('x fs_st_scheme, bool \<times> u64) kop" where
  "load_segments ip pagetable elf =
     kiter (unat (e_phnum elf) + 1) (\<lambda>(i, off, sz).
       if \<not> i < unat (e_phnum elf) then ret (Inr (True, sz)) else
       bnd (read_obj ip off 56) (\<lambda>(r, d).
       if r \<noteq> 56 then ret (Inr (False, sz)) else
       let ph = ph_get d in
       if ph_type ph \<noteq> ELF_PROG_LOAD then ret (Inl (i + 1, off + 56, sz))
       else if ph_memsz ph < ph_filesz ph then ret (Inr (False, sz))
       else if ph_vaddr ph + ph_memsz ph < ph_vaddr ph then ret (Inr (False, sz))
       else if ph_vaddr ph mod PGSIZE \<noteq> 0 then ret (Inr (False, sz))
       else
         bnd (uvmalloc pagetable sz (ph_vaddr ph + ph_memsz ph) (flags2perm (ph_flags ph))) (\<lambda>sz1.
         if sz1 = 0 then ret (Inr (False, sz)) else
         bnd (loadseg pagetable (ph_vaddr ph) ip (ucast (ph_off ph)) (ucast (ph_filesz ph))) (\<lambda>r.
         if r < 0 then ret (Inr (False, sz1)) else ret (Inl (i + 1, off + 56, sz1))))))
     (0, ucast (e_phoff elf), 0)"

section \<open>The stack\<close>

text \<open>The string at a kernel address and its length; without a terminator the scan never ends.\<close>

definition kstring :: "u64 \<Rightarrow> ('x kmem_st_scheme, bytes) kop" where
  "kstring a = gets (\<lambda>s i. mem s (unat a + i))"

definition kstrlen :: "bytes \<Rightarrow> ('x, nat) kop" where
  "kstrlen b = (case strlen b of None \<Rightarrow> undef | Some n \<Rightarrow> ret n)"

text \<open>
  Push the argument strings; \<open>argv\<close> is the array up to its null entry. The result is \<open>None\<close> or
  the stack pointer with the string addresses in order.
\<close>

fun push_args :: "u64 \<Rightarrow> u64 \<Rightarrow> u64 list \<Rightarrow> u64 \<Rightarrow> u64 list \<Rightarrow>
    ('x kmem_st_scheme, (u64 \<times> u64 list) option) kop" where
  "push_args pagetable stackbase [] sp ustack = ret (Some (sp, ustack))"
| "push_args pagetable stackbase (a # argv) sp ustack =
     (if length ustack \<ge> MAXARG then ret None else
     bnd (kstring a) (\<lambda>str.
     bnd (kstrlen str) (\<lambda>len.
     let sp = sp - (of_nat len + 1); sp = sp - sp mod 16 in
     if sp < stackbase then ret None else
     bnd (copyout pagetable sp str (of_nat len + 1)) (\<lambda>r.
     if r < 0 then ret None else
     push_args pagetable stackbase argv sp (ustack @ [sp])))))"

fun ptr_bytes :: "u64 list \<Rightarrow> nat \<Rightarrow> bytes" where
  "ptr_bytes [] k = (\<lambda>_. 0)"
| "ptr_bytes (a # as) k = st64 (ptr_bytes as (k + 8)) k a"

text \<open>The last component of the path, which names the process.\<close>

fun last_elem :: "u8 list \<Rightarrow> u8 list \<Rightarrow> u8 list" where
  "last_elem lst [] = lst"
| "last_elem lst (c # cs) = last_elem (if c = slash then cs else lst) cs"

definition of_chars :: "u8 list \<Rightarrow> bytes" where
  "of_chars cs = (\<lambda>i. if i < length cs then cs ! i else 0)"

section \<open>exec\<close>

definition exec_bad :: "u64 \<Rightarrow> u64 \<Rightarrow> nat option \<Rightarrow> ('x fs_st_scheme, int) kop" where
  "exec_bad pagetable sz ipo =
     seq (stmts
      [kwhen (pagetable \<noteq> 0) (proc_freepagetable pagetable sz),
       (case ipo of None \<Rightarrow> ret () | Some ip \<Rightarrow> stmts [iunlockput ip, end_op])])
     (ret (-1))"

text \<open>After the program is loaded: allocate and fill the stack, then switch to the new image.\<close>

definition exec_commit :: "nat \<Rightarrow> u8 list \<Rightarrow> u64 list \<Rightarrow> elfhdr \<Rightarrow> u64 \<Rightarrow> u64 \<Rightarrow> ('x fs_st_scheme, int) kop" where
  "exec_commit p path argv elf pagetable sz0 =
     bnd (get_proc p) (\<lambda>q.
     let oldsz = p_sz q; sz = PGROUNDUP sz0 in
     bnd (uvmalloc pagetable sz (sz + 2 * PGSIZE) PTE_W) (\<lambda>sz1.
     if sz1 = 0 then exec_bad pagetable sz None else
     seq (uvmclear pagetable (sz1 - 2 * PGSIZE))
     (let stackbase = sz1 - PGSIZE in
     bnd (push_args pagetable stackbase argv sz1 []) (\<lambda>r.
     case r of None \<Rightarrow> exec_bad pagetable sz1 None
     | Some (sp, ustack) \<Rightarrow>
       let argc = length ustack;
           sp = sp - (of_nat argc + 1) * 8;
           sp = sp - sp mod 16
       in
       if sp < stackbase then exec_bad pagetable sz1 None else
       bnd (copyout pagetable sp (ptr_bytes (ustack @ [0]) 0) ((of_nat argc + 1) * 8)) (\<lambda>r.
       if r < 0 then exec_bad pagetable sz1 None else
       seq (stmts
        [set_tf p TF_a1 sp,
         upd_proc p (\<lambda>q. q\<lparr>p_name := safestrcpy (p_name q) (of_chars (last_elem path path)) 16\<rparr>),
         upd_proc p (\<lambda>q. q\<lparr>p_pagetable := pagetable, p_sz := sz1\<rparr>),
         set_tf p TF_epc (e_entry elf),
         set_tf p TF_sp sp,
         proc_freepagetable (p_pagetable q) oldsz])
       (ret (int argc)))))))"

definition exec :: "u8 list \<Rightarrow> u64 list \<Rightarrow> ('x fs_st_scheme, int) kop" where
  "exec path argv =
     bnd curproc (\<lambda>p.
     seq begin_op
     (bnd (namei path) (\<lambda>ipo.
     case ipo of None \<Rightarrow> seq end_op (ret (-1))
     | Some ip \<Rightarrow>
       seq (ilock (Some ip))
       (bnd (read_obj ip 0 64) (\<lambda>(r, d).
       if r \<noteq> 64 then exec_bad 0 0 (Some ip) else
       let elf = elf_get d in
       if e_magic elf \<noteq> ELF_MAGIC then exec_bad 0 0 (Some ip) else
       bnd (proc_pagetable p) (\<lambda>pagetable.
       if pagetable = 0 then exec_bad 0 0 (Some ip) else
       bnd (load_segments ip pagetable elf) (\<lambda>(ok, sz).
       if \<not> ok then exec_bad pagetable sz (Some ip) else
       seq (iunlockput ip)
       (seq end_op
       (exec_commit p path argv elf pagetable sz)))))))))"

end
