(* ===== verification/Sysarg.thy ===== *)
theory Sysarg
  imports Exec
begin

text \<open>
  Fetching system call arguments, the first half of \<^verbatim>\<open>kernel/syscall.c\<close>. Arguments are in the
  argument registers saved in the trap frame; strings and addresses are read from user memory.
\<close>

definition fetchaddr :: "u64 \<Rightarrow> ('x proc_st_scheme, int \<times> u64) kop" where
  "fetchaddr addr =
     bnd curproc (\<lambda>p.
     bnd (get_proc p) (\<lambda>q.
     if addr \<ge> p_sz q \<or> addr + 8 > p_sz q then ret (-1, 0) else
     bnd (copyin (p_pagetable q) (\<lambda>_. 0) addr 8) (\<lambda>(r, d).
     ret (if r \<noteq> 0 then -1 else 0, ld64 d 0))))"

text \<open>The result is the return value and the buffer.\<close>

definition fetchstr :: "u64 \<Rightarrow> bytes \<Rightarrow> i32 \<Rightarrow> ('x proc_st_scheme, int \<times> bytes) kop" where
  "fetchstr addr buf maxlen =
     bnd curproc (\<lambda>p.
     bnd (get_proc p) (\<lambda>q.
     bnd (copyinstr (p_pagetable q) buf addr (scast maxlen)) (\<lambda>(r, d).
     if r < 0 then ret (-1, d) else
     bnd (kstrlen d) (\<lambda>len. ret (int len, d)))))"

definition argraw :: "nat \<Rightarrow> ('x proc_st_scheme, u64) kop" where
  "argraw n =
     bnd curproc (\<lambda>p.
     if n = 0 then get_tf p TF_a0
     else if n = 1 then get_tf p TF_a1
     else if n = 2 then get_tf p TF_a2
     else if n = 3 then get_tf p TF_a3
     else if n = 4 then get_tf p TF_a4
     else if n = 5 then get_tf p TF_a5
     else panic ''argraw'')"

definition argint :: "nat \<Rightarrow> ('x proc_st_scheme, i32) kop" where
  "argint n = bnd (argraw n) (\<lambda>v. ret (ucast v))"

definition argaddr :: "nat \<Rightarrow> ('x proc_st_scheme, u64) kop" where
  "argaddr n = argraw n"

definition argstr :: "nat \<Rightarrow> bytes \<Rightarrow> i32 \<Rightarrow> ('x proc_st_scheme, int \<times> bytes) kop" where
  "argstr n buf maxlen = bnd (argaddr n) (\<lambda>addr. fetchstr addr buf maxlen)"

text \<open>A path argument: \<open>None\<close> if it cannot be fetched, else its characters.\<close>

abbreviation MAXPATH :: "'a::numeral" where "MAXPATH \<equiv> 128"

definition chars_of :: "bytes \<Rightarrow> nat \<Rightarrow> u8 list" where
  "chars_of d n = takeWhile (\<lambda>c. c \<noteq> 0) (map d [0..<n])"

definition argpath :: "nat \<Rightarrow> ('x proc_st_scheme, u8 list option) kop" where
  "argpath n =
     bnd (argstr n (\<lambda>_. 0) MAXPATH) (\<lambda>(r, d).
     ret (if r < 0 then None else Some (chars_of d MAXPATH)))"

end
