(* ===== verification/Virtio.thy ===== *)
theory Virtio
  imports ProcLife
begin

text \<open>
  The disk driver, \<^verbatim>\<open>kernel/virtio_disk.c\<close>: descriptor allocation, formatting a request in the
  descriptor table and the available ring, and the completion interrupt. The device itself is not
  part of the repository; its registers are read from an arbitrary map.
\<close>

section \<open>State\<close>

abbreviation NUM :: "'a::numeral" where "NUM \<equiv> 8"
abbreviation VRING_DESC_F_NEXT :: u16 where "VRING_DESC_F_NEXT \<equiv> 1"
abbreviation VRING_DESC_F_WRITE :: u16 where "VRING_DESC_F_WRITE \<equiv> 2"
abbreviation VIRTIO_BLK_T_IN :: u32 where "VIRTIO_BLK_T_IN \<equiv> 0"
abbreviation VIRTIO_BLK_T_OUT :: u32 where "VIRTIO_BLK_T_OUT \<equiv> 1"

text \<open>
  The addresses the driver puts in descriptors: a request header \<^verbatim>\<open>&disk.ops[i]\<close>, the data of
  buffer \<open>b\<close>, and a status byte \<^verbatim>\<open>&disk.info[i].status\<close>.
\<close>

datatype daddr = A_null | A_op nat | A_data nat | A_status nat

record virtq_desc =
  vd_addr :: daddr
  vd_len :: u32
  vd_flags :: u16
  vd_next :: u16

record virtio_blk_req =
  vr_type :: u32
  vr_reserved :: u32
  vr_sector :: u64

record vdisk =
  v_desc :: "nat \<Rightarrow> virtq_desc"
  v_avail_ring :: "nat \<Rightarrow> u16"
  v_avail_idx :: u16
  v_used_ring :: "nat \<Rightarrow> u32"
  v_used_devidx :: u16
  v_free :: "nat \<Rightarrow> bool"
  v_used_idx :: u16
  v_info_b :: "nat \<Rightarrow> nat option"
  v_info_status :: "nat \<Rightarrow> u8"
  v_ops :: "nat \<Rightarrow> virtio_blk_req"
  v_pages :: "u64 list"

text \<open>\<open>v_regs\<close>: what reading a control register returns; \<open>v_wlog\<close>: the register writes so far.\<close>

record vdisk_st = file_st +
  vdisk :: vdisk
  v_regs :: "nat \<Rightarrow> u32"
  v_wlog :: "(nat \<times> u32) list"

definition upd_vd :: "(vdisk \<Rightarrow> vdisk) \<Rightarrow> ('x vdisk_st_scheme, unit) kop" where
  "upd_vd f = modify (\<lambda>s. s\<lparr>vdisk := f (vdisk s)\<rparr>)"

definition reg_write :: "nat \<Rightarrow> u32 \<Rightarrow> ('x vdisk_st_scheme, unit) kop" where
  "reg_write r v = modify (\<lambda>s. s\<lparr>v_wlog := v_wlog s @ [(r, v)]\<rparr>)"

definition reg_read :: "nat \<Rightarrow> ('x vdisk_st_scheme, u32) kop" where
  "reg_read r = gets (\<lambda>s. v_regs s r)"

section \<open>Initialisation\<close>

definition negotiate :: "u32 \<Rightarrow> u32" where
  "negotiate features = features AND NOT (push_bit 5 1) AND NOT (push_bit 7 1)
     AND NOT (push_bit 11 1) AND NOT (push_bit 12 1) AND NOT (push_bit 27 1)
     AND NOT (push_bit 29 1) AND NOT (push_bit 28 1)"

definition virtio_disk_init :: "('x vdisk_st_scheme, unit) kop" where
  "virtio_disk_init =
     seq (initlock L_vdisk ''virtio_disk'')
     (bnd (gets v_regs) (\<lambda>R.
     if R 0 \<noteq> 0x74726976 \<or> R 4 \<noteq> 2 \<or> R 8 \<noteq> 2 \<or> R 0xc \<noteq> 0x554d4551 then
       panic ''could not find virtio disk''
     else
     seq (stmts
      [reg_write 0x70 0,
       reg_write 0x70 1,
       reg_write 0x70 (1 OR 2),
       bnd (reg_read 0x10) (\<lambda>f. reg_write 0x20 (negotiate f)),
       reg_write 0x70 (1 OR 2 OR 8)])
     (bnd (reg_read 0x70) (\<lambda>status.
     if status AND 8 = 0 then panic ''virtio disk FEATURES_OK unset'' else
     seq (reg_write 0x30 0)
     (bnd (reg_read 0x44) (\<lambda>ready.
     if ready \<noteq> 0 then panic ''virtio disk should not be ready'' else
     bnd (reg_read 0x34) (\<lambda>mx.
     if mx = 0 then panic ''virtio disk has no queue 0''
     else if mx < NUM then panic ''virtio disk max queue too short'' else
     bnd kalloc (\<lambda>desc.
     bnd kalloc (\<lambda>avail.
     bnd kalloc (\<lambda>used.
     if desc = 0 \<or> avail = 0 \<or> used = 0 then panic ''virtio disk kalloc'' else
     stmts
      [kmemset desc 0 PGSIZE,
       kmemset avail 0 PGSIZE,
       kmemset used 0 PGSIZE,
       upd_vd (\<lambda>v. v\<lparr>v_desc := (\<lambda>_. \<lparr>vd_addr = A_null, vd_len = 0, vd_flags = 0, vd_next = 0\<rparr>),
         v_avail_ring := (\<lambda>_. 0), v_avail_idx := 0, v_used_ring := (\<lambda>_. 0), v_used_devidx := 0,
         v_pages := [desc, avail, used]\<rparr>),
       reg_write 0x38 NUM,
       reg_write 0x80 (ucast desc),
       reg_write 0x84 (ucast (drop_bit 32 desc)),
       reg_write 0x90 (ucast avail),
       reg_write 0x94 (ucast (drop_bit 32 avail)),
       reg_write 0xa0 (ucast used),
       reg_write 0xa4 (ucast (drop_bit 32 used)),
       reg_write 0x44 1,
       kfor [0..<NUM] (\<lambda>i. upd_vd (\<lambda>v. v\<lparr>v_free := (v_free v)(i := True)\<rparr>)),
       reg_write 0x70 (status OR 4)]))))))))))"

section \<open>Descriptors\<close>

definition alloc_desc :: "('x vdisk_st_scheme, nat option) kop" where
  "alloc_desc =
     kfind [0..<NUM] (\<lambda>i.
       bnd (gets vdisk) (\<lambda>v.
       if v_free v i then
         seq (upd_vd (\<lambda>v. v\<lparr>v_free := (v_free v)(i := False)\<rparr>)) (ret (Some i))
       else ret None))"

definition free_desc :: "nat \<Rightarrow> ('x vdisk_st_scheme, unit) kop" where
  "free_desc i =
     (if i \<ge> NUM then panic ''free_desc 1'' else
      bnd (gets vdisk) (\<lambda>v.
      if v_free v i then panic ''free_desc 2'' else
      stmts
       [upd_vd (\<lambda>v. v\<lparr>v_desc := (v_desc v)(i := \<lparr>vd_addr = A_null, vd_len = 0, vd_flags = 0, vd_next = 0\<rparr>),
          v_free := (v_free v)(i := True)\<rparr>),
        wakeup Ch_disk_free]))"

text \<open>A chain has at most \<open>NUM\<close> descriptors: freeing one twice panics.\<close>

definition free_chain :: "nat \<Rightarrow> ('x vdisk_st_scheme, unit) kop" where
  "free_chain i =
     kiter (NUM + 1) (\<lambda>i.
       bnd (gets vdisk) (\<lambda>v.
       let flag = vd_flags (v_desc v i); nxt = vd_next (v_desc v i) in
       seq (free_desc i)
       (if flag AND VRING_DESC_F_NEXT \<noteq> 0 then ret (Inl (unat nxt)) else ret (Inr ()))))
     i"

definition alloc3_desc :: "('x vdisk_st_scheme, (nat \<times> nat \<times> nat) option) kop" where
  "alloc3_desc =
     bnd alloc_desc (\<lambda>a.
     case a of None \<Rightarrow> ret None | Some i0 \<Rightarrow>
     bnd alloc_desc (\<lambda>a.
     case a of None \<Rightarrow> seq (free_desc i0) (ret None) | Some i1 \<Rightarrow>
     bnd alloc_desc (\<lambda>a.
     case a of None \<Rightarrow> seq (free_desc i0) (seq (free_desc i1) (ret None)) | Some i2 \<Rightarrow>
     ret (Some (i0, i1, i2)))))"

section \<open>Requests\<close>

text \<open>Formatting a request for buffer \<open>b\<close> in the descriptors \<open>i0\<close>, \<open>i1\<close>, \<open>i2\<close>.\<close>

definition format_req :: "nat \<Rightarrow> bool \<Rightarrow> u64 \<Rightarrow> nat \<Rightarrow> nat \<Rightarrow> nat \<Rightarrow> vdisk \<Rightarrow> vdisk" where
  "format_req b wr sector i0 i1 i2 v =
     v\<lparr>v_desc := (v_desc v)
         (i0 := \<lparr>vd_addr = A_op i0, vd_len = 16, vd_flags = VRING_DESC_F_NEXT, vd_next = of_nat i1\<rparr>,
          i1 := \<lparr>vd_addr = A_data b, vd_len = BSIZE,
                 vd_flags = (if wr then 0 else VRING_DESC_F_WRITE) OR VRING_DESC_F_NEXT,
                 vd_next = of_nat i2\<rparr>,
          i2 := \<lparr>vd_addr = A_status i0, vd_len = 1, vd_flags = VRING_DESC_F_WRITE, vd_next = 0\<rparr>),
       v_info_b := (v_info_b v)(i0 := Some b),
       v_info_status := (v_info_status v)(i0 := 0xff),
       v_ops := (v_ops v)(i0 := \<lparr>vr_type = (if wr then VIRTIO_BLK_T_OUT else VIRTIO_BLK_T_IN),
                                 vr_reserved = 0, vr_sector = sector\<rparr>)\<rparr>"

text \<open>
  \<open>virtio_disk_rw\<close> in the parts between its sleeps: from the descriptor loop up to the notification,
  the wait for completion, and the release of the descriptors.
\<close>

definition disk_wait :: "nat \<Rightarrow> nat \<Rightarrow> ('x vdisk_st_scheme, unit) kop" where
  "disk_wait b i0 =
     bnd (get_buf b) (\<lambda>x.
     if b_disk x then sleep (Ch_buf b) L_vdisk else
     stmts
      [upd_vd (\<lambda>v. v\<lparr>v_info_b := (v_info_b v)(i0 := None)\<rparr>),
       free_chain i0,
       release L_vdisk])"

text \<open>\<open>Inl\<close>: no descriptors, the caller sleeps; \<open>Inr i0\<close>: the request was queued with head \<open>i0\<close>.\<close>

definition disk_submit :: "nat \<Rightarrow> bool \<Rightarrow> ('x vdisk_st_scheme, nat option) kop" where
  "disk_submit b wr =
     bnd (get_buf b) (\<lambda>x.
     let sector = ucast (b_blockno x * 2) in
     bnd alloc3_desc (\<lambda>r.
     case r of None \<Rightarrow> ret None
     | Some (i0, i1, i2) \<Rightarrow>
       seq (stmts
        [upd_vd (format_req b wr sector i0 i1 i2),
         upd_buf b (\<lambda>x. x\<lparr>b_disk := True\<rparr>),
         upd_vd (\<lambda>v. v\<lparr>v_avail_ring := (v_avail_ring v)(unat (v_avail_idx v mod NUM) := of_nat i0)\<rparr>),
         upd_vd (\<lambda>v. v\<lparr>v_avail_idx := v_avail_idx v + 1\<rparr>),
         reg_write 0x50 0])
       (ret (Some i0))))"

definition virtio_disk_rw_loop :: "nat \<Rightarrow> bool \<Rightarrow> ('x vdisk_st_scheme, unit) kop" where
  "virtio_disk_rw_loop b wr =
     bnd (disk_submit b wr) (\<lambda>r.
     case r of None \<Rightarrow> sleep Ch_disk_free L_vdisk
     | Some i0 \<Rightarrow> disk_wait b i0)"

definition virtio_disk_rw :: "nat \<Rightarrow> bool \<Rightarrow> ('x vdisk_st_scheme, unit) kop" where
  "virtio_disk_rw b wr = seq (acquire L_vdisk) (virtio_disk_rw_loop b wr)"

text \<open>At most \<^verbatim>\<open>2^16\<close> entries separate the two 16-bit indices.\<close>

definition intr_step :: "('x vdisk_st_scheme, unit + unit) kop" where
  "intr_step =
     bnd (gets vdisk) (\<lambda>v.
     if v_used_idx v = v_used_devidx v then ret (Inr ()) else
     let id = unat (v_used_ring v (unat (v_used_idx v mod NUM))) in
     if v_info_status v id \<noteq> 0 then panic ''virtio_disk_intr status'' else
     (case v_info_b v id of None \<Rightarrow> panic ''kerneltrap''
      | Some b \<Rightarrow>
        seq (stmts
         [upd_buf b (\<lambda>x. x\<lparr>b_disk := False\<rparr>),
          wakeup (Ch_buf b),
          upd_vd (\<lambda>v. v\<lparr>v_used_idx := v_used_idx v + 1\<rparr>)])
        (ret (Inl ()))))"

definition virtio_disk_intr :: "('x vdisk_st_scheme, unit) kop" where
  "virtio_disk_intr =
     stmts
      [acquire L_vdisk,
       bnd (reg_read 0x60) (\<lambda>st. reg_write 0x64 (st AND 3)),
       kiter 65537 (\<lambda>_. intr_step) (),
       release L_vdisk]"

end
