(* ===== verification/Sysfile.thy ===== *)
theory Sysfile
  imports Sysarg Virtio
begin

text \<open>
  The file system calls, \<^verbatim>\<open>kernel/sysfile.c\<close>. A handler returns the value that goes into \<open>a0\<close>.
\<close>

section \<open>File descriptors\<close>

definition argfd :: "nat \<Rightarrow> ('x file_st_scheme, (nat \<times> nat) option) kop" where
  "argfd n =
     bnd (argint n) (\<lambda>fd.
     if sint fd < 0 \<or> sint fd \<ge> NOFILE then ret None else
     bnd curproc (\<lambda>p.
     bnd (get_proc p) (\<lambda>q.
     ret (case p_ofile q (unat fd) of None \<Rightarrow> None | Some f \<Rightarrow> Some (unat fd, f)))))"

definition fdalloc :: "nat \<Rightarrow> ('x file_st_scheme, int) kop" where
  "fdalloc f =
     bnd curproc (\<lambda>p.
     bnd (kfind [0..<NOFILE] (\<lambda>fd.
       bnd (get_proc p) (\<lambda>q.
       if p_ofile q fd = None then
         seq (upd_proc p (\<lambda>q. q\<lparr>p_ofile := (p_ofile q)(fd \<mapsto> f)\<rparr>)) (ret (Some (int fd)))
       else ret None))) (\<lambda>r.
     ret (case r of None \<Rightarrow> -1 | Some fd \<Rightarrow> fd)))"

definition sys_dup :: "('x file_st_scheme, u64) kop" where
  "sys_dup =
     bnd (argfd 0) (\<lambda>r.
     case r of None \<Rightarrow> ret (-1) | Some (_, f) \<Rightarrow>
     bnd (fdalloc f) (\<lambda>fd.
     if fd < 0 then ret (-1) else
     bnd (filedup f) (\<lambda>_. ret (of_int fd))))"

definition sys_read :: "('x file_st_scheme, u64) kop" where
  "sys_read =
     bnd (argaddr 1) (\<lambda>p.
     bnd (argint 2) (\<lambda>n.
     bnd (argfd 0) (\<lambda>r.
     case r of None \<Rightarrow> ret (-1) | Some (_, f) \<Rightarrow>
     bnd (fileread f p n) (\<lambda>v. ret (of_int v)))))"

definition sys_write :: "('x file_st_scheme, u64) kop" where
  "sys_write =
     bnd (argaddr 1) (\<lambda>p.
     bnd (argint 2) (\<lambda>n.
     bnd (argfd 0) (\<lambda>r.
     case r of None \<Rightarrow> ret (-1) | Some (_, f) \<Rightarrow>
     bnd (filewrite f p n) (\<lambda>v. ret (of_int v)))))"

definition clear_fd :: "nat \<Rightarrow> ('x file_st_scheme, unit) kop" where
  "clear_fd fd = bnd curproc (\<lambda>p. upd_proc p (\<lambda>q. q\<lparr>p_ofile := (p_ofile q)(fd := None)\<rparr>))"

definition sys_close :: "('x file_st_scheme, u64) kop" where
  "sys_close =
     bnd (argfd 0) (\<lambda>r.
     case r of None \<Rightarrow> ret (-1) | Some (fd, f) \<Rightarrow>
     seq (clear_fd fd) (seq (fileclose f) (ret 0)))"

definition sys_fstat :: "('x file_st_scheme, u64) kop" where
  "sys_fstat =
     bnd (argaddr 1) (\<lambda>st.
     bnd (argfd 0) (\<lambda>r.
     case r of None \<Rightarrow> ret (-1) | Some (_, f) \<Rightarrow>
     bnd (filestat f st) (\<lambda>v. ret (of_int v))))"

section \<open>Directory entries\<close>

text \<open>The error exit of \<open>sys_link\<close>: undo the increment of the link count.\<close>

definition link_bad :: "nat \<Rightarrow> ('x file_st_scheme, u64) kop" where
  "link_bad ip =
     seq (stmts
      [ilock (Some ip),
       upd_inode ip (\<lambda>i. i\<lparr>i_nlink := i_nlink i - 1\<rparr>),
       iupdate ip,
       iunlockput ip,
       end_op])
     (ret (-1))"

definition sys_link :: "('x file_st_scheme, u64) kop" where
  "sys_link =
     bnd (argpath 0) (\<lambda>oldp.
     case oldp of None \<Rightarrow> ret (-1) | Some old \<Rightarrow>
     bnd (argpath 1) (\<lambda>newp.
     case newp of None \<Rightarrow> ret (-1) | Some new \<Rightarrow>
     seq begin_op
     (bnd (namei old) (\<lambda>ipo.
     case ipo of None \<Rightarrow> seq end_op (ret (-1)) | Some ip \<Rightarrow>
     seq (ilock (Some ip))
     (bnd (get_inode ip) (\<lambda>i.
     if i_type i = T_DIR then seq (iunlockput ip) (seq end_op (ret (-1))) else
     seq (stmts
      [upd_inode ip (\<lambda>i. i\<lparr>i_nlink := i_nlink i + 1\<rparr>),
       iupdate ip,
       iunlock (Some ip)])
     (bnd (nameiparent new (\<lambda>_. 0)) (\<lambda>(dpo, name).
     case dpo of None \<Rightarrow> link_bad ip | Some dp \<Rightarrow>
     seq (ilock (Some dp))
     (bnd (get_inode dp) (\<lambda>d.
     bnd (get_inode ip) (\<lambda>i.
     bnd (if i_dev d \<noteq> i_dev i then ret (-1) else dirlink dp name (i_inum i)) (\<lambda>r.
     if r < 0 then seq (iunlockput dp) (link_bad ip) else
     seq (stmts [iunlockput dp, iput ip, end_op]) (ret 0)))))))))))))"

text \<open>The directory has at most \<^verbatim>\<open>size/16 + 1\<close> entries.\<close>

definition isdirempty :: "nat \<Rightarrow> ('x file_st_scheme, bool) kop" where
  "isdirempty dp =
     bnd (get_inode dp) (\<lambda>d.
     kiter (unat (i_size d) div 16 + 2) (\<lambda>(off, de).
       bnd (get_inode dp) (\<lambda>d.
       if \<not> off < i_size d then ret (Inr True) else
       bnd (read_de dp de off ''isdirempty: readi'') (\<lambda>de.
       if de_inum de \<noteq> 0 then ret (Inr False) else ret (Inl (off + 16, de)))))
     (32, \<lambda>_. 0))"

definition sys_unlink :: "('x file_st_scheme, u64) kop" where
  "sys_unlink =
     bnd (argpath 0) (\<lambda>pathp.
     case pathp of None \<Rightarrow> ret (-1) | Some path \<Rightarrow>
     seq begin_op
     (bnd (nameiparent path (\<lambda>_. 0)) (\<lambda>(dpo, name).
     case dpo of None \<Rightarrow> seq end_op (ret (-1)) | Some dp \<Rightarrow>
     seq (ilock (Some dp))
     (let bad = seq (iunlockput dp) (seq end_op (ret (-1))) in
     if namecmp name (lit ''.'') = 0 \<or> namecmp name (lit ''..'') = 0 then bad else
     bnd (dirlookup dp name) (\<lambda>r.
     case r of None \<Rightarrow> bad | Some (ip, off) \<Rightarrow>
     seq (ilock (Some ip))
     (bnd (get_inode ip) (\<lambda>i.
     if sint (i_nlink i) < 1 then panic ''unlink: nlink < 1'' else
     bnd (if i_type i = T_DIR then isdirempty ip else ret True) (\<lambda>emp.
     if \<not> emp then seq (iunlockput ip) bad else
     bnd (writei dp (K_obj (\<lambda>_. 0)) off 16) (\<lambda>w.
     if w \<noteq> 16 then panic ''unlink: writei'' else
     bnd (get_inode ip) (\<lambda>i.
     seq (stmts
      [kwhen (i_type i = T_DIR)
        (stmts [upd_inode dp (\<lambda>d. d\<lparr>i_nlink := i_nlink d - 1\<rparr>), iupdate dp]),
       iunlockput dp,
       upd_inode ip (\<lambda>i. i\<lparr>i_nlink := i_nlink i - 1\<rparr>),
       iupdate ip,
       iunlockput ip,
       end_op])
     (ret 0)))))))))))"

section \<open>Creating and opening\<close>

definition create :: "u8 list \<Rightarrow> i16 \<Rightarrow> i16 \<Rightarrow> i16 \<Rightarrow> ('x file_st_scheme, nat option) kop" where
  "create path type major minor =
     bnd (nameiparent path (\<lambda>_. 0)) (\<lambda>(dpo, name).
     case dpo of None \<Rightarrow> ret None | Some dp \<Rightarrow>
     seq (ilock (Some dp))
     (bnd (dirlookup dp name) (\<lambda>r.
     case r of Some (ip, _) \<Rightarrow>
       seq (iunlockput dp)
       (seq (ilock (Some ip))
       (bnd (get_inode ip) (\<lambda>i.
       if type = T_FILE \<and> (i_type i = T_FILE \<or> i_type i = T_DEVICE) then ret (Some ip)
       else seq (iunlockput ip) (ret None))))
     | None \<Rightarrow>
     bnd (get_inode dp) (\<lambda>d.
     bnd (ialloc (i_dev d) type) (\<lambda>ipo.
     case ipo of None \<Rightarrow> seq (iunlockput dp) (ret None) | Some ip \<Rightarrow>
     seq (stmts
      [ilock (Some ip),
       upd_inode ip (\<lambda>i. i\<lparr>i_major := major, i_minor := minor, i_nlink := 1\<rparr>),
       iupdate ip])
     (bnd (get_inode ip) (\<lambda>i.
     bnd (if type = T_DIR then
            bnd (dirlink ip (lit ''.'') (i_inum i)) (\<lambda>r.
            if r < 0 then ret r else dirlink ip (lit ''..'') (i_inum d))
          else ret 0) (\<lambda>r1.
     bnd (if r1 < 0 then ret r1 else dirlink dp name (i_inum i)) (\<lambda>r2.
     if r2 < 0 then
       seq (stmts
        [upd_inode ip (\<lambda>i. i\<lparr>i_nlink := 0\<rparr>),
         iupdate ip,
         iunlockput ip,
         iunlockput dp])
       (ret None)
     else
       seq (stmts
        [kwhen (type = T_DIR)
          (stmts [upd_inode dp (\<lambda>d. d\<lparr>i_nlink := i_nlink d + 1\<rparr>), iupdate dp]),
         iunlockput dp])
       (ret (Some ip)))))))))))"

abbreviation O_RDONLY :: i32 where "O_RDONLY \<equiv> 0"
abbreviation O_WRONLY :: i32 where "O_WRONLY \<equiv> 1"
abbreviation O_RDWR :: i32 where "O_RDWR \<equiv> 2"
abbreviation O_CREATE :: i32 where "O_CREATE \<equiv> 0x200"
abbreviation O_TRUNC :: i32 where "O_TRUNC \<equiv> 0x400"

text \<open>The inode to open, locked, or \<open>None\<close> after an error.\<close>

definition open_inode :: "u8 list \<Rightarrow> i32 \<Rightarrow> ('x file_st_scheme, nat option) kop" where
  "open_inode path omode =
     (if omode AND O_CREATE \<noteq> 0 then
        bnd (create path T_FILE 0 0) (\<lambda>ipo.
        case ipo of None \<Rightarrow> seq end_op (ret None) | Some ip \<Rightarrow> ret (Some ip))
      else
        bnd (namei path) (\<lambda>ipo.
        case ipo of None \<Rightarrow> seq end_op (ret None) | Some ip \<Rightarrow>
        seq (ilock (Some ip))
        (bnd (get_inode ip) (\<lambda>i.
        if i_type i = T_DIR \<and> omode \<noteq> O_RDONLY then
          seq (iunlockput ip) (seq end_op (ret None))
        else ret (Some ip)))))"

text \<open>The fields of a newly opened file.\<close>

definition open_file :: "i32 \<Rightarrow> nat \<Rightarrow> inode \<Rightarrow> kfile \<Rightarrow> kfile" where
  "open_file omode ip i f =
     (let f = (if i_type i = T_DEVICE then f\<lparr>f_type := FD_DEVICE, f_major := i_major i\<rparr>
               else f\<lparr>f_type := FD_INODE, f_off := 0\<rparr>)
      in f\<lparr>f_ip := Some ip, f_readable := (omode AND O_WRONLY = 0),
           f_writable := (omode AND O_WRONLY \<noteq> 0 \<or> omode AND O_RDWR \<noteq> 0)\<rparr>)"

definition sys_open :: "('x file_st_scheme, u64) kop" where
  "sys_open =
     bnd (argint 1) (\<lambda>omode.
     bnd (argpath 0) (\<lambda>pathp.
     case pathp of None \<Rightarrow> ret (-1) | Some path \<Rightarrow>
     seq begin_op
     (bnd (open_inode path omode) (\<lambda>ipo.
     case ipo of None \<Rightarrow> ret (-1) | Some ip \<Rightarrow>
     bnd (get_inode ip) (\<lambda>i.
     let bad = seq (iunlockput ip) (seq end_op (ret (-1))) in
     if i_type i = T_DEVICE \<and> (sint (i_major i) < 0 \<or> sint (i_major i) \<ge> NDEV) then bad else
     bnd filealloc (\<lambda>fo.
     case fo of None \<Rightarrow> bad | Some f \<Rightarrow>
     bnd (fdalloc f) (\<lambda>fd.
     if fd < 0 then seq (fileclose f) bad else
     seq (stmts
      [upd_file f (open_file omode ip i),
       kwhen (omode AND O_TRUNC \<noteq> 0 \<and> i_type i = T_FILE) (itrunc ip),
       iunlock (Some ip),
       end_op])
     (ret (of_int fd)))))))))"

text \<open>Create an inode for \<open>sys_mkdir\<close> and \<open>sys_mknod\<close>, then release it.\<close>

definition create_only :: "u8 list option \<Rightarrow> i16 \<Rightarrow> i16 \<Rightarrow> i16 \<Rightarrow> ('x file_st_scheme, u64) kop" where
  "create_only pathp type major minor =
     (case pathp of None \<Rightarrow> seq end_op (ret (-1)) | Some path \<Rightarrow>
      bnd (create path type major minor) (\<lambda>ipo.
      case ipo of None \<Rightarrow> seq end_op (ret (-1)) | Some ip \<Rightarrow>
      seq (iunlockput ip) (seq end_op (ret 0))))"

definition sys_mkdir :: "('x file_st_scheme, u64) kop" where
  "sys_mkdir =
     seq begin_op (bnd (argpath 0) (\<lambda>pathp. create_only pathp T_DIR 0 0))"

definition sys_mknod :: "('x file_st_scheme, u64) kop" where
  "sys_mknod =
     seq begin_op
     (bnd (argint 1) (\<lambda>major.
     bnd (argint 2) (\<lambda>minor.
     bnd (argpath 0) (\<lambda>pathp. create_only pathp T_DEVICE (ucast major) (ucast minor)))))"

definition sys_chdir :: "('x file_st_scheme, u64) kop" where
  "sys_chdir =
     bnd curproc (\<lambda>p.
     seq begin_op
     (bnd (argpath 0) (\<lambda>pathp.
     case pathp of None \<Rightarrow> seq end_op (ret (-1)) | Some path \<Rightarrow>
     bnd (namei path) (\<lambda>ipo.
     case ipo of None \<Rightarrow> seq end_op (ret (-1)) | Some ip \<Rightarrow>
     seq (ilock (Some ip))
     (bnd (get_inode ip) (\<lambda>i.
     if i_type i \<noteq> T_DIR then seq (iunlockput ip) (seq end_op (ret (-1))) else
     seq (stmts
      [iunlock (Some ip),
       bnd (get_proc p) (\<lambda>q. case p_cwd q of None \<Rightarrow> panic ''kerneltrap'' | Some c \<Rightarrow> iput c),
       end_op,
       upd_proc p (\<lambda>q. q\<lparr>p_cwd := Some ip\<rparr>)])
     (ret 0)))))))"

section \<open>exec and pipe\<close>

text \<open>The argument loop of \<open>sys_exec\<close>: whether it succeeded, and the pages allocated so far.\<close>

definition fetch_argv :: "u64 \<Rightarrow> ('x file_st_scheme, bool \<times> u64 list) kop" where
  "fetch_argv uargv =
     kiter (MAXARG + 2) (\<lambda>argv.
       if length argv \<ge> MAXARG then ret (Inr (False, argv)) else
       bnd (fetchaddr (uargv + 8 * of_nat (length argv))) (\<lambda>(r, uarg).
       if r < 0 then ret (Inr (False, argv))
       else if uarg = 0 then ret (Inr (True, argv))
       else
         bnd kalloc (\<lambda>a.
         if a = 0 then ret (Inr (False, argv)) else
         bnd (kstring a) (\<lambda>buf.
         bnd (fetchstr uarg buf PGSIZE) (\<lambda>(r, d).
         seq (put_bytes a d PGSIZE)
         (if r < 0 then ret (Inr (False, argv @ [a])) else ret (Inl (argv @ [a]))))))))
     []"

definition sys_exec :: "('x file_st_scheme, u64) kop" where
  "sys_exec =
     bnd (argaddr 1) (\<lambda>uargv.
     bnd (argpath 0) (\<lambda>pathp.
     case pathp of None \<Rightarrow> ret (-1) | Some path \<Rightarrow>
     bnd (fetch_argv uargv) (\<lambda>(ok, argv).
     bnd (if ok then exec path argv else ret (-1)) (\<lambda>r.
     seq (kfor argv kfree) (ret (of_int r))))))"

definition sys_pipe :: "('x file_st_scheme, u64) kop" where
  "sys_pipe =
     bnd curproc (\<lambda>p.
     bnd (argaddr 0) (\<lambda>fdarray.
     bnd pipealloc (\<lambda>r.
     case r of None \<Rightarrow> ret (-1) | Some (rf, wfl) \<Rightarrow>
     let clear = (\<lambda>fd. upd_proc p (\<lambda>q. q\<lparr>p_ofile := (p_ofile q)(nat fd := None)\<rparr>));
         close = stmts [fileclose rf, fileclose wfl] in
     bnd (fdalloc rf) (\<lambda>fd0.
     if fd0 < 0 then seq close (ret (-1)) else
     bnd (fdalloc wfl) (\<lambda>fd1.
     if fd1 < 0 then seq (clear fd0) (seq close (ret (-1))) else
     bnd (get_proc p) (\<lambda>q.
     bnd (copyout (p_pagetable q) fdarray (bytes32 (of_int fd0)) 4) (\<lambda>r0.
     bnd (if r0 < 0 then ret r0 else copyout (p_pagetable q) (fdarray + 4) (bytes32 (of_int fd1)) 4) (\<lambda>r1.
     if r1 < 0 then seq (clear fd0) (seq (clear fd1) (seq close (ret (-1))))
     else ret 0))))))))"

end
