(* ===== verification/Syscall.thy ===== *)
theory Syscall
  imports Sysfile
begin

text \<open>
  The process system calls of \<^verbatim>\<open>kernel/sysproc.c\<close>, and the dispatcher of
  \<^verbatim>\<open>kernel/syscall.c\<close> with the system call table and tracing.
\<close>

section \<open>Process system calls\<close>

record tick_st = vdisk_st +
  ticks :: u32

definition sys_exit :: "('x file_st_scheme, u64) kop" where
  "sys_exit = bnd (argint 0) (\<lambda>n. exit n)"

definition sys_getpid :: "('x file_st_scheme, u64) kop" where
  "sys_getpid = bnd curproc (\<lambda>p. bnd (get_proc p) (\<lambda>q. ret (scast (p_pid q))))"

definition sys_fork :: "('x file_st_scheme, u64) kop" where
  "sys_fork = bnd fork (\<lambda>pid. ret (scast pid))"

definition sys_wait :: "('x file_st_scheme, u64) kop" where
  "sys_wait = bnd (argaddr 0) (\<lambda>p. bnd (wait p) (\<lambda>pid. ret (scast pid)))"

definition sys_sbrk :: "('x file_st_scheme, u64) kop" where
  "sys_sbrk =
     bnd (argint 0) (\<lambda>n.
     bnd curproc (\<lambda>p.
     bnd (get_proc p) (\<lambda>q.
     let addr = p_sz q in
     bnd (growproc n) (\<lambda>r.
     if r < 0 then ret (-1) else ret addr))))"

text \<open>The loop of \<open>sys_sleep\<close> with \<open>tickslock\<close> held; a woken thread continues here.\<close>

definition sys_sleep_loop :: "u32 \<Rightarrow> i32 \<Rightarrow> ('x tick_st_scheme, u64) kop" where
  "sys_sleep_loop ticks0 n =
     bnd (gets ticks) (\<lambda>t.
     if t - ticks0 < n then
       bnd curproc (\<lambda>p.
       bnd (killed p) (\<lambda>k.
       if k then seq (release L_ticks) (ret (-1)) else sleep Ch_ticks L_ticks))
     else seq (release L_ticks) (ret 0))"

definition sys_sleep :: "('x tick_st_scheme, u64) kop" where
  "sys_sleep =
     bnd (argint 0) (\<lambda>n.
     let n = (if sint n < 0 then 0 else n) in
     seq (acquire L_ticks)
     (bnd (gets ticks) (\<lambda>ticks0. sys_sleep_loop ticks0 n)))"

definition sys_kill :: "('x file_st_scheme, u64) kop" where
  "sys_kill = bnd (argint 0) (\<lambda>pid. bnd (kill pid) (\<lambda>r. ret (of_int r)))"

definition sys_uptime :: "('x tick_st_scheme, u64) kop" where
  "sys_uptime =
     seq (acquire L_ticks)
     (bnd (gets ticks) (\<lambda>xticks.
     seq (release L_ticks) (ret (ucast xticks))))"

definition sys_trace :: "('x file_st_scheme, u64) kop" where
  "sys_trace =
     bnd (argint 0) (\<lambda>msk.
     bnd curproc (\<lambda>p.
     seq (upd_proc p (\<lambda>q. q\<lparr>p_trace_mask := msk\<rparr>)) (ret 0)))"

section \<open>Dispatch\<close>

definition syscall_names :: "string list" where
  "syscall_names =
    ['''', ''fork'', ''exit'', ''wait'', ''pipe'', ''read'', ''kill'', ''exec'', ''fstat'', ''chdir'',
     ''dup'', ''getpid'', ''sbrk'', ''sleep'', ''uptime'', ''open'', ''write'', ''mknod'', ''unlink'',
     ''link'', ''mkdir'', ''close'', ''trace'']"

text \<open>The table \<^verbatim>\<open>syscalls[]\<close>; entry 0 is a null pointer.\<close>

definition syscalls :: "nat \<Rightarrow> ('x tick_st_scheme, u64) kop option" where
  "syscalls num =
    (if num = 1 then Some sys_fork
     else if num = 2 then Some sys_exit
     else if num = 3 then Some sys_wait
     else if num = 4 then Some sys_pipe
     else if num = 5 then Some sys_read
     else if num = 6 then Some sys_kill
     else if num = 7 then Some sys_exec
     else if num = 8 then Some sys_fstat
     else if num = 9 then Some sys_chdir
     else if num = 10 then Some sys_dup
     else if num = 11 then Some sys_getpid
     else if num = 12 then Some sys_sbrk
     else if num = 13 then Some sys_sleep
     else if num = 14 then Some sys_uptime
     else if num = 15 then Some sys_open
     else if num = 16 then Some sys_write
     else if num = 17 then Some sys_mknod
     else if num = 18 then Some sys_unlink
     else if num = 19 then Some sys_link
     else if num = 20 then Some sys_mkdir
     else if num = 21 then Some sys_close
     else if num = 22 then Some sys_trace
     else None)"

text \<open>The test \<^verbatim>\<open>(p->trace_mask >> num) & 1\<close>.\<close>

definition traced :: "i32 \<Rightarrow> nat \<Rightarrow> bool" where
  "traced msk num = (signed_drop_bit num msk AND 1 \<noteq> 0)"

definition syscall :: "('x tick_st_scheme, unit) kop" where
  "syscall =
     bnd curproc (\<lambda>p.
     bnd (get_tf p TF_a7) (\<lambda>a7.
     let num = (ucast a7 :: i32) in
     case (if sint num > 0 \<and> sint num < 23 then syscalls (unat num) else None) of
       Some f \<Rightarrow>
         bnd f (\<lambda>v.
         seq (set_tf p TF_a0 v)
         (bnd (get_proc p) (\<lambda>q.
         kwhen (traced (p_trace_mask q) (unat num))
           (bnd (get_tf p TF_a0) (\<lambda>a0.
            printf (''%d: syscall %s -> %d'' @ newline)
             [A_int (p_pid q), A_str (Some (syscall_names ! unat num)), A_int (ucast a0)])))))
     | None \<Rightarrow>
         stmts
          [bnd (get_proc p) (\<lambda>q.
             printf (''%d %s: unknown sys call %d'' @ newline)
              [A_int (p_pid q), A_str (Some (name_string (p_name q))), A_int num]),
           set_tf p TF_a0 (-1)]))"

end
