(* ===== verification/Trap.thy ===== *)
theory Trap
  imports Syscall
begin

text \<open>
  Traps and interrupts, \<^verbatim>\<open>kernel/trap.c\<close>, the interrupt controller \<^verbatim>\<open>kernel/plic.c\<close>, and the
  boot sequence \<^verbatim>\<open>kernel/main.c\<close>. The trap registers are in the hart's \<open>csr\<close> record; the number
  the PLIC reports is arbitrary (\<open>irq_in\<close>).
\<close>

section \<open>State\<close>

abbreviation UART0_IRQ :: "'a::numeral" where "UART0_IRQ \<equiv> 10"
abbreviation VIRTIO0_IRQ :: "'a::{numeral}" where "VIRTIO0_IRQ \<equiv> 1"

text \<open>
  Addresses of assembly routines, the value the next claim returns, the writes to PLIC registers,
  and \<^verbatim>\<open>first\<close> of \<open>forkret\<close> and \<^verbatim>\<open>started\<close> of \<open>main\<close>.
\<close>

record trap_st = tick_st +
  a_kernelvec :: u64
  a_usertrap :: u64
  uservec_off :: u64
  userret_off :: u64
  irq_in :: i32
  plic_log :: "(u64 \<times> u32) list"
  first_run :: bool
  started :: bool

section \<open>Interrupt controller\<close>

definition plic_write :: "u64 \<Rightarrow> u32 \<Rightarrow> ('x trap_st_scheme, unit) kop" where
  "plic_write a v = modify (\<lambda>s. s\<lparr>plic_log := plic_log s @ [(a, v)]\<rparr>)"

definition PLIC_SENABLE :: "nat \<Rightarrow> u64" where
  "PLIC_SENABLE h = PLIC + 0x2080 + of_nat h * 0x100"

definition PLIC_SPRIORITY :: "nat \<Rightarrow> u64" where
  "PLIC_SPRIORITY h = PLIC + 0x201000 + of_nat h * 0x2000"

definition PLIC_SCLAIM :: "nat \<Rightarrow> u64" where
  "PLIC_SCLAIM h = PLIC + 0x201004 + of_nat h * 0x2000"

definition plicinit :: "('x trap_st_scheme, unit) kop" where
  "plicinit = stmts [plic_write (PLIC + UART0_IRQ * 4) 1, plic_write (PLIC + VIRTIO0_IRQ * 4) 1]"

definition plicinithart :: "('x trap_st_scheme, unit) kop" where
  "plicinithart =
     bnd (gets hart) (\<lambda>h. stmts
      [plic_write (PLIC_SENABLE h) (push_bit 10 1 OR push_bit 1 1),
       plic_write (PLIC_SPRIORITY h) 0])"

definition plic_claim :: "('x trap_st_scheme, i32) kop" where
  "plic_claim = gets irq_in"

definition plic_complete :: "i32 \<Rightarrow> ('x trap_st_scheme, unit) kop" where
  "plic_complete irq = bnd (gets hart) (\<lambda>h. plic_write (PLIC_SCLAIM h) irq)"

section \<open>Interrupts\<close>

definition trapinit :: "('x trap_st_scheme, unit) kop" where
  "trapinit = initlock L_ticks ''time''"

definition trapinithart :: "('x trap_st_scheme, unit) kop" where
  "trapinithart = modify (\<lambda>s. upd_csr (\<lambda>c. c\<lparr>stvec := a_kernelvec s\<rparr>) s)"

definition clockintr :: "('x tick_st_scheme, unit) kop" where
  "clockintr =
     stmts
      [acquire L_ticks,
       modify (\<lambda>s. s\<lparr>ticks := ticks s + 1\<rparr>),
       wakeup Ch_ticks,
       release L_ticks]"

text \<open>\<open>fuel\<close> bounds the input characters one UART interrupt handles (see \<open>uartintr\<close>).\<close>

definition devintr :: "nat \<Rightarrow> ('x trap_st_scheme, int) kop" where
  "devintr fuel =
     bnd (gets mycsr) (\<lambda>c.
     if scause c AND 0x8000000000000000 \<noteq> 0 \<and> scause c AND 0xff = 9 then
       bnd plic_claim (\<lambda>irq.
       seq (stmts
        [(if irq = UART0_IRQ then uartintr fuel
          else if irq = VIRTIO0_IRQ then virtio_disk_intr
          else if irq \<noteq> 0 then printf (''unexpected interrupt irq=%d'' @ newline) [A_int irq]
          else ret ()),
         kwhen (irq \<noteq> 0) (plic_complete irq)])
       (ret 1))
     else if scause c = 0x8000000000000001 then
       bnd (gets hart) (\<lambda>h.
       seq (stmts
        [kwhen (h = 0) clockintr,
         modify (upd_csr (\<lambda>c. c\<lparr>sip := sip c AND NOT 2\<rparr>))])
       (ret 2))
     else ret 0)"

section \<open>Traps from user space\<close>

text \<open>\<open>usertrapret\<close> up to the jump to \<open>userret\<close>; the result is the jump target and \<open>satp\<close>.\<close>

definition usertrapret :: "('x trap_st_scheme, u64 \<times> u64) kop" where
  "usertrapret =
     bnd curproc (\<lambda>p.
     seq intr_off
     (seq (modify (\<lambda>s. upd_csr (\<lambda>c. c\<lparr>stvec := TRAMPOLINE + uservec_off s\<rparr>) s))
     (seq (stmts
      [bnd (gets mycsr) (\<lambda>c. set_tf p TF_kernel_satp (satp c)),
       bnd (get_proc p) (\<lambda>q. set_tf p TF_kernel_sp (p_kstack q + PGSIZE)),
       bnd (gets a_usertrap) (\<lambda>a. set_tf p TF_kernel_trap a),
       bnd (gets hart) (\<lambda>h. set_tf p TF_kernel_hartid (of_nat h)),
       modify (upd_csr (\<lambda>c. c\<lparr>sstatus := (sstatus c AND NOT SSTATUS_SPP) OR SSTATUS_SPIE\<rparr>)),
       bnd (get_tf p TF_epc) (\<lambda>epc. modify (upd_csr (\<lambda>c. c\<lparr>sepc := epc\<rparr>)))])
     (bnd (get_proc p) (\<lambda>q.
     bnd (gets userret_off) (\<lambda>off.
     ret (TRAMPOLINE + off, MAKE_SATP (p_pagetable q))))))))"

definition usertrap :: "nat \<Rightarrow> ('x trap_st_scheme, u64 \<times> u64) kop" where
  "usertrap fuel =
     bnd (gets mycsr) (\<lambda>c.
     if sstatus c AND SSTATUS_SPP \<noteq> 0 then panic ''usertrap: not from user mode'' else
     seq (modify (\<lambda>s. upd_csr (\<lambda>c. c\<lparr>stvec := a_kernelvec s\<rparr>) s))
     (bnd curproc (\<lambda>p.
     seq (set_tf p TF_epc (sepc c))
     (bnd (if scause c = 8 then
             bnd (killed p) (\<lambda>k.
             if k then exit (-1) else
             seq (bnd (get_tf p TF_epc) (\<lambda>epc. set_tf p TF_epc (epc + 4)))
             (seq intr_on
             (seq syscall (ret 0))))
           else
             bnd (devintr fuel) (\<lambda>which_dev.
             if which_dev \<noteq> 0 then ret which_dev else
             seq (stmts
              [bnd (get_proc p) (\<lambda>q.
                 printf (''usertrap(): unexpected scause %p pid=%d'' @ newline)
                  [A_ptr (scause c), A_int (p_pid q)]),
               bnd (gets mycsr) (\<lambda>c.
                 printf (''            sepc=%p stval=%p'' @ newline) [A_ptr (sepc c), A_ptr (stval c)]),
               setkilled p])
             (ret 0))) (\<lambda>which_dev.
     bnd (killed p) (\<lambda>k.
     if k then exit (-1)
     else if which_dev = 2 then seq yield usertrapret
     else usertrapret))))))"

section \<open>Traps from the kernel\<close>

definition kerneltrap :: "nat \<Rightarrow> ('x trap_st_scheme, unit) kop" where
  "kerneltrap fuel =
     bnd (gets mycsr) (\<lambda>c0.
     if sstatus c0 AND SSTATUS_SPP = 0 then panic ''kerneltrap: not from supervisor mode'' else
     bnd intr_get (\<lambda>i.
     if i then panic ''kerneltrap: interrupts enabled'' else
     bnd (devintr fuel) (\<lambda>which_dev.
     if which_dev = 0 then
       seq (stmts
        [printf (''scause %p'' @ newline) [A_ptr (scause c0)],
         bnd (gets mycsr) (\<lambda>c. printf (''sepc=%p stval=%p'' @ newline) [A_ptr (sepc c), A_ptr (stval c)])])
       (panic ''kerneltrap'')
     else
     bnd (if which_dev \<noteq> 2 then ret False else
          bnd myproc (\<lambda>me. case me of None \<Rightarrow> ret False
          | Some p \<Rightarrow> bnd (get_proc p) (\<lambda>q. ret (p_state q = RUNNING)))) (\<lambda>y.
     stmts
      [kwhen y yield,
       modify (upd_csr (\<lambda>c. c\<lparr>sepc := sepc c0, sstatus := sstatus c0\<rparr>))]))))"

section \<open>Boot\<close>

text \<open>\<open>main\<close> on the boot hart and on the others, up to \<open>scheduler\<close>.\<close>

definition kmain_boot :: "('x trap_st_scheme, unit) kop" where
  "kmain_boot =
     stmts
      [consoleinit,
       printfinit,
       printf newline [],
       printf (''xv6 kernel is booting'' @ newline) [],
       printf newline [],
       kinit,
       kvminit,
       kvminithart,
       procinit,
       trapinit,
       trapinithart,
       plicinit,
       plicinithart,
       binit,
       iinit,
       fileinit,
       virtio_disk_init,
       userinit,
       modify (\<lambda>s. s\<lparr>started := True\<rparr>)]"

definition kmain_other :: "('x trap_st_scheme, unit) kop" where
  "kmain_other =
     bnd (gets hart) (\<lambda>h.
     stmts
      [printf (''hart %d starting'' @ newline) [A_int (of_nat h)],
       kvminithart,
       trapinithart,
       plicinithart])"

end
