(* ===== verification/Procops.thy ===== *)
theory Procops
  imports Proc
begin

text \<open>
  What the process operations do, as equations: the running process, \<open>killed\<close>, \<open>wakeup\<close>,
  \<open>kill\<close>, \<open>sleep\<close>, and the sleep locks. Every equation gives the complete final state, so that
  clients of these operations see exactly what may have changed under them.
\<close>

section \<open>Inside and outside critical sections\<close>

text \<open>Some lock is held: interrupts are off and the nesting depth is positive.\<close>

definition nested :: "'x mach_scheme \<Rightarrow> bool" where
  "nested s \<longleftrightarrow> 0 < noff (cpus s (hart s)) \<and> \<not> sie (csr s (hart s))"

lemma nested_cpu_ok: "nested s \<Longrightarrow> cpu_ok s"
  by (simp add: nested_def cpu_ok_def)

lemma nested_cs_cpus: "nested s \<Longrightarrow> cs_cpus s = cpus s"
  by (simp add: nested_def cs_cpus_def)

lemma nested_acq [simp]: "cpu_ok s \<Longrightarrow> nested (acq l s)"
  by (simp add: nested_def cpu_ok_def acq_def push_cpu_def)

lemma unlocked_acq: "l \<noteq> k \<Longrightarrow> unlocked l (acq k s) = unlocked l s"
  by (simp add: unlocked_def acq_def)

lemma kfor_eq:
  assumes "\<And>ys i zs. xs = ys @ i # zs \<Longrightarrow> f i (st ys) = Ok () (st (ys @ [i]))"
  shows "kfor xs f (st []) = Ok () (st xs)"
proof -
  have "kfor zs f (st ys) = Ok () (st xs)" if "xs = ys @ zs" for ys zs
    using that
  proof (induction zs arbitrary: ys)
    case (Cons z zs)
    from assms [OF Cons.prems] show ?case using Cons.IH [of "ys @ [z]"] Cons.prems by (simp add: seq_Ok)
  qed simp
  from this [of "[]" xs] show ?thesis by simp
qed


lemma kfind_eq:
  assumes "\<And>ys i zs. xs = ys @ i # zs \<Longrightarrow> f i (st ys) =
    (if P i then Ok (Some (g i)) (fin i) else Ok None (st (ys @ [i])))"
  shows "kfind xs f (st []) =
    (case find P xs of None \<Rightarrow> Ok None (st xs) | Some i \<Rightarrow> Ok (Some (g i)) (fin i))"
proof -
  have "kfind zs f (st ys) = (case find P zs of None \<Rightarrow> Ok None (st xs) | Some i \<Rightarrow> Ok (Some (g i)) (fin i))"
    if "xs = ys @ zs" for ys zs
    using that
  proof (induction zs arbitrary: ys)
    case (Cons z zs)
    from assms [OF Cons.prems] show ?case using Cons.IH [of "ys @ [z]"] Cons.prems by (simp add: bnd_def)
  qed simp
  from this [of "[]" xs] show ?thesis by simp
qed

lemma upt_split_less: "[0..<n] = ys @ p # zs \<Longrightarrow> p < n \<and> p \<notin> set ys"
  by (metis atLeastLessThan_iff distinct_upt in_set_conv_decomp not_distinct_conv_prefix set_upt distinct_append disjoint_iff list.set_intros(1))

section \<open>The running process\<close>

lemma noff_id: "noff c = n \<Longrightarrow> c\<lparr>intena := b, noff := n\<rparr> = c\<lparr>intena := b\<rparr>"
  by (cases c) simp

lemma pop_push:
  assumes "cpu_ok s"
  shows "pop_off (s\<lparr>cpus := (cpus s)(hart s := push_cpu (csr s (hart s)) (cpus s (hart s))),
     csr := (csr s)(hart s := off_csr (csr s (hart s)))\<rparr>) = Ok () (s\<lparr>cpus := cs_cpus s\<rparr>)"
proof (cases "noff (cpus s (hart s)) = 0 \<and> sie (csr s (hart s))")
  case True
  then show ?thesis by (simp add: pop_off_eq push_cpu_def on_off_csr cs_cpus_def noff_id)
next
  case False
  then have "\<not> sie (csr s (hart s))" "0 \<le> noff (cpus s (hart s))" using assms by (auto simp: cpu_ok_def)
  with False show ?thesis by (auto simp: pop_off_eq push_cpu_def off_csr_noop cs_cpus_def noff_id)
qed

lemma myproc_eq:
  assumes "cpu_ok s"
  shows "myproc s = Ok (c_proc (cpus s (hart s))) (s\<lparr>cpus := cs_cpus s\<rparr>)"
  by (simp add: myproc_def seq_def bnd_def push_off_eq pop_push [OF assms] mycpu_def) (simp add: push_cpu_def)

lemma curproc_eq:
  "cpu_ok s \<Longrightarrow> c_proc (cpus s (hart s)) = Some p \<Longrightarrow> curproc s = Ok p (s\<lparr>cpus := cs_cpus s\<rparr>)"
  by (simp add: curproc_def bnd_def myproc_eq)

lemma curproc_null:
  "cpu_ok s \<Longrightarrow> c_proc (cpus s (hart s)) = None \<Longrightarrow> curproc s = Panic ''kerneltrap''"
  by (simp add: curproc_def bnd_def myproc_eq)

lemma cs_cpus_proc [simp]: "c_proc (cs_cpus s h) = c_proc (cpus s h)"
  by (simp add: cs_cpus_def)

text \<open>A critical section on a process lock.\<close>

lemma proc_section:
  assumes "unlocked l s" "cpu_ok s"
  shows "release l ((acq l s)\<lparr>procs := P\<rparr>) = Ok () (s\<lparr>procs := P, cpus := cs_cpus s\<rparr>)"
proof -
  have "acq l s\<lparr>procs := P, cpus := c, csr := csr s, locks := locks s\<rparr> = s\<lparr>procs := P, cpus := c\<rparr>" for c
    by (simp add: acq_def)
  then show ?thesis using release_acq [OF assms, of "(acq l s)\<lparr>procs := P\<rparr>"] by simp
qed

lemma empty_section:
  assumes "unlocked l s" "cpu_ok s"
  shows "release l (acq l s) = Ok () (s\<lparr>cpus := cs_cpus s\<rparr>)"
  using release_acq [OF assms, of "acq l s"] by (simp add: acq_def)

lemma procs_acq [simp]: "procs (acq l s) = procs s"
  by (simp add: acq_def)

lemma killed_eq:
  assumes "unlocked (L_proc p) s" "cpu_ok s"
  shows "killed p s = Ok (p_killed (procs s p)) (s\<lparr>cpus := cs_cpus s\<rparr>)"
  by (simp add: killed_def seq_def bnd_def acquire_unlocked [OF assms(1)] get_proc_def empty_section [OF assms])

lemma setkilled_eq:
  assumes "unlocked (L_proc p) s" "cpu_ok s"
  shows "setkilled p s = Ok () (s\<lparr>procs := (procs s)(p := (procs s p)\<lparr>p_killed := True\<rparr>), cpus := cs_cpus s\<rparr>)"
  by (simp add: setkilled_def seq_def bnd_def acquire_unlocked [OF assms(1)] upd_proc_def proc_section [OF assms])

section \<open>wakeup\<close>

definition woken :: "nat option \<Rightarrow> chan option \<Rightarrow> nat set \<Rightarrow> (nat \<Rightarrow> proc) \<Rightarrow> nat \<Rightarrow> proc" where
  "woken me ch A ps = (\<lambda>p. if p \<in> A \<and> Some p \<noteq> me \<and> p_state (ps p) = SLEEPING \<and> p_chan (ps p) = ch
     then (ps p)\<lparr>p_state := RUNNABLE\<rparr> else ps p)"

lemma woken_me: "Some p = me \<Longrightarrow> woken me ch (insert p A) ps = woken me ch A ps"
  by (auto simp: woken_def fun_eq_iff)

lemma woken_empty [simp]: "woken me ch {} ps = ps"
  by (simp add: woken_def)

definition procs_unlocked :: "'x mach_scheme \<Rightarrow> bool" where
  "procs_unlocked s \<longleftrightarrow> (\<forall>p<NPROC. unlocked (L_proc p) s)"

lemma wakeup_prefix:
  assumes "cpu_ok s" "\<And>p. p < n \<Longrightarrow> Some p \<noteq> c_proc (cpus s (hart s)) \<Longrightarrow> unlocked (L_proc p) s"
  shows "kfor [0..<n] (wakeup_one ch) s = Ok () (s\<lparr>procs := woken (c_proc (cpus s (hart s))) ch {..<n} (procs s),
     cpus := if n = 0 then cpus s else cs_cpus s\<rparr>)"
proof -
  let ?me = "c_proc (cpus s (hart s))"
  let ?st = "\<lambda>ys. s\<lparr>procs := woken ?me ch (set ys) (procs s), cpus := if ys = [] then cpus s else cs_cpus s\<rparr>"
  have "kfor [0..<n] (wakeup_one ch) (?st []) = Ok () (?st [0..<n])"
  proof (rule kfor_eq)
    fix ys p zs assume x: "[0..<n] = ys @ p # zs"
    then have p: "p < n" and nd: "p \<notin> set ys" using upt_split_less by blast+
    let ?s = "?st ys" and ?t = "s\<lparr>procs := woken ?me ch (set ys) (procs s), cpus := cs_cpus s\<rparr>"
    have ok: "cpu_ok ?s" "cpu_ok ?t" using assms(1) by (auto simp: cpu_ok_def cs_cpus_def)
    have cs: "cs_cpus ?s = cs_cpus s" "cs_cpus ?t = cs_cpus s" by (auto simp: cs_cpus_def)
    have me: "c_proc (cpus ?s (hart ?s)) = ?me" by simp
    have my: "myproc ?s = Ok ?me ?t" by (simp only: myproc_eq [OF ok(1)] me cs(1)) simp
    have ps: "procs ?t p = procs s p" using nd by (simp add: woken_def)
    show "wakeup_one ch p ?s = Ok () (?st (ys @ [p]))"
    proof (cases "Some p = ?me")
      case True
      then show ?thesis using my by (simp add: wakeup_one_def bnd_def woken_me)
    next
      case False
      have u: "unlocked (L_proc p) ?t" using assms(2) [OF p False] by (simp add: unlocked_def)
      define P where "P = (if p_state (procs s p) = SLEEPING \<and> p_chan (procs s p) = ch
        then (procs ?t)(p := (procs s p)\<lparr>p_state := RUNNABLE\<rparr>) else procs ?t)"
      have P: "P = woken ?me ch (set (ys @ [p])) (procs s)"
        using False nd by (auto simp: P_def woken_def fun_eq_iff)
      have "bnd (get_proc p) (\<lambda>q. kwhen (p_state q = SLEEPING \<and> p_chan q = ch)
             (upd_proc p (\<lambda>q. q\<lparr>p_state := RUNNABLE\<rparr>))) (acq (L_proc p) ?t) = Ok () ((acq (L_proc p) ?t)\<lparr>procs := P\<rparr>)"
        using ps by (simp add: get_proc_def upd_proc_def P_def kwhen_def acq_def)
      then have "wakeup_one ch p ?s = Ok () (?t\<lparr>procs := P, cpus := cs_cpus s\<rparr>)"
        using my False by (simp add: wakeup_one_def bnd_def [of myproc] seq_Ok [where m = "acquire (L_proc p)", OF acquire_unlocked [OF u]]
            seq_Ok proc_section [OF u ok(2), unfolded cs(2)] cong del: if_weak_cong)
      then show ?thesis by (simp add: P)
    qed
  qed
  then show ?thesis by (simp add: atLeast0LessThan cong: if_cong)
qed

lemma wakeup_eq:
  assumes "cpu_ok s" "\<And>p. p < NPROC \<Longrightarrow> Some p \<noteq> c_proc (cpus s (hart s)) \<Longrightarrow> unlocked (L_proc p) s"
  shows "wakeup_ptr ch s = Ok () (s\<lparr>procs := woken (c_proc (cpus s (hart s))) ch {..<NPROC} (procs s), cpus := cs_cpus s\<rparr>)"
  using wakeup_prefix [OF assms] by (simp add: wakeup_ptr_def)


lemma wakeup_nested:
  assumes "nested s" "\<And>p. p < NPROC \<Longrightarrow> Some p \<noteq> c_proc (cpus s (hart s)) \<Longrightarrow> unlocked (L_proc p) s"
  shows "wakeup_ptr ch s = Ok () (s\<lparr>procs := woken (c_proc (cpus s (hart s))) ch {..<NPROC} (procs s)\<rparr>)"
  using wakeup_eq [OF nested_cpu_ok [OF assms(1)] assms(2), of ch] nested_cs_cpus [OF assms(1)] by simp

section \<open>kill\<close>

lemma kill_eq:
  assumes ok: "cpu_ok s" and u: "procs_unlocked s"
  shows "kill pid s = (case find (\<lambda>p. p_pid (procs s p) = pid) [0..<NPROC] of
     None \<Rightarrow> Ok (-1) (s\<lparr>cpus := cs_cpus s\<rparr>)
   | Some p \<Rightarrow> Ok 0 (s\<lparr>procs := (procs s)(p := (procs s p)\<lparr>p_killed := True,
       p_state := if p_state (procs s p) = SLEEPING then RUNNABLE else p_state (procs s p)\<rparr>), cpus := cs_cpus s\<rparr>))"
proof -
  let ?st = "\<lambda>ys :: nat list. s\<lparr>cpus := if ys = [] then cpus s else cs_cpus s\<rparr>"
  let ?fin = "\<lambda>p. s\<lparr>procs := (procs s)(p := (procs s p)\<lparr>p_killed := True,
       p_state := if p_state (procs s p) = SLEEPING then RUNNABLE else p_state (procs s p)\<rparr>), cpus := cs_cpus s\<rparr>"
  let ?f = "\<lambda>p. seq (acquire (L_proc p))
       (bnd (get_proc p) (\<lambda>q.
       if p_pid q = pid then
         seq (upd_proc p (\<lambda>q. q\<lparr>p_killed := True\<rparr>))
         (seq (kwhen (p_state q = SLEEPING) (upd_proc p (\<lambda>q. q\<lparr>p_state := RUNNABLE\<rparr>)))
         (seq (release (L_proc p)) (ret (Some (0::int)))))
       else seq (release (L_proc p)) (ret None)))"
  have "kfind [0..<NPROC] ?f (?st []) = (case find (\<lambda>p. p_pid (procs s p) = pid) [0..<NPROC] of
     None \<Rightarrow> Ok None (?st [0..<NPROC]) | Some p \<Rightarrow> Ok (Some 0) (?fin p))"
  proof (rule kfind_eq [where st = ?st and fin = ?fin and g = "\<lambda>_. 0"])
    fix ys p zs assume "[0..<NPROC] = ys @ p # zs"
    then have p: "p < NPROC" using upt_split_less by blast
    let ?s = "?st ys"
    have ul: "unlocked (L_proc p) ?s" using u p by (simp add: procs_unlocked_def unlocked_def)
    have okc: "cpu_ok ?s" using ok by (auto simp: cpu_ok_def cs_cpus_def)
    have cs: "cs_cpus ?s = cs_cpus s" by (auto simp: cs_cpus_def)
    note sec = proc_section [OF ul okc, unfolded cs] empty_section [OF ul okc, unfolded cs]
    show "?f p ?s = (if p_pid (procs s p) = pid then Ok (Some 0) (?fin p) else Ok None (?st (ys @ [p])))"
      using sec(2) by (simp add: seq_def bnd_def acquire_unlocked [OF ul] get_proc_def upd_proc_def sec(1) kwhen_def)
  qed
  then show ?thesis by (simp add: kill_def bnd_def split: option.split)
qed

section \<open>sched and sleep\<close>

lemma sched_ok:
  assumes "nested s" "noff (cpus s (hart s)) = 1" "c_proc (cpus s (hart s)) = Some p" "held (L_proc p) s"
    "p_state (procs s p) \<noteq> RUNNING"
  shows "sched s = Swtch s"
proof -
  have "s\<lparr>cpus := cpus s\<rparr> = s" by simp
  then have c: "curproc s = Ok p s"
    using curproc_eq [OF nested_cpu_ok [OF assms(1)] assms(3)] nested_cs_cpus [OF assms(1)] by simp
  show ?thesis
    using assms by (simp add: sched_def bnd_def c holding_def held_def mycpu_def get_proc_def intr_get_def mycsr_def
        nested_def sie_def)
qed

text \<open>The state \<open>sleep\<close> leaves to the scheduler.\<close>

definition asleep :: "nat \<Rightarrow> chan \<Rightarrow> lockid \<Rightarrow> 'x proc_st_scheme \<Rightarrow> 'x proc_st_scheme" where
  "asleep p ch lk s = s\<lparr>
     locks := (locks s)(L_proc p := (locks s (L_proc p))\<lparr>locked := True, lcpu := Some (hart s)\<rparr>,
       lk := (locks s lk)\<lparr>lcpu := None, locked := False\<rparr>),
     procs := (procs s)(p := (procs s p)\<lparr>p_chan := Some ch, p_state := SLEEPING\<rparr>)\<rparr>"

lemma sleep_eq:
  assumes n: "nested s" "noff (cpus s (hart s)) = 1" and p: "c_proc (cpus s (hart s)) = Some p"
    and l: "unlocked (L_proc p) s" "held lk s" "lk \<noteq> L_proc p"
  shows "sleep ch lk s = Swtch (asleep p ch lk s)"
proof -
  have c: "curproc s = Ok p s"
    using curproc_eq [OF nested_cpu_ok [OF n(1)] p] nested_cs_cpus [OF n(1)] by simp
  have si: "\<not> sie (csr s (hart s))" using n by (simp add: nested_def)
  let ?t = "rel lk (acq (L_proc p) s)"
  have r: "release lk (acq (L_proc p) s) = Ok () ?t"
    using l n si by (simp add: release_eq held_def acq_def push_cpu_def)
  have "(cpus s (hart s))\<lparr>noff := 1\<rparr> = cpus s (hart s)" using n(2) by (cases "cpus s (hart s)") simp
  then have cid: "(cpus s)(hart s := (cpus s (hart s))\<lparr>noff := 1\<rparr>) = cpus s" by (simp only: fun_upd_triv)
  have "?t\<lparr>procs := P\<rparr> = s\<lparr>locks := (locks s)(L_proc p := (locks s (L_proc p))\<lparr>locked := True, lcpu := Some (hart s)\<rparr>,
       lk := (locks s lk)\<lparr>lcpu := None, locked := False\<rparr>), procs := P\<rparr>" for P
    using l(3) n(2) si by (simp add: rel_def acq_def push_cpu_def off_csr_noop cid)
  then have a: "?t\<lparr>procs := (procs s)(p := (procs s p)\<lparr>p_chan := Some ch, p_state := SLEEPING\<rparr>)\<rparr> = asleep p ch lk s"
    by (simp add: asleep_def)
  have pr: "procs ?t = procs s" by (simp add: rel_def)
  have "sched (asleep p ch lk s) = Swtch (asleep p ch lk s)"
    using n p l(3) by (intro sched_ok [where p = p]) (simp_all add: asleep_def nested_def held_def)
  then show ?thesis
    by (simp add: sleep_def bnd_def c seq_def acquire_unlocked [OF l(1)] r upd_proc_def pr a)
qed


section \<open>Sleep locks\<close>

lemma acquiresleep_eq:
  assumes "unlocked lk s" "cpu_ok s" "c_proc (cpus s (hart s)) = Some p" "\<not> sl_locked (slocks s lk)"
  shows "acquiresleep lk s = Ok () (s\<lparr>slocks := (slocks s)(lk := (slocks s lk)\<lparr>sl_locked := True,
     sl_pid := p_pid (procs s p)\<rparr>), cpus := cs_cpus s\<rparr>)"
proof -
  let ?a = "acq lk s"
  have n: "nested ?a" using assms(2) by simp
  have "curproc ?a = Ok p (?a\<lparr>cpus := cs_cpus ?a\<rparr>)"
    using assms(3) by (intro curproc_eq nested_cpu_ok [OF n]) (simp add: acq_def push_cpu_def)
  then have c: "curproc ?a = Ok p ?a" by (simp add: nested_cs_cpus [OF n])
  have sl: "slocks ?a = slocks s" by (simp add: acq_def)
  have "?a\<lparr>slocks := L, cpus := cs_cpus s, csr := csr s, locks := locks s\<rparr> = s\<lparr>slocks := L, cpus := cs_cpus s\<rparr>" for L
    by (simp add: acq_def)
  then have r: "release lk (?a\<lparr>slocks := L\<rparr>) = Ok () (s\<lparr>slocks := L, cpus := cs_cpus s\<rparr>)" for L
    using release_acq [OF assms(1,2), of "?a\<lparr>slocks := L\<rparr>"] by simp
  show ?thesis
    using assms(4)
    by (simp add: acquiresleep_def acquiresleep_loop_def seq_def bnd_def acquire_unlocked [OF assms(1)] c sl get_proc_def r)
qed

lemma acquiresleep_busy:
  assumes "unlocked lk s" "cpu_ok s" "noff (cpus s (hart s)) = 0" "c_proc (cpus s (hart s)) = Some p"
    "sl_locked (slocks s lk)" "unlocked (L_proc p) s" "lk \<noteq> L_proc p"
  shows "acquiresleep lk s = Swtch (asleep p (Ch_sleeplock lk) lk (acq lk s))"
proof -
  have "sleep (Ch_sleeplock lk) lk (acq lk s) = Swtch (asleep p (Ch_sleeplock lk) lk (acq lk s))"
    using assms by (intro sleep_eq) (simp_all add: acq_def push_cpu_def held_def unlocked_def nested_def cpu_ok_def)
  moreover have "slocks (acq lk s) = slocks s" by (simp add: acq_def)
  ultimately show ?thesis
    using assms(5) by (simp add: acquiresleep_def acquiresleep_loop_def seq_def bnd_def acquire_unlocked [OF assms(1)])
qed

lemma releasesleep_eq:
  assumes "unlocked lk s" "cpu_ok s" "\<And>p. p < NPROC \<Longrightarrow> Some p \<noteq> c_proc (cpus s (hart s)) \<Longrightarrow> unlocked (L_proc p) s"
    "\<And>p. lk \<noteq> L_proc p"
  shows "releasesleep lk s = Ok () (s\<lparr>slocks := (slocks s)(lk := (slocks s lk)\<lparr>sl_locked := False, sl_pid := 0\<rparr>),
     procs := woken (c_proc (cpus s (hart s))) (Some (Ch_sleeplock lk)) {..<NPROC} (procs s), cpus := cs_cpus s\<rparr>)"
proof -
  let ?a = "(acq lk s)\<lparr>slocks := (slocks s)(lk := (slocks s lk)\<lparr>sl_locked := False, sl_pid := 0\<rparr>)\<rparr>"
  let ?me = "c_proc (cpus s (hart s))"
  have n: "nested ?a" using nested_acq [OF assms(2), of lk] by (simp add: nested_def)
  have me: "c_proc (cpus ?a (hart ?a)) = ?me" by (simp add: acq_def push_cpu_def)
  have u: "unlocked (L_proc p) ?a" if "p < NPROC" "Some p \<noteq> ?me" for p
    using assms(3) [OF that] assms(4) by (auto simp: unlocked_def acq_def)
  have w: "wakeup_ptr (Some (Ch_sleeplock lk)) ?a = Ok () (?a\<lparr>procs := woken ?me (Some (Ch_sleeplock lk)) {..<NPROC} (procs s)\<rparr>)"
    using wakeup_nested [OF n, of "Some (Ch_sleeplock lk)"] u unfolding me by simp
  have "acq lk s\<lparr>slocks := L, procs := P, cpus := cs_cpus s, csr := csr s, locks := locks s\<rparr> =
     s\<lparr>slocks := L, procs := P, cpus := cs_cpus s\<rparr>" for L P
    by (simp add: acq_def)
  then have r: "release lk (acq lk s\<lparr>slocks := L, procs := P\<rparr>) = Ok () (s\<lparr>slocks := L, procs := P, cpus := cs_cpus s\<rparr>)" for L P
    using release_acq [OF assms(1,2), of "acq lk s\<lparr>slocks := L, procs := P\<rparr>"] by simp
  have sl: "slocks (acq lk s) = slocks s" by (simp add: acq_def)
  show ?thesis
    by (simp add: releasesleep_def seq_def bnd_def acquire_unlocked [OF assms(1)] sl w r)
qed

lemma holdingsleep_eq:
  assumes "unlocked lk s" "cpu_ok s" "c_proc (cpus s (hart s)) = Some p"
  shows "holdingsleep lk s = Ok (sl_locked (slocks s lk) \<and> sl_pid (slocks s lk) = p_pid (procs s p)) (s\<lparr>cpus := cs_cpus s\<rparr>)"
proof -
  let ?a = "acq lk s"
  have n: "nested ?a" using assms(2) by simp
  have "curproc ?a = Ok p (?a\<lparr>cpus := cs_cpus ?a\<rparr>)"
    using assms(3) by (intro curproc_eq nested_cpu_ok [OF n]) (simp add: acq_def push_cpu_def)
  then have c: "curproc ?a = Ok p ?a" by (simp add: nested_cs_cpus [OF n])
  have sl: "slocks ?a = slocks s" by (simp add: acq_def)
  show ?thesis
    by (simp add: holdingsleep_def seq_def bnd_def acquire_unlocked [OF assms(1)] c sl get_proc_def
        empty_section [OF assms(1,2)])
qed


section \<open>Properties\<close>

text \<open>
  A machine for evaluation: CPU \<open>h\<close> runs process \<open>h\<close> with interrupts on, no lock is held, and
  the process table is \<open>P\<close>.
\<close>

definition proc_sys :: "(nat \<Rightarrow> proc) \<Rightarrow> proc_st" where
  "proc_sys P = \<lparr>hart = 0, cpus = (\<lambda>h. \<lparr>c_proc = Some h, noff = 0, intena = False\<rparr>),
     csr = (\<lambda>_. csrs0), locks = (\<lambda>_. \<lparr>locked = False, lname = [], lcpu = None\<rparr>),
     mem = (\<lambda>_. 0), kend = 0x87fff000, freelist = 0, kernel_pagetable = 0, etext = 0, trampoline = 0,
     pr_locking = True, kout = [], procs = P, initproc = None, nextpid = 1,
     slocks = (\<lambda>_. \<lparr>sl_locked = False, sl_name = [], sl_pid = 0\<rparr>), forkret_addr = 0\<rparr>"

definition proc0 :: proc where
  "proc0 = \<lparr>p_state = UNUSED, p_chan = None, p_killed = False, p_xstate = 0, p_pid = 0, p_parent = None,
     p_kstack = 0, p_sz = 0, p_pagetable = 0, p_trapframe = 0, p_context = zero_context,
     p_ofile = (\<lambda>_. None), p_cwd = None, p_name = (\<lambda>_. 0), p_trace_mask = 0\<rparr>"

lemma proc_sys_ok:
  "cpu_ok (proc_sys P)" "unlocked l (proc_sys P)" "procs_unlocked (proc_sys P)" "hart (proc_sys P) = 0"
  "c_proc (cpus (proc_sys P) h) = Some h" "procs (proc_sys P) = P" "noff (cpus (proc_sys P) h) = 0"
  by (simp_all add: proc_sys_def cpu_ok_def unlocked_def procs_unlocked_def)




text \<open>
  C8. \<open>kill\<close> marks the first process with the pid, and no other, as killed, and makes it runnable
  if it slept, whatever it slept on; for a pid no process has it returns -1 and changes no process.
  Nothing else of the machine changes but the record of the interrupt state.
\<close>

theorem kill_exact:
  assumes "cpu_ok s" "procs_unlocked s"
  shows "\<exists>r P. kill pid s = Ok r (s\<lparr>procs := P, cpus := cs_cpus s\<rparr>) \<and>
     (if \<exists>p<NPROC. p_pid (procs s p) = pid
      then r = 0 \<and> (\<exists>p<NPROC. p_pid (procs s p) = pid \<and> (\<forall>q<p. p_pid (procs s q) \<noteq> pid) \<and>
        p_killed (P p) \<and> p_state (P p) \<noteq> SLEEPING \<and>
        (p_state (procs s p) \<noteq> SLEEPING \<longrightarrow> p_state (P p) = p_state (procs s p)) \<and>
        (p_state (procs s p) = SLEEPING \<longrightarrow> p_state (P p) = RUNNABLE) \<and> (\<forall>q. q \<noteq> p \<longrightarrow> P q = procs s q))
      else r = -1 \<and> P = procs s)"
proof (cases "find (\<lambda>p. p_pid (procs s p) = pid) [0..<NPROC]")
  case None
  then have "\<not> (\<exists>p<NPROC. p_pid (procs s p) = pid)" by (auto simp: find_None_iff)
  moreover have "kill pid s = Ok (-1) (s\<lparr>procs := procs s, cpus := cs_cpus s\<rparr>)"
    using kill_eq [OF assms, of pid] None by simp
  ultimately show ?thesis by (intro exI [of _ "-1"] exI [of _ "procs s"]) simp
next
  case (Some p)
  then obtain i where i: "i < NPROC" "p = [0..<NPROC] ! i" "p_pid (procs s p) = pid"
    "\<forall>j<i. p_pid (procs s ([0..<NPROC] ! j)) \<noteq> pid"
    by (auto simp: find_Some_iff)
  then have p: "p < NPROC" "p_pid (procs s p) = pid" "\<forall>q<p. p_pid (procs s q) \<noteq> pid" by simp_all
  let ?P = "(procs s)(p := (procs s p)\<lparr>p_killed := True,
       p_state := if p_state (procs s p) = SLEEPING then RUNNABLE else p_state (procs s p)\<rparr>)"
  have "kill pid s = Ok 0 (s\<lparr>procs := ?P, cpus := cs_cpus s\<rparr>)" using kill_eq [OF assms, of pid] Some by simp
  then show ?thesis using p by (intro exI [of _ 0] exI [of _ ?P]) auto
qed

theorem kill_exact_witness:
  "\<exists>r P. kill 7 (proc_sys (\<lambda>p. proc0\<lparr>p_pid := of_nat p, p_state := SLEEPING\<rparr>)) =
     Ok r ((proc_sys (\<lambda>p. proc0\<lparr>p_pid := of_nat p, p_state := SLEEPING\<rparr>))\<lparr>procs := P,
       cpus := cs_cpus (proc_sys (\<lambda>p. proc0\<lparr>p_pid := of_nat p, p_state := SLEEPING\<rparr>))\<rparr>) \<and> r = 0"
proof -
  let ?s = "proc_sys (\<lambda>p. proc0\<lparr>p_pid := of_nat p, p_state := SLEEPING\<rparr>)"
  have "\<exists>p<NPROC. p_pid (procs ?s p) = 7" by (intro exI [of _ 7]) (simp add: proc_sys_ok)
  with kill_exact [OF proc_sys_ok(1,3), of 7 "\<lambda>p. proc0\<lparr>p_pid := of_nat p, p_state := SLEEPING\<rparr>"] show ?thesis
    by (auto split: if_splits)
qed

text \<open>
  C9. Sleep locks exclude: after \<open>acquiresleep\<close> of a free lock the process holds it,
  \<open>acquiresleep\<close> by a process on another CPU puts that process to sleep on the lock with the inner spinlock
  free, and \<open>releasesleep\<close> by the holder frees the lock and makes that process runnable again.
\<close>

theorem sleeplock_exclusive:
  assumes "unlocked lk s" "cpu_ok s" "c_proc (cpus s (hart s)) = Some p" "\<not> sl_locked (slocks s lk)"
    "procs_unlocked s" "\<forall>q. lk \<noteq> L_proc q"
    and other: "h \<noteq> hart s" "c_proc (cpus s h) = Some q" "q \<noteq> p" "q < NPROC" "noff (cpus s h) = 0"
  shows "\<exists>t u v w. acquiresleep lk s = Ok () t \<and> unlocked lk t \<and>
     (\<exists>t'. holdingsleep lk t = Ok True t') \<and>
     acquiresleep lk (on_hart h t) = Swtch u \<and> unlocked lk u \<and> p_state (procs u q) = SLEEPING \<and>
     scheduler_back q u = Ok () v \<and>
     releasesleep lk (on_hart (hart s) v) = Ok () w \<and> p_state (procs w q) = RUNNABLE \<and> \<not> sl_locked (slocks w lk)"
proof -
  let ?L = "(slocks s)(lk := (slocks s lk)\<lparr>sl_locked := True, sl_pid := p_pid (procs s p)\<rparr>)"
  let ?t = "s\<lparr>slocks := ?L, cpus := cs_cpus s\<rparr>"
  have ne: "L_proc r \<noteq> lk" for r using assms(6) by metis
  have ul: "unlocked (L_proc r) s" if "r < NPROC" for r using assms(5) that by (simp add: procs_unlocked_def)
  have t: "acquiresleep lk s = Ok () ?t" by (rule acquiresleep_eq [OF assms(1-4)])
  have "unlocked lk ?t" "cpu_ok ?t" "c_proc (cpus ?t (hart ?t)) = Some p"
    using assms(1-3) by (simp_all add: unlocked_def cpu_ok_def cs_cpus_def)
  from holdingsleep_eq [OF this] have hs: "\<exists>t'. holdingsleep lk ?t = Ok True t'" by simp
  let ?h = "on_hart h ?t" and ?u = "asleep q (Ch_sleeplock lk) lk (acq lk (on_hart h ?t))"
  have u: "acquiresleep lk ?h = Swtch ?u"
    using assms(1) other ul [OF other(4)] ne
    by (intro acquiresleep_busy) (auto simp: on_hart_def unlocked_def cpu_ok_def cs_cpus_def)
  define v where "v = rel (L_proc q) (upd_cpu (\<lambda>c. c\<lparr>c_proc := None\<rparr>) ?u)"
  have v: "scheduler_back q ?u = Ok () v"
    using ne other(1,5) by (simp add: scheduler_back_def v_def upd_cpu_def release_eq held_def asleep_def acq_def
        on_hart_def push_cpu_def cs_cpus_def)
  let ?v = "on_hart (hart s) v"
  have ulv: "unlocked lk ?v" "r < NPROC \<Longrightarrow> unlocked (L_proc r) ?v" for r
    using ne ul [of r] by (auto simp: on_hart_def v_def rel_def upd_cpu_def asleep_def acq_def unlocked_def)
  have okv: "cpu_ok ?v"
    using assms(2) other(1) by (simp add: cpu_ok_def on_hart_def v_def rel_def upd_cpu_def asleep_def acq_def cs_cpus_def)
  have me: "c_proc (cpus ?v (hart ?v)) = Some p"
    using assms(3) other(1) by (simp add: on_hart_def v_def rel_def upd_cpu_def asleep_def acq_def)
  have pv: "procs ?v q = (procs s q)\<lparr>p_chan := Some (Ch_sleeplock lk), p_state := SLEEPING\<rparr>"
    by (simp add: on_hart_def v_def rel_def upd_cpu_def asleep_def acq_def)
  from releasesleep_eq [OF ulv(1) okv ulv(2) ne [symmetric]]
  obtain w where w: "releasesleep lk ?v = Ok () w" "procs w = woken (Some p) (Some (Ch_sleeplock lk)) {..<NPROC} (procs ?v)"
     "\<not> sl_locked (slocks w lk)"
    unfolding me by auto
  have "unlocked lk ?u" "p_state (procs ?u q) = SLEEPING" using ne by (simp_all add: unlocked_def asleep_def)
  then show ?thesis
    using t hs u v w pv other(3,4) \<open>unlocked lk ?t\<close> by (intro exI [of _ ?t] exI [of _ ?u] exI [of _ v] exI [of _ w])
      (simp add: woken_def)
qed

theorem sleeplock_exclusive_witness:
  "\<exists>t u v w. acquiresleep (L_buf 3) (proc_sys (\<lambda>_. proc0)) = Ok () t \<and>
     acquiresleep (L_buf 3) (on_hart 1 t) = Swtch u \<and> scheduler_back 1 u = Ok () v \<and>
     releasesleep (L_buf 3) (on_hart 0 v) = Ok () w \<and> p_state (procs w 1) = RUNNABLE"
proof -
  let ?s = "proc_sys (\<lambda>_. proc0)"
  have "c_proc (cpus ?s (hart ?s)) = Some 0" "\<not> sl_locked (slocks ?s (L_buf 3))" "\<forall>q. L_buf 3 \<noteq> L_proc q"
    "1 \<noteq> hart ?s" "c_proc (cpus ?s 1) = Some 1" "1 \<noteq> (0 :: nat)" "(1 :: nat) < NPROC" "noff (cpus ?s 1) = 0"
    by (simp_all add: proc_sys_def)
  from sleeplock_exclusive [OF proc_sys_ok(2,1) this(1,2) proc_sys_ok(3) this(3-8)] show ?thesis
    unfolding proc_sys_ok(4) by blast
qed

end
