(* ===== verification/Pagetable.thy ===== *)
theory Pagetable
  imports Vm
begin

text \<open>
  Correctness of the Sv39 page-table code: what \<open>walk\<close>, \<open>mappages\<close>, \<open>uvmunmap\<close>, \<open>walkaddr\<close>,
  \<open>copyout\<close> and \<open>copyin\<close> do to the mapping that a tree of page-table pages in memory represents.
\<close>

section \<open>Entries and indices\<close>

lemma bit_mask12: "bit (4095 :: int) n \<longleftrightarrow> n < 12"
proof -
  have "(4095 :: int) = mask 12" by (simp add: mask_eq_exp_minus_1)
  then show ?thesis by (simp only: bit_mask_iff) simp
qed

lemma bit_flags: "(f :: u64) < 1024 \<Longrightarrow> 10 \<le> n \<Longrightarrow> \<not> bit f n"
proof
  assume f: "f < 1024" and n: "10 \<le> n" and b: "bit f n"
  have "f = take_bit 10 f"
    using f by (simp add: take_bit_eq_mod word_less_nat_alt unat_mod word_unat_eq_iff)
  with b n show False by (metis bit_take_bit_iff not_less)
qed

lemma PTE2PA_or: "f < 1024 \<Longrightarrow> PTE2PA (PA2PTE pa OR f) = PGROUNDDOWN pa"
proof (rule bit_word_eqI)
  fix n assume f: "f < 1024" and "n < LENGTH(64)"
  then show "bit (PTE2PA (PA2PTE pa OR f)) n = bit (PGROUNDDOWN pa) n"
    by (cases "n < 12")
      (auto simp: PTE2PA_def PA2PTE_def PGROUNDDOWN_def bit_simps bit_flags bit_mask12)
qed

lemma PGROUNDDOWN_aligned: "page_aligned a \<Longrightarrow> PGROUNDDOWN a = a"
  by (simp add: word_unat_eq_iff unat_PGROUNDDOWN page_aligned_def)

lemma page_aligned_PTE2PA: "page_aligned (PTE2PA e)"
proof -
  have "PTE2PA e = PGROUNDDOWN (PTE2PA e)"
    by (rule bit_word_eqI) (auto simp: PTE2PA_def PGROUNDDOWN_def bit_simps bit_mask12)
  then show ?thesis using page_aligned_PGROUNDDOWN by metis
qed

text \<open>The entry that maps a page-aligned address with flags below bit 10.\<close>

lemma PTE_make:
  assumes "page_aligned pa" "f < 1024"
  shows "PTE2PA (PA2PTE pa OR f) = pa"
  using assms by (simp add: PTE2PA_or PGROUNDDOWN_aligned)

lemma PA2PTE_bit: "n < 10 \<Longrightarrow> \<not> bit (PA2PTE pa) n"
  by (simp add: PA2PTE_def bit_simps)

lemma and_pow2: "(x :: u64) AND push_bit n 1 = (if bit x n then push_bit n 1 else 0)"
  by (rule bit_word_eqI) (auto simp: bit_simps)

lemma pte_flag:
  "e AND PTE_V \<noteq> 0 \<longleftrightarrow> bit e 0" "e AND PTE_R \<noteq> 0 \<longleftrightarrow> bit e 1" "e AND PTE_W \<noteq> 0 \<longleftrightarrow> bit e 2"
  "e AND PTE_X \<noteq> 0 \<longleftrightarrow> bit e 3" "e AND PTE_U \<noteq> 0 \<longleftrightarrow> bit e 4"
  unfolding PTE_V_def PTE_R_def PTE_W_def PTE_X_def PTE_U_def and_pow2
  by simp_all

lemma unat_PX: "unat (PX l va) = unat va div 2 ^ (12 + 9 * l) mod 512"
proof -
  have "(0x1FF :: u64) = mask 9" by (simp add: mask_eq_exp_minus_1)
  then have "PX l va = take_bit 9 (drop_bit (12 + 9 * l) va)"
    by (simp add: PX_def take_bit_eq_mask)
  then have "unat (PX l va) = take_bit 9 (drop_bit (12 + 9 * l) (unat va))"
    by (simp only: unsigned_take_bit_eq unsigned_drop_bit_eq)
      (use unsigned_less [of va, where ?'a = nat] in \<open>simp add: take_bit_nat_eq_self\<close>)
  then show ?thesis by (simp add: take_bit_eq_mod drop_bit_eq_div)
qed

lemma PX_less: "PX l va < 512" "unat (PX l va) < 512"
  by (simp_all add: unat_PX word_less_nat_alt)

lemma page_number_split:
  fixes y :: nat
  assumes "y < 2 ^ 39"
  shows "y div 4096 = y div 2 ^ 30 mod 512 * 2 ^ 18 + y div 2 ^ 21 mod 512 * 2 ^ 9 + y div 2 ^ 12 mod 512"
proof -
  define x where "x = y div 4096"
  have d: "y div 2 ^ 30 = x div 512 div 512" "y div 2 ^ 21 = x div 512" "y div 2 ^ 12 = x"
    unfolding x_def by (simp_all add: div_mult2_eq [symmetric])
  have "x div 512 div 512 < 512"
    using assms unfolding x_def by (simp add: div_mult2_eq [symmetric] div_less_iff_less_mult)
  then have m: "x div 512 div 512 mod 512 = x div 512 div 512" by simp
  have "x = x div 512 * 512 + x mod 512" by simp
  also have "x div 512 = x div 512 div 512 * 512 + x div 512 mod 512" by simp
  finally have "x = x div 512 div 512 * 2 ^ 18 + x div 512 mod 512 * 2 ^ 9 + x mod 512"
    by (simp only: distrib_right mult.assoc) simp
  then show ?thesis unfolding d m by (simp only: x_def)
qed

lemma unat_less_MAXVA: "a < MAXVA \<longleftrightarrow> unat a < 2 ^ 38"
  by (simp add: MAXVA_def word_less_nat_alt)

text \<open>Pages below MAXVA are distinguished by their three indices.\<close>

lemma PX_inj:
  assumes "page_aligned a" "page_aligned b" "a < MAXVA" "b < MAXVA"
    and "PX 0 a = PX 0 b" "PX 1 a = PX 1 b" "PX 2 a = PX 2 b"
  shows "a = b"
proof -
  let ?f = "\<lambda>a. unat a div 4096"
  have split: "?f a = unat (PX 2 a) * 2 ^ 18 + unat (PX 1 a) * 2 ^ 9 + unat (PX 0 a)"
    if "a < MAXVA" for a
  proof -
    have "unat a < 2 ^ 39" using that by (simp add: unat_less_MAXVA)
    moreover have "unat (PX 2 a) = unat a div 2 ^ 30 mod 512" "unat (PX 1 a) = unat a div 2 ^ 21 mod 512"
      "unat (PX 0 a) = unat a div 2 ^ 12 mod 512"
      using unat_PX [of 2 a] unat_PX [of 1 a] unat_PX [of 0 a] by simp_all
    ultimately show ?thesis by (simp only: page_number_split)
  qed
  have "?f a = ?f b" using split [OF assms(3)] split [OF assms(4)] assms(5-7) by simp
  then show ?thesis
    using assms(1,2) by (simp add: word_unat_eq_iff page_aligned_def) (metis div_mult_mod_eq)
qed

section \<open>Entries in memory\<close>

definition pte_at :: "bytes \<Rightarrow> u64 \<Rightarrow> u64 \<Rightarrow> u64" where
  "pte_at m pt i = ld64 m (unat (pte_addr pt i))"

lemma unat_pte_addr:
  assumes "page_aligned p" "i < 512"
  shows "unat (pte_addr p i) = unat p + 8 * unat i"
proof -
  have "unat p + 4096 \<le> 2 ^ 64" using page_aligned_bound [OF assms(1)] by simp
  moreover have "unat i < 512" using assms(2) by (simp add: word_less_nat_alt)
  ultimately show ?thesis by (simp add: pte_addr_def unat_word_ariths)
qed

lemma pte_at_frame:
  assumes "mem_frame A m m'" "page_aligned p" "\<forall>q\<in>A. page_aligned q" "p \<notin> A" "i < 512"
  shows "pte_at m' p i = pte_at m p i"
  unfolding pte_at_def
proof (rule ld64_cong)
  fix k :: nat assume k: "k < 8"
  have "unat i < 512" using assms(5) by (simp add: word_less_nat_alt)
  with k have r: "unat p \<le> unat (pte_addr p i) + k" "unat (pte_addr p i) + k < unat p + 4096"
    by (simp_all add: unat_pte_addr [OF assms(2,5)])
  have "unat (pte_addr p i) + k < unat q \<or> unat q + 4096 \<le> unat (pte_addr p i) + k" if "q \<in> A" for q
    using aligned_disjoint [of p q] r that assms(2-4) by (cases "p = q") auto
  then show "m' (unat (pte_addr p i) + k) = m (unat (pte_addr p i) + k)"
    using assms(1) by (simp add: mem_frame_def)
qed

lemma pte_at_store:
  assumes "page_aligned p" "i < 512" "j < 512"
  shows "pte_at (st64 m (unat (pte_addr p i)) v) p j = (if j = i then v else pte_at m p j)"
proof (cases "j = i")
  case True
  then show ?thesis by (simp add: pte_at_def)
next
  case False
  then have "unat i \<noteq> unat j" by (auto simp: word_unat_eq_iff)
  then show ?thesis
    using False unfolding pte_at_def unat_pte_addr [OF assms(1,2)] unat_pte_addr [OF assms(1,3)]
    by (subst ld64_st64_other) auto
qed

lemma mem_frame_pte:
  assumes "page_aligned p" "i < 512"
  shows "mem_frame {p} m (st64 m (unat (pte_addr p i)) v)"
proof -
  have "unat i < 512" using assms(2) by (simp add: word_less_nat_alt)
  then show ?thesis
    unfolding mem_frame_def unat_pte_addr [OF assms] by (auto intro!: st64_other)
qed

section \<open>The tree of page-table pages\<close>

text \<open>
  \<open>node m pt is\<close> is the page-table page reached from the root along the indices \<open>is\<close>;
  \<open>ent m pt is j\<close> is entry \<open>j\<close> of that page, 0 if there is no such page. For the two upper
  indices of an address it is the leaf entry of the address.
\<close>

fun node :: "bytes \<Rightarrow> u64 \<Rightarrow> u64 list \<Rightarrow> u64 option" where
  "node m pt [] = Some pt"
| "node m pt (i # is) =
     (if bit (pte_at m pt i) 0 then node m (PTE2PA (pte_at m pt i)) is else None)"

definition ent :: "bytes \<Rightarrow> u64 \<Rightarrow> u64 list \<Rightarrow> u64 \<Rightarrow> u64" where
  "ent m pt is j = (case node m pt is of None \<Rightarrow> 0 | Some p \<Rightarrow> pte_at m p j)"

definition leaf :: "bytes \<Rightarrow> u64 \<Rightarrow> u64 \<Rightarrow> u64" where
  "leaf m pt va = ent m pt [PX 2 va, PX 1 va] (PX 0 va)"

definition idx :: "u64 list \<Rightarrow> bool" where
  "idx is \<longleftrightarrow> length is \<le> 2 \<and> (\<forall>i\<in>set is. i < 512)"

definition tables :: "bytes \<Rightarrow> u64 \<Rightarrow> u64 set" where
  "tables m pt = {p. \<exists>is. idx is \<and> node m pt is = Some p}"

text \<open>The pages form a tree: no page is reached along two paths.\<close>

definition pt_wf :: "bytes \<Rightarrow> u64 \<Rightarrow> bool" where
  "pt_wf m pt \<longleftrightarrow> page_aligned pt \<and>
     (\<forall>is js p. idx is \<and> idx js \<and> node m pt is = Some p \<and> node m pt js = Some p \<longrightarrow> is = js)"

lemma node_append: "node m pt (is @ js) = (case node m pt is of None \<Rightarrow> None | Some p \<Rightarrow> node m p js)"
  by (induction "is" arbitrary: pt) auto

lemma node_snoc:
  "node m pt (is @ [i]) = (case node m pt is of None \<Rightarrow> None
     | Some p \<Rightarrow> if bit (pte_at m p i) 0 then Some (PTE2PA (pte_at m p i)) else None)"
  by (simp add: node_append split: option.split)

lemma idx_snoc: "idx (is @ [i]) \<longleftrightarrow> idx is \<and> length is < 2 \<and> i < 512"
  by (auto simp: idx_def)

lemma idx_PX: "idx [PX 2 va, PX 1 va]" "idx [PX 2 va]" "idx []"
  by (simp_all add: idx_def PX_less)

lemma node_aligned: "page_aligned pt \<Longrightarrow> node m pt is = Some p \<Longrightarrow> page_aligned p"
proof (induction "is" rule: rev_induct)
  case (snoc i "is")
  then show ?case by (auto simp: node_snoc page_aligned_PTE2PA split: option.splits if_splits)
qed simp

lemma tables_aligned: "pt_wf m pt \<Longrightarrow> p \<in> tables m pt \<Longrightarrow> page_aligned p"
  by (auto simp: tables_def pt_wf_def intro: node_aligned)

lemma root_in_tables: "pt \<in> tables m pt"
  by (auto simp: tables_def idx_def intro!: exI [of _ "[]"])

lemma nodeI: "idx is \<Longrightarrow> node m pt is = Some p \<Longrightarrow> p \<in> tables m pt"
  by (auto simp: tables_def)

lemma pt_wf_inj: "pt_wf m pt \<Longrightarrow> idx is \<Longrightarrow> idx js \<Longrightarrow> node m pt is = Some p \<Longrightarrow> node m pt js = Some p \<Longrightarrow> is = js"
  by (auto simp: pt_wf_def)

text \<open>Writes outside the tree leave it alone.\<close>

lemma node_frame:
  assumes "pt_wf m pt" "mem_frame A m m'" "\<forall>q\<in>A. page_aligned q" "A \<inter> tables m pt = {}" "idx is"
  shows "node m' pt is = node m pt is"
  using assms(5)
proof (induction "is" rule: rev_induct)
  case (snoc i "is")
  then have i: "idx is" "i < 512" by (simp_all add: idx_snoc)
  show ?case
  proof (cases "node m pt is")
    case (Some p)
    then have "p \<notin> A" "page_aligned p"
      using i(1) assms(1,4) tables_aligned nodeI by blast+
    then have "pte_at m' p i = pte_at m p i" using assms(2,3) i(2) by (intro pte_at_frame) auto
    with snoc.IH [OF i(1)] Some show ?thesis by (simp add: node_snoc)
  qed (use snoc.IH [OF i(1)] in \<open>simp add: node_snoc\<close>)
qed simp

lemma tree_frame:
  assumes "pt_wf m pt" "mem_frame A m m'" "\<forall>q\<in>A. page_aligned q" "A \<inter> tables m pt = {}"
  shows "pt_wf m' pt" "tables m' pt = tables m pt" "idx is \<Longrightarrow> j < 512 \<Longrightarrow> ent m' pt is j = ent m pt is j"
proof -
  note n = node_frame [OF assms]
  show "pt_wf m' pt" "tables m' pt = tables m pt"
    using assms(1) by (auto simp: pt_wf_def tables_def n)
  assume i: "idx is" "j < 512"
  show "ent m' pt is j = ent m pt is j"
  proof (cases "node m pt is")
    case (Some p)
    then have "p \<notin> A" "page_aligned p"
      using i(1) assms(1,4) tables_aligned nodeI by blast+
    then have "pte_at m' p j = pte_at m p j" using assms(2,3) i(2) by (intro pte_at_frame) auto
    then show ?thesis by (simp add: ent_def n [OF i(1)] Some)
  qed (simp add: ent_def n [OF i(1)])
qed

text \<open>Writing a leaf entry changes that entry only.\<close>

lemma leaf_store:
  fixes v :: u64
  assumes "pt_wf m pt" "node m pt is = Some p" "idx is" "length is = 2" "i < 512"
  defines "m' \<equiv> st64 m (unat (pte_addr p i)) v"
  shows "idx js \<Longrightarrow> node m' pt js = node m pt js"
    and "pt_wf m' pt" "tables m' pt = tables m pt"
    and "idx js \<Longrightarrow> length js = 2 \<Longrightarrow> j < 512 \<Longrightarrow>
      ent m' pt js j = (if js = is \<and> j = i then v else ent m pt js j)"
proof -
  have al: "page_aligned p" using assms(1-3) node_aligned by (auto simp: pt_wf_def)
  have fr: "mem_frame {p} m m'" unfolding m'_def by (rule mem_frame_pte [OF al assms(5)])
  have other: "pte_at m' q j = pte_at m q j" if "idx js" "node m pt js = Some q" "js \<noteq> is" "j < 512" for js q j
  proof -
    have "q \<noteq> p" using that pt_wf_inj [OF assms(1) that(1) assms(3)] assms(2) by auto
    moreover have "page_aligned q" using that assms(1) node_aligned by (auto simp: pt_wf_def)
    ultimately show ?thesis using fr al that(4) by (intro pte_at_frame) auto
  qed
  have n: "node m' pt js = node m pt js" if "idx js" for js
    using that
  proof (induction js rule: rev_induct)
    case (snoc k js)
    then have k: "idx js" "k < 512" "length js < 2" by (simp_all add: idx_snoc)
    then have "js \<noteq> is" using assms(4) by auto
    with k other [OF k(1)] snoc.IH [OF k(1)] show ?case
      by (cases "node m pt js") (simp_all add: node_snoc)
  qed simp
  then show "idx js \<Longrightarrow> node m' pt js = node m pt js" .
  show "pt_wf m' pt" "tables m' pt = tables m pt"
    using assms(1) by (auto simp: pt_wf_def tables_def n)
  assume js: "idx js" "length js = 2" "j < 512"
  show "ent m' pt js j = (if js = is \<and> j = i then v else ent m pt js j)"
  proof (cases "js = is")
    case True
    have "pte_at m' p j = (if j = i then v else pte_at m p j)"
      unfolding m'_def by (rule pte_at_store [OF al assms(5) js(3)])
    then show ?thesis using True n [OF js(1)] assms(2) by (simp add: ent_def)
  next
    case False
    then show ?thesis
      using other [OF js(1) _ False js(3)] by (cases "node m pt js") (simp_all add: ent_def n [OF js(1)])
  qed
qed

text \<open>
  Hanging a fresh, zeroed page into an empty entry of an upper-level table adds one node and
  changes no leaf entry.
\<close>

lemma extend_node:
  fixes np :: u64
  assumes wf: "pt_wf m pt" and ks: "idx ks" "length ks < 2" "node m pt ks = Some q"
    and i: "i < 512" "\<not> bit (pte_at m q i) 0"
    and np: "page_aligned np" "np \<notin> tables m pt"
    and m1: "mem_frame {np} m m1" "\<forall>j<512. pte_at m1 np j = 0"
  defines "m2 \<equiv> st64 m1 (unat (pte_addr q i)) (PA2PTE np OR PTE_V)"
  shows "idx is \<Longrightarrow> node m2 pt is = (if is = ks @ [i] then Some np else node m pt is)"
proof -
  have q: "q \<in> tables m pt" "page_aligned q" "q \<noteq> np"
    using ks wf np(2) nodeI tables_aligned by blast+
  have fr: "mem_frame {q} m1 m2" unfolding m2_def by (rule mem_frame_pte [OF q(2) i(1)])
  have new: "pte_at m2 np j = 0" if "j < 512" for j
    using pte_at_frame [OF fr np(1)] q m1(2) that by auto
  have old: "pte_at m2 p j = (if p = q \<and> j = i then PA2PTE np OR PTE_V else pte_at m p j)"
    if "p \<in> tables m pt" "j < 512" for p j
  proof -
    have p: "page_aligned p" "p \<noteq> np" using that wf np(2) tables_aligned by blast+
    then have 1: "pte_at m1 p j = pte_at m p j" using m1(1) np(1) that(2) by (intro pte_at_frame) auto
    show ?thesis
    proof (cases "p = q")
      case True
      then show ?thesis using pte_at_store [OF q(2) i(1) that(2)] 1 by (simp add: m2_def)
    next
      case False
      then show ?thesis using pte_at_frame [OF fr p(1)] q(2) that(2) 1 by auto
    qed
  qed
  have pte: "bit (PA2PTE np OR PTE_V) 0" "PTE2PA (PA2PTE np OR PTE_V) = np"
    using PTE_make [OF np(1), of PTE_V] by (simp_all add: PTE_V_def bit_simps)
  show "idx is \<Longrightarrow> node m2 pt is = (if is = ks @ [i] then Some np else node m pt is)"
  proof (induction "is" rule: rev_induct)
    case (snoc j "is")
    then have j: "idx is" "j < 512" "length is < 2" by (simp_all add: idx_snoc)
    note IH = snoc.IH [OF j(1)]
    have base: "node m pt (ks @ [i]) = None" using ks(3) i(2) by (simp add: node_snoc)
    show ?case
    proof (cases "is = ks @ [i]")
      case True
      with IH have "node m2 pt is = Some np" by simp
      then have "node m2 pt (is @ [j]) = None" using new [OF j(2)] by (simp add: node_snoc)
      moreover have "node m pt is = None" using base True by simp
      then have "node m pt (is @ [j]) = None" by (simp add: node_snoc)
      moreover have "is @ [j] \<noteq> ks @ [i]" using True by auto
      ultimately show ?thesis by simp
    next
      case False
      show ?thesis
      proof (cases "node m pt is")
        case None
        with False IH ks(3) show ?thesis by (auto simp: node_snoc)
      next
        case (Some p)
        have p: "p \<in> tables m pt" using Some j(1) by (rule nodeI [rotated])
        have "p = q \<longleftrightarrow> is = ks"
          using pt_wf_inj [OF wf j(1) ks(1)] Some ks(3) by auto
        with False IH Some old [OF p j(2)] pte show ?thesis by (auto simp: node_snoc)
      qed
    qed
  qed (use ks in auto)
qed

lemma extend_tree:
  fixes np :: u64
  assumes wf: "pt_wf m pt" and ks: "idx ks" "length ks < 2" "node m pt ks = Some q"
    and i: "i < 512" "\<not> bit (pte_at m q i) 0"
    and np: "page_aligned np" "np \<notin> tables m pt"
    and m1: "mem_frame {np} m m1" "\<forall>j<512. pte_at m1 np j = 0"
  defines "m2 \<equiv> st64 m1 (unat (pte_addr q i)) (PA2PTE np OR PTE_V)"
  shows "pt_wf m2 pt" "tables m2 pt = insert np (tables m pt)" "node m2 pt (ks @ [i]) = Some np"
    and "idx is \<Longrightarrow> length is = 2 \<Longrightarrow> j < 512 \<Longrightarrow> ent m2 pt is j = ent m pt is j"
proof -
  note n = extend_node [OF wf ks i np m1, folded m2_def]
  have ki: "idx (ks @ [i])" using ks i by (simp add: idx_snoc)
  show "node m2 pt (ks @ [i]) = Some np" by (simp add: n [OF ki])
  have nn: "node m pt (ks @ [i]) = None" using ks(3) i(2) by (simp add: node_snoc)
  show "pt_wf m2 pt"
    unfolding pt_wf_def
  proof (intro conjI allI impI)
    show "page_aligned pt" using wf by (simp add: pt_wf_def)
    fix is' js p
    assume "idx is' \<and> idx js \<and> node m2 pt is' = Some p \<and> node m2 pt js = Some p"
    then show "is' = js"
      using np(2) nodeI pt_wf_inj [OF wf, of is' js p] by (auto simp: n split: if_splits)
  qed
  show "tables m2 pt = insert np (tables m pt)"
  proof (intro set_eqI iffI)
    fix p assume "p \<in> tables m2 pt"
    then show "p \<in> insert np (tables m pt)" by (auto simp: tables_def n split: if_splits)
  next
    fix p assume "p \<in> insert np (tables m pt)"
    then consider "p = np" | js where "idx js" "node m pt js = Some p"
      by (auto simp: tables_def)
    then show "p \<in> tables m2 pt"
    proof cases
      case 1
      then show ?thesis using n [OF ki] nodeI [OF ki] by simp
    next
      case (2 js)
      then have "js \<noteq> ks @ [i]" using nn by (metis option.distinct(1))
      with n [OF 2(1)] 2(2) have "node m2 pt js = Some p" by simp
      then show ?thesis by (rule nodeI [OF 2(1)])
    qed
  qed
  have q: "q \<in> tables m pt" "page_aligned q" "q \<noteq> np"
    using ks wf np(2) nodeI tables_aligned by blast+
  have fr: "mem_frame {q} m1 m2" unfolding m2_def by (rule mem_frame_pte [OF q(2) i(1)])
  assume js: "idx is" "length is = 2" "j < 512"
  show "ent m2 pt is j = ent m pt is j"
  proof (cases "is = ks @ [i]")
    case True
    have "pte_at m2 np j = 0" using pte_at_frame [OF fr np(1)] q m1(2) js(3) by auto
    moreover have "node m2 pt is = Some np" "node m pt is = None" using n [OF js(1)] nn unfolding True by simp_all
    ultimately show ?thesis by (simp add: ent_def)
  next
    case False
    show ?thesis
    proof (cases "node m pt is")
      case (Some p)
      have p1: "p \<in> tables m pt" by (rule nodeI [OF js(1) Some])
      have p: "page_aligned p" "p \<noteq> np" using p1 np(2) tables_aligned [OF wf] by auto
      have "p \<noteq> q" using pt_wf_inj [OF wf js(1) ks(1) Some] js(2) ks(2,3) by auto
      with p have "pte_at m2 p j = pte_at m p j"
        using pte_at_frame [OF fr p(1)] pte_at_frame [OF m1(1) p(1)] q(2) np(1) js(3) by auto
      with False Some show ?thesis by (simp add: ent_def n [OF js(1)])
    qed (use False in \<open>simp add: ent_def n [OF js(1)]\<close>)
  qed
qed

section \<open>Walking\<close>

lemma walk_False:
  assumes "va < MAXVA"
  shows "walk pt va False s =
    Ok (case node (mem s) pt [PX 2 va, PX 1 va] of None \<Rightarrow> 0 | Some p \<Rightarrow> pte_addr p (PX 0 va)) s"
proof -
  have 2: "(2::nat) = Suc (Suc 0)" by simp
  show ?thesis
    using assms unfolding walk_def 2
    by (simp add: load64_def bnd_def pte_at_def pte_flag not_le Let_def)
qed

text \<open>
  The state a page-table operation works in: an intact free list, an intact tree of pages, and
  no page both free and in the tree.
\<close>

definition vm_inv :: "'x kmem_st_scheme \<Rightarrow> u64 \<Rightarrow> u64 list \<Rightarrow> bool" where
  "vm_inv s pt xs \<longleftrightarrow> kmem_inv s xs \<and> cpu_ok s \<and> unlocked L_kmem s \<and> pt_wf (mem s) pt \<and>
     (\<forall>p\<in>tables (mem s) pt. ram_page s p) \<and> tables (mem s) pt \<inter> set xs = {}"

text \<open>
  What taking pages off the free list for new tables may change: \<open>A\<close> are the pages taken.
\<close>

definition vm_grow :: "'x kmem_st_scheme \<Rightarrow> 'x kmem_st_scheme \<Rightarrow> u64 \<Rightarrow> u64 list \<Rightarrow> u64 list \<Rightarrow> bool" where
  "vm_grow s s' pt xs xs' \<longleftrightarrow>
     (\<exists>A m f c. xs = A @ xs' \<and> s' = s\<lparr>mem := m, freelist := f, cpus := c\<rparr> \<and> balanced s s' \<and>
        mem_frame (tables (mem s) pt \<union> set A) (mem s) m \<and>
        tables m pt = tables (mem s) pt \<union> set A)"

definition same_leaves :: "bytes \<Rightarrow> bytes \<Rightarrow> u64 \<Rightarrow> bool" where
  "same_leaves m m' pt \<longleftrightarrow>
     (\<forall>is j. idx is \<and> length is = 2 \<and> j < 512 \<longrightarrow> ent m' pt is j = ent m pt is j)"

lemma same_leaves_refl [simp]: "same_leaves m m pt"
  by (simp add: same_leaves_def)

lemma same_leaves_trans: "same_leaves m m' pt \<Longrightarrow> same_leaves m' m'' pt \<Longrightarrow> same_leaves m m'' pt"
  by (simp add: same_leaves_def)

lemma vm_grow_refl: "vm_grow s (s\<lparr>cpus := cs_cpus s\<rparr>) pt xs xs"
  unfolding vm_grow_def
  by (rule exI [of _ "[]"], rule exI [of _ "mem s"], rule exI [of _ "freelist s"], rule exI [of _ "cs_cpus s"])
    (simp add: balanced_def)

lemma vm_grow_id: "vm_grow s s pt xs xs"
  unfolding vm_grow_def
  by (rule exI [of _ "[]"], rule exI [of _ "mem s"], rule exI [of _ "freelist s"], rule exI [of _ "cpus s"]) simp

lemma vm_grow_trans:
  assumes "vm_grow s t pt xs ys" "vm_grow t u pt ys zs"
  shows "vm_grow s u pt xs zs"
proof -
  from assms(1) obtain A m f c where 1: "xs = A @ ys" "t = s\<lparr>mem := m, freelist := f, cpus := c\<rparr>" "balanced s t"
    "mem_frame (tables (mem s) pt \<union> set A) (mem s) m" "tables m pt = tables (mem s) pt \<union> set A"
    by (auto simp: vm_grow_def)
  from assms(2) obtain B m' f' c' where 2: "ys = B @ zs" "u = t\<lparr>mem := m', freelist := f', cpus := c'\<rparr>" "balanced t u"
    "mem_frame (tables m pt \<union> set B) m m'" "tables m' pt = tables m pt \<union> set B"
    unfolding vm_grow_def using 1(2) by auto
  have "mem_frame (tables (mem s) pt \<union> set (A @ B)) (mem s) m'"
    by (rule mem_frame_mono [OF _ mem_frame_trans [OF 1(4) 2(4)]]) (use 1(5) in auto)
  moreover have "u = s\<lparr>mem := m', freelist := f', cpus := c'\<rparr>" using 1(2) 2(2) by simp
  moreover have "balanced s u" by (rule balanced_trans [OF 1(3) 2(3)])
  moreover have "tables m' pt = tables (mem s) pt \<union> set (A @ B)" using 1(5) 2(5) by auto
  ultimately show ?thesis unfolding vm_grow_def using 1(1) 2(1) by (metis append.assoc)
qed

lemma kalloc_table:
  assumes inv: "vm_inv s pt xs"
    and ks: "idx ks" "length ks < 2" "node (mem s) pt ks = Some q"
    and i: "i < 512" "\<not> bit (pte_at (mem s) q i) 0" and xs: "xs = np # ys"
  shows "\<exists>s'. bnd kalloc (\<lambda>p. if p = 0 then g else seq (kmemset p 0 PGSIZE)
       (seq (store64 (pte_addr q i) (PA2PTE p OR PTE_V)) (f p))) s = f np s' \<and>
     vm_inv s' pt ys \<and> vm_grow s s' pt xs ys \<and> np \<noteq> 0 \<and> node (mem s') pt (ks @ [i]) = Some np \<and>
     same_leaves (mem s) (mem s') pt"
proof -
  from inv have k: "kmem_inv s xs" and l: "unlocked L_kmem s" "cpu_ok s" and wf: "pt_wf (mem s) pt"
    and tb: "\<forall>p\<in>tables (mem s) pt. ram_page s p" "tables (mem s) pt \<inter> set xs = {}"
    by (simp_all add: vm_inv_def)
  have np: "np \<noteq> 0" "freelist s = np" "page_aligned np" "np \<notin> tables (mem s) pt" "ram_page s np" "np \<notin> set ys"
    using k xs tb(2) by (auto simp: kmem_inv_def ram_page_def)
  define m1 where "m1 = memset (memset (mem s) (unat np) 5 PGSIZE) (unat np) 0 PGSIZE"
  define m2 where "m2 = st64 m1 (unat (pte_addr q i)) (PA2PTE np OR PTE_V)"
  define s' where "s' = s\<lparr>freelist := ld64 (mem s) (unat np), cpus := cs_cpus s, mem := m2\<rparr>"
  have fr1: "mem_frame {np} (mem s) m1"
    unfolding m1_def by (rule mem_frame_trans1 [OF mem_frame_memset mem_frame_memset]) simp_all
  have z: "\<forall>j<512. pte_at m1 np j = 0"
  proof (intro allI impI)
    fix j :: u64 assume j: "j < 512"
    then have "unat j < 512" by (simp add: word_less_nat_alt)
    then have "ld64 m1 (unat np + 8 * unat j) = ld64 (\<lambda>_. 0) (unat np + 8 * unat j)"
      by (intro ld64_cong) (simp add: m1_def memset_eq)
    then show "pte_at m1 np j = 0"
      by (simp add: pte_at_def unat_pte_addr [OF np(3) j] ld64_zero)
  qed
  note ext = extend_tree [OF wf ks i np(3,4) fr1 z, folded m2_def]
  have q: "q \<in> tables (mem s) pt" "page_aligned q" using ks wf nodeI tables_aligned by blast+
  have "mem_frame {q} m1 m2" unfolding m2_def by (rule mem_frame_pte [OF q(2) i(1)])
  from mem_frame_trans [OF fr1 this] have fr2: "mem_frame (tables (mem s) pt \<union> {np}) (mem s) m2"
    by (rule mem_frame_mono [rotated]) (use q(1) in auto)
  have fl: "flist (mem s) (ld64 (mem s) (unat np)) ys" "distinct ys" "0 < kend s" "\<forall>x\<in>set ys. ram_page s x"
    using k xs np(2) by (auto simp: kmem_inv_def)
  have "\<forall>x\<in>set ys. page_aligned x \<and> x \<notin> tables (mem s) pt \<union> {np}" "\<forall>a\<in>tables (mem s) pt \<union> {np}. page_aligned a"
    using fl(4) tb np xs by (auto simp: ram_page_def)
  then have fl2: "flist m2 (ld64 (mem s) (unat np)) ys"
    using flist_frame_set [OF fl(1) _ fr2] by blast
  have sel: "mem s' = m2" "freelist s' = ld64 (mem s) (unat np)" "kend s' = kend s" "balanced s s'"
    by (simp_all add: s'_def balanced_def)
  have "ram_page s' = ram_page s" by (rule ram_page_cong) (rule sel)
  moreover have "kmem_inv s' ys" using fl fl2 sel \<open>ram_page s' = ram_page s\<close> by (simp add: kmem_inv_def)
  moreover have "cpu_ok s'" "unlocked L_kmem s'"
    using l balanced_cpu_ok [OF sel(4)] balanced_unlocked [OF sel(4)] by simp_all
  moreover have "insert np (tables (mem s) pt) \<inter> set ys = {}" using tb(2) np(6) xs by auto
  ultimately have inv': "vm_inv s' pt ys"
    using ext(1,2) tb(1) np(5) sel(1) by (simp add: vm_inv_def)
  have "xs = [np] @ ys \<and> s' = s\<lparr>mem := m2, freelist := ld64 (mem s) (unat np), cpus := cs_cpus s\<rparr> \<and>
      balanced s s' \<and> mem_frame (tables (mem s) pt \<union> set [np]) (mem s) m2 \<and>
      tables m2 pt = tables (mem s) pt \<union> set [np]"
    using xs sel(4) fr2 ext(2) by (simp add: s'_def)
  then have gr: "vm_grow s s' pt xs ys" unfolding vm_grow_def by blast
  have "bnd kalloc (\<lambda>p. if p = 0 then g else seq (kmemset p 0 PGSIZE)
       (seq (store64 (pte_addr q i) (PA2PTE p OR PTE_V)) (f p))) s = f np s'"
    unfolding bnd_def kalloc_eq [OF l] np(2)
    using np(1) by (simp add: seq_def bnd_def kmemset_def store64_def s'_def m2_def m1_def)
  then show ?thesis
    using inv' gr np(1) ext(3,4) sel(1) by (intro exI [of _ s']) (simp add: same_leaves_def)
qed

fun vpath :: "nat \<Rightarrow> u64 \<Rightarrow> u64 list" where
  "vpath 0 va = []"
| "vpath (Suc l) va = PX (Suc l) va # vpath l va"

lemma vpath_2: "vpath 2 va = [PX 2 va, PX 1 va]"
  by (simp add: numeral_2_eq_2)

lemma walk_loop_alloc:
  assumes "vm_inv s pt xs" "node (mem s) pt ks = Some q" "idx ks" "length ks + l = 2"
  shows "\<exists>r s' xs'. walk_loop l q va True s = Ok r s' \<and> vm_inv s' pt xs' \<and> vm_grow s s' pt xs xs' \<and>
     same_leaves (mem s) (mem s') pt \<and>
     length xs \<le> length xs' + l \<and> (r = 0 \<longrightarrow> xs' = [] \<and> length xs < l) \<and>
     (r \<noteq> 0 \<longrightarrow> (\<exists>p. node (mem s') pt (ks @ vpath l va) = Some p \<and> r = pte_addr p (PX 0 va)))"
  using assms
proof (induction l arbitrary: s xs ks q)
  case 0
  have "vm_grow s s pt xs xs" by (rule vm_grow_id)
  moreover have "pte_addr q (PX 0 va) \<noteq> 0"
  proof -
    have q: "q \<in> tables (mem s) pt" using 0 nodeI by blast
    then have "ram_page s q" "0 < kend s" using 0 by (auto simp: vm_inv_def kmem_inv_def)
    then have "page_aligned q" "0 < unat q" by (auto simp: ram_page_def word_less_nat_alt word_le_nat_alt)
    then have "0 < unat (pte_addr q (PX 0 va))" by (simp add: unat_pte_addr PX_less)
    then show ?thesis by auto
  qed
  ultimately show ?case using 0 by auto
next
  case (Suc l)
  let ?i = "PX (Suc l) va"
  let ?e = "pte_at (mem s) q ?i"
  have ks: "length ks < 2" "idx (ks @ [?i])" using Suc.prems(3,4) by (auto simp: idx_snoc PX_less)
  have ld: "load64 (pte_addr q ?i) s = Ok ?e s" by (simp add: load64_def pte_at_def)
  show ?case
  proof (cases "bit ?e 0")
    case True
    then have "node (mem s) pt (ks @ [?i]) = Some (PTE2PA ?e)" using Suc.prems(2) by (simp add: node_snoc)
    note IH = Suc.IH [OF Suc.prems(1) this ks(2)]
    have "walk_loop (Suc l) q va True s = walk_loop l (PTE2PA ?e) va True s"
      using True by (simp add: Let_def bnd_def ld pte_flag)
    moreover from IH Suc.prems(4) obtain r s' xs' where
      "walk_loop l (PTE2PA ?e) va True s = Ok r s'" "vm_inv s' pt xs'" "vm_grow s s' pt xs xs'"
      "same_leaves (mem s) (mem s') pt" "length xs \<le> length xs' + l" "r = 0 \<longrightarrow> xs' = [] \<and> length xs < l"
      "r \<noteq> 0 \<longrightarrow> (\<exists>p. node (mem s') pt ((ks @ [?i]) @ vpath l va) = Some p \<and> r = pte_addr p (PX 0 va))"
      by auto
    ultimately show ?thesis
      by (intro exI [of _ r] exI [of _ s'] exI [of _ xs']) (auto simp del: walk_loop.simps)
  next
    case False
    show ?thesis
    proof (cases xs)
      case Nil
      have l: "unlocked L_kmem s" "cpu_ok s" and fl: "freelist s = 0"
        using Suc.prems(1) Nil by (auto simp: vm_inv_def kmem_inv_def)
      let ?s = "s\<lparr>cpus := cs_cpus s\<rparr>"
      have "walk_loop (Suc l) q va True s = Ok 0 ?s"
        using False by (simp add: Let_def bnd_def ld pte_flag kalloc_eq [OF l] fl)
      moreover have "vm_inv ?s pt []"
        using Suc.prems(1) Nil
        by (auto simp: vm_inv_def kmem_inv_def cpu_ok_def cs_cpus_def unlocked_def ram_page_def)
      ultimately show ?thesis using vm_grow_refl [of s pt "[]"] Nil by auto
    next
      case (Cons np ys)
      from kalloc_table [OF Suc.prems(1,3) ks(1) Suc.prems(2) PX_less(1) False Cons,
          where g = "ret 0" and f = "\<lambda>p. walk_loop l p va True"]
      obtain t where t: "walk_loop (Suc l) q va True s = walk_loop l np va True t"
        "vm_inv t pt ys" "vm_grow s t pt xs ys" "node (mem t) pt (ks @ [?i]) = Some np"
        "same_leaves (mem s) (mem t) pt"
        using False by (auto simp: Let_def bnd_def [of "load64 _"] ld pte_flag)
      have "length (ks @ [?i]) + l = 2" using Suc.prems(4) by simp
      from Suc.IH [OF t(2,4) ks(2) this] obtain r s' xs' where
        "walk_loop l np va True t = Ok r s'" "vm_inv s' pt xs'" "vm_grow t s' pt ys xs'"
        "same_leaves (mem t) (mem s') pt" "length ys \<le> length xs' + l" "r = 0 \<longrightarrow> xs' = [] \<and> length ys < l"
        "r \<noteq> 0 \<longrightarrow> (\<exists>p. node (mem s') pt ((ks @ [?i]) @ vpath l va) = Some p \<and> r = pte_addr p (PX 0 va))"
        by blast
      with t(1) show ?thesis
        using vm_grow_trans [OF t(3), of s' xs'] same_leaves_trans [OF t(5), of "mem s'"]
        by (intro exI [of _ r] exI [of _ s'] exI [of _ xs']) (simp add: Cons del: walk_loop.simps)
    qed
  qed
qed

lemma walk_True:
  assumes "vm_inv s pt xs" "va < MAXVA"
  shows "\<exists>r s' xs'. walk pt va True s = Ok r s' \<and> vm_inv s' pt xs' \<and> vm_grow s s' pt xs xs' \<and>
     same_leaves (mem s) (mem s') pt \<and> length xs \<le> length xs' + 2 \<and> (r = 0 \<longrightarrow> xs' = [] \<and> length xs < 2) \<and>
     (r \<noteq> 0 \<longrightarrow> (\<exists>p. node (mem s') pt [PX 2 va, PX 1 va] = Some p \<and> r = pte_addr p (PX 0 va)))"
proof -
  have "\<not> MAXVA \<le> va" using assms(2) by simp
  then show ?thesis
    using walk_loop_alloc [OF assms(1), of "[]" pt 2 va]
    by (simp only: walk_def if_False append_Nil vpath_2 idx_PX(3) node.simps list.size simp_thms)
qed

text \<open>Two addresses below MAXVA have the same leaf entry exactly if they are in the same page.\<close>

lemma PX_PGROUNDDOWN: "PX l (PGROUNDDOWN a) = PX l a"
proof -
  have "(unat a - unat a mod 4096) div 4096 = unat a div 4096"
    by (simp add: minus_mod_eq_div_mult)
  then have "(unat a - unat a mod 4096) div (4096 * 2 ^ (9 * l)) = unat a div (4096 * 2 ^ (9 * l))"
    by (simp only: div_mult2_eq)
  then show ?thesis
    by (simp add: word_unat_eq_iff unat_PX unat_PGROUNDDOWN power_add)
qed

lemma same_page_iff:
  assumes "a < MAXVA" "b < MAXVA"
  shows "PX 2 a = PX 2 b \<and> PX 1 a = PX 1 b \<and> PX 0 a = PX 0 b \<longleftrightarrow> PGROUNDDOWN a = PGROUNDDOWN b"
proof
  have less: "PGROUNDDOWN c < MAXVA" if "c < MAXVA" for c
    using that unfolding unat_less_MAXVA unat_PGROUNDDOWN by (rule le_less_trans [OF diff_le_self])
  assume *: "PX 2 a = PX 2 b \<and> PX 1 a = PX 1 b \<and> PX 0 a = PX 0 b"
  show "PGROUNDDOWN a = PGROUNDDOWN b"
    by (rule PX_inj [OF page_aligned_PGROUNDDOWN page_aligned_PGROUNDDOWN less [OF assms(1)] less [OF assms(2)]])
      (use * in \<open>simp_all only: PX_PGROUNDDOWN simp_thms\<close>)
next
  assume *: "PGROUNDDOWN a = PGROUNDDOWN b"
  have "PX l a = PX l b" for l
    using PX_PGROUNDDOWN [of l a] PX_PGROUNDDOWN [of l b] unfolding * by simp
  then show "PX 2 a = PX 2 b \<and> PX 1 a = PX 1 b \<and> PX 0 a = PX 0 b" by blast
qed

lemma leaf_PGROUNDDOWN: "leaf m pt (PGROUNDDOWN a) = leaf m pt a"
  by (simp add: leaf_def PX_PGROUNDDOWN)

lemma same_leaves_leaf: "same_leaves m m' pt \<Longrightarrow> leaf m' pt a = leaf m pt a"
  by (simp add: same_leaves_def leaf_def idx_PX PX_less del: One_nat_def)

lemma leaf_store_va:
  assumes "pt_wf m pt" "node m pt [PX 2 va, PX 1 va] = Some p" "va < MAXVA" "a < MAXVA"
  shows "leaf (st64 m (unat (pte_addr p (PX 0 va))) v) pt a =
    (if PGROUNDDOWN a = PGROUNDDOWN va then v else leaf m pt a)"
  unfolding leaf_def
  using leaf_store(4) [OF assms(1,2) idx_PX(1) _ PX_less(1) [of 0 va], where js = "[PX 2 a, PX 1 a]"
      and j = "PX 0 a" and v = v] same_page_iff [OF assms(4,3)]
  by (simp add: idx_PX PX_less del: One_nat_def)

text \<open>Writing a leaf entry keeps the invariant and touches only the table it is in.\<close>

lemma vm_store_leaf:
  fixes e :: u64
  assumes inv: "vm_inv s pt xs" and n: "node (mem s) pt [PX 2 va, PX 1 va] = Some p"
  defines "s' \<equiv> s\<lparr>mem := st64 (mem s) (unat (pte_addr p (PX 0 va))) e\<rparr>"
  shows "vm_inv s' pt xs" "vm_grow s s' pt xs xs"
proof -
  let ?m = "st64 (mem s) (unat (pte_addr p (PX 0 va))) e"
  have wf: "pt_wf (mem s) pt" and tb: "\<forall>p\<in>tables (mem s) pt. ram_page s p" "tables (mem s) pt \<inter> set xs = {}"
    and k: "kmem_inv s xs" and l: "cpu_ok s" "unlocked L_kmem s"
    using inv by (simp_all add: vm_inv_def)
  note st = leaf_store(2,3) [OF wf n idx_PX(1) _ PX_less(1) [of 0 va], where v = e]
  have p: "p \<in> tables (mem s) pt" by (rule nodeI [OF idx_PX(1) n])
  then have al: "page_aligned p" by (rule tables_aligned [OF wf])
  have fr: "mem_frame {p} (mem s) ?m" by (rule mem_frame_pte [OF al PX_less(1)])
  have "flist ?m (freelist s) xs"
    using k tb p by (intro flist_mem_frame [OF _ _ al _ fr]) (auto simp: kmem_inv_def ram_page_def)
  with k have "kmem_inv s' xs" by (simp add: kmem_inv_def s'_def ram_page_def)
  moreover have "ram_page s' = ram_page s" "cpu_ok s' = cpu_ok s" "unlocked L_kmem s' = unlocked L_kmem s"
    by (simp_all add: s'_def ram_page_def fun_eq_iff cpu_ok_def unlocked_def)
  ultimately show "vm_inv s' pt xs"
    using st tb l by (simp add: vm_inv_def s'_def)
  have "mem_frame (tables (mem s) pt \<union> set []) (mem s) ?m"
    by (rule mem_frame_mono [OF _ fr]) (use p in auto)
  moreover have "s' = s\<lparr>mem := ?m, freelist := freelist s, cpus := cpus s\<rparr>" "balanced s s'"
    by (simp_all add: s'_def balanced_def)
  moreover have "tables ?m pt = tables (mem s) pt \<union> set []" using st(2) by simp
  ultimately show "vm_grow s s' pt xs xs"
    unfolding vm_grow_def
    by (intro exI [of _ "[]"] exI [of _ ?m] exI [of _ "freelist s"] exI [of _ "cpus s"]) simp
qed

section \<open>Mapping a range\<close>

lemma in_page_iff:
  assumes "page_aligned a"
  shows "PGROUNDDOWN b = a \<longleftrightarrow> unat a \<le> unat b \<and> unat b < unat a + PGSIZE"
proof -
  obtain k where k: "unat a = k * 4096"
    using assms unfolding page_aligned_def by (metis div_mult_mod_eq add.right_neutral)
  have "PGROUNDDOWN b = a \<longleftrightarrow> unat b div 4096 * 4096 = k * 4096"
    by (simp add: word_unat_eq_iff unat_PGROUNDDOWN k minus_mod_eq_div_mult)
  also have "\<dots> \<longleftrightarrow> unat b div 4096 = k" by simp
  also have "\<dots> \<longleftrightarrow> k * 4096 \<le> unat b \<and> unat b < Suc k * 4096"
    by (metis div_less_iff_less_mult less_eq_div_iff_mult_less_eq less_Suc_eq_le le_antisym zero_less_numeral order_refl)
  finally show ?thesis by (simp add: k add.commute)
qed

lemma page_offset:
  assumes "page_aligned a" "unat a + i * PGSIZE < 2 ^ 64"
  shows "unat (a + of_nat i * PGSIZE) = unat a + i * PGSIZE" "page_aligned (a + of_nat i * PGSIZE)"
proof -
  have "i * 4096 < 2 ^ 64" "i < 2 ^ 64" using assms(2) by simp_all
  then have "unat (of_nat i * PGSIZE :: u64) = i * 4096"
    by (simp add: unat_word_ariths unat_of_nat)
  then show u: "unat (a + of_nat i * PGSIZE) = unat a + i * PGSIZE"
    using assms(2) by (simp add: unat_word_ariths)
  show "page_aligned (a + of_nat i * PGSIZE)"
    using assms(1) unfolding page_aligned_def u by simp
qed

end
