(* ===== verification/Vmspace.thy ===== *)
theory Vmspace
  imports Pagetable
begin

text \<open>
  What the page-table operations do to the address mapping: \<open>mappages\<close>, \<open>uvmunmap\<close>,
  \<open>walkaddr\<close>, and the copies between kernel and user space through a page table.
\<close>

section \<open>mappages\<close>

text \<open>The mapping after the first \<open>i\<close> pages from \<open>va\<close> have been mapped to \<open>pa\<close>.\<close>

definition mapped :: "bytes \<Rightarrow> u64 \<Rightarrow> u64 \<Rightarrow> u64 \<Rightarrow> u64 \<Rightarrow> nat \<Rightarrow> u64 \<Rightarrow> u64" where
  "mapped m pt va pa perm i b =
     (if unat va \<le> unat b \<and> unat b < unat va + i * PGSIZE
      then PA2PTE (pa + (PGROUNDDOWN b - va)) OR perm OR PTE_V
      else leaf m pt b)"

lemma mapped_0: "mapped m pt va pa perm 0 b = leaf m pt b"
  by (auto simp: mapped_def)

lemma mapped_Suc:
  assumes "page_aligned va" "unat va + i * PGSIZE < 2 ^ 64"
  shows "mapped m pt va pa perm (Suc i) b =
    (if PGROUNDDOWN b = va + of_nat i * PGSIZE
     then PA2PTE (pa + of_nat i * PGSIZE) OR perm OR PTE_V else mapped m pt va pa perm i b)"
proof (cases "PGROUNDDOWN b = va + of_nat i * PGSIZE")
  case True
  then have "unat va + i * 4096 \<le> unat b" "unat b < unat va + i * 4096 + 4096"
    using in_page_iff [OF page_offset(2) [OF assms], of b] by (simp_all add: page_offset(1) [OF assms])
  moreover have "PGROUNDDOWN b - va = of_nat i * PGSIZE" by (simp add: True)
  ultimately show ?thesis by (simp add: mapped_def True)
next
  case False
  then have "\<not> (unat va + i * 4096 \<le> unat b \<and> unat b < unat va + i * 4096 + 4096)"
    using in_page_iff [OF page_offset(2) [OF assms], of b] by (simp add: page_offset(1) [OF assms])
  with False show ?thesis by (auto simp: mapped_def)
qed

text \<open>One iteration: \<open>walk\<close> finds or makes the slot, which is then written.\<close>

lemma map_page:
  assumes inv: "vm_inv s pt xs" and a: "a < MAXVA" and v: "\<not> bit (leaf (mem s) pt a) 0"
  shows "\<exists>s' xs'. vm_inv s' pt xs' \<and> vm_grow s s' pt xs xs' \<and> length xs \<le> length xs' + 2 \<and>
    (walk pt a True s = Ok 0 s' \<and> xs' = [] \<and> length xs < 2 \<and> same_leaves (mem s) (mem s') pt \<or>
     (\<exists>pte t. pte \<noteq> 0 \<and> walk pt a True s = Ok pte t \<and> \<not> bit (ld64 (mem t) (unat pte)) 0 \<and>
        store64 pte e t = Ok () s' \<and>
        (\<forall>b<MAXVA. leaf (mem s') pt b = (if PGROUNDDOWN b = PGROUNDDOWN a then e else leaf (mem s) pt b))))"
proof -
  from walk_True [OF inv a] obtain r t ys where w: "walk pt a True s = Ok r t" "vm_inv t pt ys"
    "vm_grow s t pt xs ys" "same_leaves (mem s) (mem t) pt" "length xs \<le> length ys + 2" "r = 0 \<longrightarrow> ys = [] \<and> length xs < 2"
    "r \<noteq> 0 \<longrightarrow> (\<exists>p. node (mem t) pt [PX 2 a, PX 1 a] = Some p \<and> r = pte_addr p (PX 0 a))"
    by blast
  show ?thesis
  proof (cases "r = 0")
    case True
    with w show ?thesis by (intro exI [of _ t] exI [of _ ys]) simp
  next
    case False
    with w(7) obtain p where p: "node (mem t) pt [PX 2 a, PX 1 a] = Some p" "r = pte_addr p (PX 0 a)"
      by blast
    let ?s = "t\<lparr>mem := st64 (mem t) (unat r) e\<rparr>"
    have st: "vm_inv ?s pt ys" "vm_grow t ?s pt ys ys"
      using vm_store_leaf [OF w(2) p(1), of e] unfolding p(2) by simp_all
    have wf: "pt_wf (mem t) pt" using w(2) by (simp add: vm_inv_def)
    have "leaf (mem t) pt a = ld64 (mem t) (unat r)"
      by (simp only: leaf_def ent_def p option.case pte_at_def)
    then have "\<not> bit (ld64 (mem t) (unat r)) 0" using v same_leaves_leaf [OF w(4), of a] by simp
    moreover have "leaf (mem ?s) pt b = (if PGROUNDDOWN b = PGROUNDDOWN a then e else leaf (mem s) pt b)"
      if "b < MAXVA" for b
      using leaf_store_va [OF wf p(1) a that, of e] same_leaves_leaf [OF w(4), of b] p(2) by simp
    moreover have "store64 r e t = Ok () ?s" by (simp add: store64_def)
    ultimately show ?thesis
      using False w(1,5) st vm_grow_trans [OF w(3) st(2)] by blast
  qed
qed

lemma pte_range:
  assumes "page_aligned va" "unat va + n * PGSIZE \<le> 2 ^ 38" "i < n"
  shows "va + of_nat i * PGSIZE < MAXVA" "unat va + i * PGSIZE < 2 ^ 64"
    "PGROUNDDOWN (va + of_nat i * PGSIZE) = va + of_nat i * PGSIZE"
proof -
  have "i * 4096 < n * 4096" using assms(3) by simp
  with assms(2) have u: "unat va + i * 4096 < 2 ^ 38" by linarith
  then show 1: "unat va + i * PGSIZE < 2 ^ 64" by simp
  show "va + of_nat i * PGSIZE < MAXVA" using u by (simp add: unat_less_MAXVA page_offset(1) [OF assms(1) 1])
  show "PGROUNDDOWN (va + of_nat i * PGSIZE) = va + of_nat i * PGSIZE"
    by (rule PGROUNDDOWN_aligned) (rule page_offset(2) [OF assms(1) 1])
qed

lemma mappages_step_ok:
  assumes inv: "vm_inv s pt xs" and a: "a < MAXVA" and v: "\<not> bit (leaf (mem s) pt a) 0"
  shows "\<exists>r s' ys. mappages_step pt perm q (a, p) s = Ok r s' \<and> vm_inv s' pt ys \<and> vm_grow s s' pt xs ys \<and>
    length xs \<le> length ys + 2 \<and>
    (r = Inr (-1) \<and> ys = [] \<and> length xs < 2 \<and> (\<forall>b<MAXVA. leaf (mem s') pt b = leaf (mem s) pt b) \<or>
     r = (if a = q then Inr 0 else Inl (a + PGSIZE, p + PGSIZE)) \<and>
     (\<forall>b<MAXVA. leaf (mem s') pt b = (if PGROUNDDOWN b = PGROUNDDOWN a
        then PA2PTE p OR perm OR PTE_V else leaf (mem s) pt b)))"
proof -
  from map_page [OF inv a v, of "PA2PTE p OR perm OR PTE_V"]
  obtain s' ys where m: "vm_inv s' pt ys" "vm_grow s s' pt xs ys" "length xs \<le> length ys + 2" and
    d: "walk pt a True s = Ok 0 s' \<and> ys = [] \<and> length xs < 2 \<and> same_leaves (mem s) (mem s') pt \<or>
    (\<exists>pte u. pte \<noteq> 0 \<and> walk pt a True s = Ok pte u \<and> \<not> bit (ld64 (mem u) (unat pte)) 0 \<and>
      store64 pte (PA2PTE p OR perm OR PTE_V) u = Ok () s' \<and>
      (\<forall>b<MAXVA. leaf (mem s') pt b = (if PGROUNDDOWN b = PGROUNDDOWN a
         then PA2PTE p OR perm OR PTE_V else leaf (mem s) pt b)))"
    by blast
  from d show ?thesis
  proof (elim disjE conjE exE)
    assume w: "walk pt a True s = Ok 0 s'" "ys = []" "length xs < 2" "same_leaves (mem s) (mem s') pt"
    have "mappages_step pt perm q (a, p) s = Ok (Inr (-1)) s'" by (simp add: mappages_step_def bnd_def w(1))
    then show ?thesis using w(2,3) m same_leaves_leaf [OF w(4)] by blast
  next
    fix pte u
    assume w: "pte \<noteq> 0" "walk pt a True s = Ok pte u" "\<not> bit (ld64 (mem u) (unat pte)) 0"
      "store64 pte (PA2PTE p OR perm OR PTE_V) u = Ok () s'"
      and L: "\<forall>b<MAXVA. leaf (mem s') pt b = (if PGROUNDDOWN b = PGROUNDDOWN a
         then PA2PTE p OR perm OR PTE_V else leaf (mem s) pt b)"
    have "mappages_step pt perm q (a, p) s = Ok (if a = q then Inr 0 else Inl (a + PGSIZE, p + PGSIZE)) s'"
      by (simp add: mappages_step_def bnd_def load64_def pte_flag seq_def w)
    then show ?thesis using m L by blast
  qed
qed

lemma wp_mappages:
  assumes inv: "vm_inv s pt xs" and al: "page_aligned va" "unat sz = n * PGSIZE" "0 < n"
    and top: "unat va + n * PGSIZE \<le> 2 ^ 38"
    and free: "\<forall>b. unat va \<le> unat b \<and> unat b < unat va + n * PGSIZE \<longrightarrow> \<not> bit (leaf (mem s) pt b) 0"
  shows "wp (mappages pt va sz pa perm) (\<lambda>r t. \<exists>ys k. vm_inv t pt ys \<and> vm_grow s t pt xs ys \<and> k \<le> n \<and>
     (\<forall>b<MAXVA. leaf (mem t) pt b = mapped (mem s) pt va pa perm k b) \<and>
     (r = 0 \<and> k = n \<or> r = -1 \<and> ys = [] \<and> length xs < 2 * n)) s"
    (is "wp _ ?Q s")
proof -
  let ?a = "\<lambda>i. va + of_nat i * PGSIZE" and ?p = "\<lambda>i. pa + of_nat i * PGSIZE"
  let ?L = "\<lambda>i t. \<forall>b<MAXVA. leaf (mem t) pt b = mapped (mem s) pt va pa perm i b"
  let ?I = "\<lambda>(a, p) t. \<exists>i ys. i < n \<and> a = ?a i \<and> p = ?p i \<and> vm_inv t pt ys \<and> vm_grow s t pt xs ys \<and>
    length xs \<le> length ys + 2 * i \<and> ?L i t"
  let ?mu = "\<lambda>(a, p :: u64). n - 1 - (unat a - unat va) div PGSIZE"
  have "sz = of_nat (unat sz)" by simp
  then have szn: "sz = of_nat n * PGSIZE" by (simp only: al(2) of_nat_mult of_nat_numeral)
  have un: "unat (?a i) = unat va + i * PGSIZE" if "i < n" for i
    by (rule page_offset(1) [OF al(1) pte_range(2) [OF al(1) top that]])
  have lastn: "va + sz - PGSIZE = ?a (n - 1)" using al(3) by (simp add: szn of_nat_diff algebra_simps)
  have eq: "?a i = va + sz - PGSIZE \<longleftrightarrow> i = n - 1" if "i < n" for i
    using un [OF that] un [of "n - 1"] al(3) by (auto simp: lastn word_unat_eq_iff)
  have "wp (kiter n (mappages_step pt perm (va + sz - PGSIZE)) (va, pa)) ?Q s"
  proof (rule wp_kiter [where I = ?I and \<mu> = ?mu])
    show "?I (va, pa) s"
      using al(3) inv vm_grow_id [of s pt xs] by (auto intro!: exI [of _ "0::nat"] exI [of _ xs] simp: mapped_0)
    show "?mu (va, pa) < n" using al(3) by simp
  next
    fix x :: "u64 \<times> u64" and t assume "?I x t"
    then obtain i ys where i: "i < n" "x = (?a i, ?p i)" "vm_inv t pt ys" "vm_grow s t pt xs ys" "?L i t"
      "length xs \<le> length ys + 2 * i"
      by (cases x) auto
    note rg = pte_range [OF al(1) top i(1)]
    have "\<not> bit (leaf (mem t) pt (?a i)) 0"
      using i(5) rg(1) free un [OF i(1)] i(1) by (auto simp: mapped_def)
    from mappages_step_ok [OF i(3) rg(1) this, of perm "va + sz - PGSIZE" "?p i"]
    obtain r s' zs where m: "mappages_step pt perm (va + sz - PGSIZE) x t = Ok r s'" "vm_inv s' pt zs" "vm_grow t s' pt ys zs"
      "length ys \<le> length zs + 2" and
      d: "r = Inr (-1) \<and> zs = [] \<and> length ys < 2 \<and> (\<forall>b<MAXVA. leaf (mem s') pt b = leaf (mem t) pt b) \<or>
        r = (if ?a i = va + sz - PGSIZE then Inr 0 else Inl (?a i + PGSIZE, ?p i + PGSIZE)) \<and>
        (\<forall>b<MAXVA. leaf (mem s') pt b = (if PGROUNDDOWN b = PGROUNDDOWN (?a i)
          then PA2PTE (?p i) OR perm OR PTE_V else leaf (mem t) pt b))"
      unfolding i(2) by blast
    note g = vm_grow_trans [OF i(4) m(3)]
    note W = wp_Ok [where m = "mappages_step pt perm (va + sz - PGSIZE) x", OF m(1)]
    have suc: "?a i + PGSIZE = ?a (Suc i)" "?p i + PGSIZE = ?p (Suc i)" by (simp_all add: algebra_simps)
    from d show "wp (mappages_step pt perm (va + sz - PGSIZE) x)
        (\<lambda>r s'. case r of Inl x' \<Rightarrow> ?I x' s' \<and> ?mu x' < ?mu x | Inr a \<Rightarrow> ?Q a s') t"
    proof (elim disjE conjE)
      assume d: "r = Inr (-1)" "zs = []" "length ys < 2" "\<forall>b<MAXVA. leaf (mem s') pt b = leaf (mem t) pt b"
      then have "?L i s'" using i(5) by simp
      moreover have "length xs < 2 * n" using d(3) i(1,6) by simp
      ultimately have "?Q (-1) s'" using m(2) g d(2) less_imp_le [OF i(1)] by blast
      then show ?thesis by (simp only: W d(1) sum.case)
    next
      assume r: "r = (if ?a i = va + sz - PGSIZE then Inr 0 else Inl (?a i + PGSIZE, ?p i + PGSIZE))"
        and L: "\<forall>b<MAXVA. leaf (mem s') pt b = (if PGROUNDDOWN b = PGROUNDDOWN (?a i)
          then PA2PTE (?p i) OR perm OR PTE_V else leaf (mem t) pt b)"
      have L': "?L (Suc i) s'"
        using L i(5) rg(3) by (simp add: mapped_Suc [OF al(1) rg(2)])
      show ?thesis
      proof (cases "i = n - 1")
        case True
        then have "Suc i = n" using i(1) by simp
        then have "?Q 0 s'" using m(2) g L' by blast
        moreover have "r = Inr 0" using r eq [OF i(1)] True by simp
        ultimately show ?thesis by (simp only: W sum.case)
      next
        case False
        then have s: "Suc i < n" using i(1) by simp
        moreover have "length xs \<le> length zs + 2 * Suc i" using i(6) m(4) by simp
        ultimately have "?I (?a (Suc i), ?p (Suc i)) s'" using m(2) g L' unfolding prod.case by blast
        moreover have "?mu (?a (Suc i), ?p (Suc i)) < ?mu x" using s un [of "Suc i"] un [of i] by (simp add: i(2))
        moreover have "r = Inl (?a (Suc i), ?p (Suc i))" using r eq [OF i(1)] False suc by simp
        ultimately show ?thesis by (simp only: W sum.case simp_thms)
      qed
    qed
  qed
  moreover have "va mod PGSIZE = 0" "sz mod PGSIZE = 0" "sz \<noteq> 0" "unat sz div PGSIZE = n"
    using al by (auto simp: mod_PGSIZE_0 page_aligned_def)
  ultimately show ?thesis by (simp add: mappages_def)
qed


section \<open>A fresh page table\<close>

lemma zero_page_entries:
  assumes "page_aligned p" "j < 512"
  shows "pte_at (memset m (unat p) 0 PGSIZE) p j = 0"
proof -
  have "unat j < 512" using assms(2) by (simp add: word_less_nat_alt)
  then have "ld64 (memset m (unat p) 0 PGSIZE) (unat p + 8 * unat j) = ld64 (\<lambda>_. 0) (unat p + 8 * unat j)"
    by (intro ld64_cong) (simp add: memset_eq)
  then show ?thesis by (simp add: pte_at_def unat_pte_addr [OF assms] ld64_zero)
qed

lemma empty_table:
  assumes "page_aligned p" "\<And>j. j < 512 \<Longrightarrow> pte_at m p j = 0"
  shows "tables m p = {p}" "pt_wf m p" "leaf m p a = 0"
proof -
  have n: "idx is \<Longrightarrow> node m p is = (if is = [] then Some p else None)" for "is"
    by (cases "is") (auto simp: idx_def assms(2))
  have "idx []" by (simp add: idx_def)
  then show "tables m p = {p}" using n by (auto simp: tables_def split: if_splits)
  show "pt_wf m p" using n assms(1) by (auto simp: pt_wf_def split: if_splits)
  show "leaf m p a = 0"
    using n [OF idx_PX(1) [of a]] by (simp only: leaf_def ent_def) simp
qed

text \<open>\<open>uvmcreate\<close> takes a page off the free list and makes it the root of an empty mapping.\<close>

lemma uvmcreate_ok:
  assumes inv: "kmem_inv s (x # ys)" and l: "unlocked L_kmem s" "cpu_ok s"
  shows "\<exists>t. uvmcreate s = Ok x t \<and> x \<noteq> 0 \<and> vm_inv t x ys \<and> (\<forall>a. leaf (mem t) x a = 0) \<and>
    kend t = kend s \<and> mem_frame {x} (mem s) (mem t) \<and> balanced s t"
proof -
  from wp_kalloc [OF inv l] obtain f u where k: "kalloc s = Ok x u" "x \<noteq> 0" "kmem_inv u ys"
    and u: "u = s\<lparr>freelist := f, mem := memset (mem s) (unat x) 5 PGSIZE, cpus := cs_cpus s\<rparr>"
    and b: "balanced s u" "kend u = kend s"
    by (auto simp: wp_iff)
  let ?m = "memset (mem u) (unat x) 0 PGSIZE"
  let ?t = "u\<lparr>mem := ?m\<rparr>"
  have x: "page_aligned x" "ram_page s x" "x \<notin> set ys" using inv by (auto simp: kmem_inv_def ram_page_def)
  have al: "\<forall>y\<in>set ys. page_aligned y \<and> y \<notin> {x}" using inv x(3) by (auto simp: kmem_inv_def ram_page_def)
  have fr: "mem_frame {x} (mem u) ?m" by (rule mem_frame_memset) simp
  have "flist ?m (freelist u) ys"
    using flist_frame_set [of "mem u" "freelist u" ys "{x}"] al x(1) fr k(3) by (simp add: kmem_inv_def)
  with k(3) have "kmem_inv ?t ys" by (simp add: kmem_inv_def ram_page_def)
  moreover have "cpu_ok ?t" "unlocked L_kmem ?t" "balanced s ?t"
    using l b balanced_cpu_ok [OF b(1)] balanced_unlocked [OF b(1)]
    by (simp_all add: cpu_ok_def unlocked_def balanced_def)
  moreover note e = empty_table [OF x(1), of ?m, OF zero_page_entries [OF x(1)]]
  moreover have "ram_page ?t x" using x(2) b(2) by (simp add: ram_page_def)
  ultimately have "vm_inv ?t x ys" using x(3) by (simp add: vm_inv_def)
  moreover have "uvmcreate s = Ok x ?t"
    using k(1,2) by (simp add: uvmcreate_def bnd_def kmemset_def)
  moreover have "mem_frame {x} (mem s) (mem ?t)"
    using mem_frame_trans1 [OF mem_frame_memset [of PGSIZE x "mem s" 5], of ?m] fr by (simp add: u)
  ultimately show ?thesis using k(2) e(3) b(2) \<open>balanced s ?t\<close> by (intro exI [of _ ?t]) simp
qed

text \<open>A machine with eight free pages, as \<open>kinit\<close> leaves it.\<close>

definition kmem8 :: kmem_st where
  "kmem8 = kmem0\<lparr>kend := 0x87ff8000\<rparr>"

lemma kmem8_fresh:
  "\<exists>t x xs u. kinit kmem8 = Ok () t \<and> kmem_inv t (x # xs) \<and> uvmcreate t = Ok x u \<and> x \<noteq> 0 \<and>
     vm_inv u x xs \<and> (\<forall>a. leaf (mem u) x a = 0) \<and> length xs = 7 \<and> kend u = 0x87ff8000"
proof -
  have h: "freelist kmem8 = 0" "0 < kend kmem8" "kend kmem8 \<le> PHYSTOP" "cpu_ok kmem8"
    by (simp_all add: kmem8_def kmem0_def mach0_def PHYSTOP_val cpu_ok_def)
  from wp_kinit [OF h] obtain t xs where t: "kinit kmem8 = Ok () t" "cpu_ok t" "unlocked L_kmem t"
    "kmem_inv t xs" "set xs = {x. ram_page t x}" "kend t = kend kmem8" by (auto simp: wp_iff)
  have "unat ` set xs = (\<lambda>k. k * 4096) ` {0x87ff8..<0x88000}" (is "?A = ?B")
  proof
    show "?A \<subseteq> ?B"
    proof
      fix n assume "n \<in> ?A"
      then have n: "n mod 4096 = 0" "0x87ff8000 \<le> n" "n < 0x88000000"
        using t(5,6) by (auto simp: ram_page_def page_aligned_def PHYSTOP_val kmem8_def word_le_nat_alt word_less_nat_alt)
      then have "n = n div 4096 * 4096" "n div 4096 \<in> {0x87ff8..<0x88000}" by auto
      then show "n \<in> ?B" by blast
    qed
    show "?B \<subseteq> ?A"
    proof
      fix n assume "n \<in> ?B"
      then obtain k where k: "n = k * 4096" "0x87ff8 \<le> k" "k < 0x88000" by auto
      then have "n < 2 ^ 64" by simp
      then have u: "unat (of_nat n :: u64) = n" by (simp add: unat_of_nat)
      have "n mod 4096 = 0" "0x87ff8000 \<le> n" "n < 0x88000000" using k by simp_all
      with u t(5,6) have "of_nat n \<in> set xs"
        by (simp add: ram_page_def page_aligned_def PHYSTOP_val kmem8_def word_le_nat_alt word_less_nat_alt)
      with u show "n \<in> ?A" by (metis imageI)
    qed
  qed
  moreover have "card ((\<lambda>k. k * 4096) ` {0x87ff8..<0x88000 :: nat}) = 8"
    by (subst card_image) (auto simp: inj_on_def)
  moreover have "card (unat ` set xs) = card (set xs)" by (intro card_image) (simp add: inj_on_def word_unat_eq_iff)
  ultimately have "card (set xs) = 8" by simp
  then have "length xs = 8" using t(4) distinct_card [of xs] by (simp add: kmem_inv_def)
  then obtain x ys where xs: "xs = x # ys" "length ys = 7" by (cases xs) auto
  from uvmcreate_ok [OF t(4) [unfolded xs(1)] t(3,2)] t(1,4,6) xs show ?thesis by (simp add: kmem8_def) blast
qed


section \<open>User addresses\<close>

text \<open>
  Where a user address lives: the byte of physical memory that address \<open>v\<close> names under the
  page table, if its page is present, open to user mode, and its entry satisfies \<open>ok\<close>.
\<close>

definition user_page :: "(u64 \<Rightarrow> bool) \<Rightarrow> bytes \<Rightarrow> u64 \<Rightarrow> nat \<Rightarrow> u64 option" where
  "user_page ok m pt v =
     (let e = leaf m pt (of_nat v) in
      if v < 2 ^ 38 \<and> bit e 0 \<and> bit e 4 \<and> ok e then Some (PTE2PA e) else None)"

definition user_byte :: "(u64 \<Rightarrow> bool) \<Rightarrow> bytes \<Rightarrow> u64 \<Rightarrow> nat \<Rightarrow> nat option" where
  "user_byte ok m pt v = map_option (\<lambda>p. unat p + v mod PGSIZE) (user_page ok m pt v)"

text \<open>\<open>copyin\<close> refuses a page at address 0; \<open>copyout\<close> wants the page writable.\<close>

abbreviation readable :: "u64 \<Rightarrow> bool" where "readable e \<equiv> PTE2PA e \<noteq> 0"
abbreviation writable :: "u64 \<Rightarrow> bool" where "writable e \<equiv> bit e 2"

lemma pte_flag_zero:
  "e AND PTE_V = 0 \<longleftrightarrow> \<not> bit e 0" "e AND PTE_W = 0 \<longleftrightarrow> \<not> bit e 2" "e AND PTE_U = 0 \<longleftrightarrow> \<not> bit e 4"
  using pte_flag by blast+

text \<open>Page tables with no page at address 0, which \<open>walk\<close> uses as its error value.\<close>

definition pt_ok :: "bytes \<Rightarrow> u64 \<Rightarrow> bool" where
  "pt_ok m pt \<longleftrightarrow> page_aligned pt \<and> 0 \<notin> tables m pt"

lemma vm_inv_pt_ok: "vm_inv s pt xs \<Longrightarrow> pt_ok (mem s) pt"
  by (auto simp: vm_inv_def pt_ok_def pt_wf_def ram_page_def kmem_inv_def)

lemma walk_leaf:
  assumes "va < MAXVA" "pt_ok (mem s) pt"
  obtains pte where "walk pt va False s = Ok pte s" "pte = 0 \<Longrightarrow> leaf (mem s) pt va = 0"
    "pte \<noteq> 0 \<Longrightarrow> ld64 (mem s) (unat pte) = leaf (mem s) pt va"
proof (cases "node (mem s) pt [PX 2 va, PX 1 va]")
  case None
  then show ?thesis using that [of 0] by (simp add: walk_False [OF assms(1)] leaf_def ent_def del: One_nat_def)
next
  case (Some p)
  have p: "page_aligned p" "p \<noteq> 0"
    using node_aligned [OF _ Some] nodeI [OF idx_PX(1) Some] assms(2) by (auto simp: pt_ok_def)
  have "unat (pte_addr p (PX 0 va)) \<noteq> 0"
    using p by (simp add: unat_pte_addr [OF p(1) PX_less(1)] word_unat_eq_iff)
  then have "pte_addr p (PX 0 va) \<noteq> 0" by auto
  then show ?thesis using that [of "pte_addr p (PX 0 va)"] Some
    by (simp add: walk_False [OF assms(1)] leaf_def ent_def pte_at_def del: One_nat_def)
qed

lemma walkaddr_eq:
  assumes "pt_ok (mem s) pt"
  shows "walkaddr pt va s = Ok (case user_page readable (mem s) pt (unat va) of None \<Rightarrow> 0 | Some p \<Rightarrow> p) s"
proof (cases "va < MAXVA")
  case True
  then obtain pte where "walk pt va False s = Ok pte s" "pte = 0 \<Longrightarrow> leaf (mem s) pt va = 0"
    "pte \<noteq> 0 \<Longrightarrow> ld64 (mem s) (unat pte) = leaf (mem s) pt va"
    using walk_leaf [OF True assms] by metis
  with True show ?thesis
    by (cases "pte = 0")
      (auto simp: walkaddr_def bnd_def load64_def pte_flag_zero user_page_def unat_less_MAXVA not_le Let_def)
next
  case False
  then have "\<not> unat va < 2 ^ 38" by (simp add: unat_less_MAXVA)
  with False show ?thesis by (simp add: walkaddr_def user_page_def not_less)
qed

text \<open>All bytes of a page have the same page.\<close>

lemma user_page_cong:
  assumes "v div PGSIZE = w div PGSIZE"
  shows "user_page ok m pt v = user_page ok m pt w"
proof -
  have iff: "x < 2 ^ 38 \<longleftrightarrow> x div PGSIZE < 2 ^ 26" for x :: nat
    by (simp add: div_less_iff_less_mult)
  have "leaf m pt (of_nat v) = leaf m pt (of_nat w)" if "v < 2 ^ 38"
  proof -
    have u: "unat (PGROUNDDOWN (of_nat x)) = x div PGSIZE * PGSIZE" if "x < 2 ^ 38" for x
    proof -
      have "unat (of_nat x :: u64) = x" using that by (simp add: unat_of_nat)
      then show ?thesis by (simp add: unat_PGROUNDDOWN minus_mod_eq_div_mult)
    qed
    have "w < 2 ^ 38" using that assms iff by simp
    then have "PGROUNDDOWN (of_nat v) = PGROUNDDOWN (of_nat w)"
      using that assms by (simp only: word_unat_eq_iff u)
    then show ?thesis by (metis leaf_PGROUNDDOWN)
  qed
  then show ?thesis using iff [of v] iff [of w] assms by (auto simp: user_page_def Let_def)
qed

text \<open>
  The part of a copy inside one page: \<open>n\<close> bytes from user address \<open>va\<close>, which do not
  cross a page boundary.
\<close>

lemma page_chunk:
  fixes va len :: u64
  assumes "len \<noteq> 0"
  defines "n \<equiv> (if PGSIZE - (va - PGROUNDDOWN va) > len then len else PGSIZE - (va - PGROUNDDOWN va))"
  shows "unat (va - PGROUNDDOWN va) = unat va mod PGSIZE"
    "unat n = min (PGSIZE - unat va mod PGSIZE) (unat len)" "0 < unat n" "unat n \<le> unat len"
    "unat n < unat len \<Longrightarrow> unat va < 2 ^ 38 \<Longrightarrow> unat (PGROUNDDOWN va + PGSIZE) = unat va + unat n"
    "i < unat n \<Longrightarrow> user_page ok m pt (unat va + i) = user_page ok m pt (unat va)"
    "user_page ok m pt (unat (PGROUNDDOWN va)) = user_page ok m pt (unat va)"
proof -
  have le: "PGROUNDDOWN va \<le> va" by (simp add: word_le_nat_alt unat_PGROUNDDOWN)
  show 1: "unat (va - PGROUNDDOWN va) = unat va mod PGSIZE"
    using le by (simp add: unat_sub unat_PGROUNDDOWN)
  have lt: "unat va mod 4096 < 4096" by simp
  have "va - PGROUNDDOWN va \<le> (PGSIZE :: u64)" using 1 lt by (simp add: word_le_nat_alt del: mod_less_divisor)
  then have 2: "unat (PGSIZE - (va - PGROUNDDOWN va)) = PGSIZE - unat va mod PGSIZE"
    by (simp add: unat_sub 1)
  show n: "unat n = min (PGSIZE - unat va mod PGSIZE) (unat len)"
    unfolding n_def using 2 by (simp add: word_less_nat_alt)
  have "0 < unat len" using assms(1) by (simp add: word_unat_eq_iff)
  then show "0 < unat n" using n lt by linarith
  show "unat n \<le> unat len" using n by simp
  have r: "unat (PGROUNDDOWN va) = unat va - unat va mod PGSIZE" by (rule unat_PGROUNDDOWN)
  show "unat (PGROUNDDOWN va + PGSIZE) = unat va + unat n" if "unat n < unat len" "unat va < 2 ^ 38"
  proof -
    have "unat n = PGSIZE - unat va mod PGSIZE" using that(1) n by simp
    moreover have "unat va mod 4096 \<le> unat va" by simp
    moreover have "unat (PGROUNDDOWN va + PGSIZE) = unat (PGROUNDDOWN va) + 4096"
      using that(2) r by (simp add: unat_word_ariths)
    ultimately show ?thesis using r lt by simp
  qed
  show "user_page ok m pt (unat va + i) = user_page ok m pt (unat va)" if "i < unat n"
  proof (rule user_page_cong)
    have "i < 4096 - unat va mod 4096" using that n by simp
    then have "unat va mod 4096 + i < 4096" by linarith
    then show "(unat va + i) div PGSIZE = unat va div PGSIZE"
      by (metis div_add1_eq div_less div_mult_mod_eq add.right_neutral mod_add_left_eq div_mult_self3 add.assoc zero_neq_numeral)
  qed
  show "user_page ok m pt (unat (PGROUNDDOWN va)) = user_page ok m pt (unat va)"
    by (rule user_page_cong) (simp add: r minus_mod_eq_div_mult)
qed


section \<open>copyin\<close>

text \<open>The first \<open>k\<close> user bytes from \<open>v\<close>, over \<open>dst\<close>.\<close>

definition user_view :: "bytes \<Rightarrow> u64 \<Rightarrow> nat \<Rightarrow> bytes \<Rightarrow> nat \<Rightarrow> bytes" where
  "user_view m pt v dst k = (\<lambda>i. if i < k then m (the (user_byte readable m pt (v + i))) else dst i)"

lemma user_byte_chunk:
  fixes va len :: u64
  assumes "len \<noteq> 0" "user_page ok m pt (unat va) = Some p" "page_aligned p"
    "i < unat (if PGSIZE - (va - PGROUNDDOWN va) > len then len else PGSIZE - (va - PGROUNDDOWN va))"
  shows "user_byte ok m pt (unat va + i) = Some (unat (p + (va - PGROUNDDOWN va)) + i)"
proof -
  note c = page_chunk [OF assms(1), where va = va]
  have "i < PGSIZE - unat va mod PGSIZE" using assms(4) c(2) by simp
  then have lt: "unat va mod PGSIZE + i < 4096" by linarith
  then have "(unat va + i) mod PGSIZE = unat va mod PGSIZE + i"
    by (metis mod_add_left_eq mod_less)
  moreover have "unat (p + (va - PGROUNDDOWN va)) = unat p + unat va mod PGSIZE"
  proof -
    have "unat p + unat va mod PGSIZE < 2 ^ 64" using page_aligned_bound [OF assms(3)] lt by linarith
    then show ?thesis by (simp add: unat_word_ariths(1) [of p] c(1))
  qed
  ultimately show ?thesis using c(6) [OF assms(4), where ok = ok and m = m and pt = pt] assms(2) by (simp add: user_byte_def)
qed

lemma user_page_aligned: "user_page ok m pt v = Some p \<Longrightarrow> page_aligned p \<and> v < 2 ^ 38"
  by (auto simp: user_page_def Let_def page_aligned_PTE2PA split: if_splits)

lemma user_page_readable:
  "user_page ok m pt v = Some p \<Longrightarrow> p \<noteq> 0 \<Longrightarrow> user_page readable m pt v = Some p"
  by (auto simp: user_page_def Let_def split: if_splits)

lemma copyin_step_ok:
  assumes pt: "pt_ok (mem s) pt" and l: "l \<noteq> 0"
  shows "case user_page readable (mem s) pt (unat va) of
     None \<Rightarrow> copyin_step pt (d, k, va, l) s = Ok (Inr (-1, d)) s
   | Some p \<Rightarrow> (\<exists>n d'. 0 < unat n \<and> unat n \<le> unat l \<and>
       copyin_step pt (d, k, va, l) s = Ok (Inl (d', k + unat n, PGROUNDDOWN va + PGSIZE, l - n)) s \<and>
       (unat n < unat l \<longrightarrow> unat (PGROUNDDOWN va + PGSIZE) = unat va + unat n) \<and>
       (\<forall>i<unat n. user_byte readable (mem s) pt (unat va + i) \<noteq> None) \<and>
       d' = (\<lambda>i. if k \<le> i \<and> i < k + unat n then mem s (the (user_byte readable (mem s) pt (unat va + (i - k)))) else d i))"
proof (cases "user_page readable (mem s) pt (unat va)")
  case None
  then show ?thesis
    using l page_chunk(7) [OF l, where ok = readable and m = "mem s" and pt = pt and va = va]
    by (simp add: copyin_step_def bnd_def walkaddr_eq [OF pt] word_gt_0 Let_def)
next
  case (Some p)
  define n where "n = (if PGSIZE - (va - PGROUNDDOWN va) > l then l else PGSIZE - (va - PGROUNDDOWN va))"
  note c = page_chunk [OF l, where va = va, folded n_def]
  have p: "page_aligned p" "unat va < 2 ^ 38" "p \<noteq> 0"
    using user_page_aligned [OF Some] Some by (auto simp: user_page_def Let_def split: if_splits)
  note ub = user_byte_chunk [OF l Some p(1), folded n_def]
  have "copyin_step pt (d, k, va, l) s = Ok (Inl ((\<lambda>i. if k \<le> i \<and> i < k + unat n
      then mem s (unat (p + (va - PGROUNDDOWN va)) + (i - k)) else d i), k + unat n, PGROUNDDOWN va + PGSIZE, l - n)) s"
    using l Some p(3) c(7) [where ok = readable and m = "mem s" and pt = pt]
    by (simp add: copyin_step_def bnd_def walkaddr_eq [OF pt] word_gt_0 get_bytes_def n_def Let_def)
  moreover have "(\<lambda>i. if k \<le> i \<and> i < k + unat n then mem s (unat (p + (va - PGROUNDDOWN va)) + (i - k)) else d i) =
      (\<lambda>i. if k \<le> i \<and> i < k + unat n then mem s (the (user_byte readable (mem s) pt (unat va + (i - k)))) else d i)"
  proof
    fix i show "(if k \<le> i \<and> i < k + unat n then mem s (unat (p + (va - PGROUNDDOWN va)) + (i - k)) else d i) =
      (if k \<le> i \<and> i < k + unat n then mem s (the (user_byte readable (mem s) pt (unat va + (i - k)))) else d i)"
      using ub [of "i - k"] by (cases "k \<le> i \<and> i < k + unat n") (simp_all only: if_True if_False option.sel, auto)
  qed
  ultimately show ?thesis
    using Some c(3,4,5) p(2) ub by (auto intro!: exI [of _ n])
qed

lemma wp_copyin:
  assumes pt: "pt_ok (mem s) pt"
  shows "wp (copyin pt dst srcva len) (\<lambda>(r, d) t. t = s \<and>
    (\<exists>k\<le>unat len. d = user_view (mem s) pt (unat srcva) dst k \<and>
      (\<forall>i<k. user_byte readable (mem s) pt (unat srcva + i) \<noteq> None) \<and>
      (r = 0 \<and> k = unat len \<or>
       r = -1 \<and> k < unat len \<and> user_byte readable (mem s) pt (unat srcva + k) = None))) s"
    (is "wp _ ?Q s")
proof -
  let ?B = "\<lambda>i. user_byte readable (mem s) pt (unat srcva + i)"
  let ?I = "\<lambda>(d, k, va, l) t. t = s \<and> k \<le> unat len \<and> unat (l :: u64) = unat len - k \<and>
    (l \<noteq> 0 \<longrightarrow> unat (va :: u64) = unat srcva + k) \<and> d = user_view (mem s) pt (unat srcva) dst k \<and> (\<forall>i<k. ?B i \<noteq> None)"
  let ?mu = "\<lambda>(d :: bytes, k :: nat, va :: u64, l :: u64). unat l"
  show ?thesis
    unfolding copyin_def
  proof (rule wp_kiter [where I = ?I and \<mu> = ?mu])
    show "?I (dst, 0, srcva, len) s" by (simp add: user_view_def)
    show "?mu (dst, 0, srcva, len) < unat len + 1" by simp
  next
    fix x t assume "?I x t"
    then obtain d k va l where x: "x = (d, k, va, l)" and t: "t = s" and k: "k \<le> unat len" "unat l = unat len - k"
      "l \<noteq> 0 \<Longrightarrow> unat va = unat srcva + k" and d: "d = user_view (mem s) pt (unat srcva) dst k"
      and b: "\<forall>i<k. ?B i \<noteq> None"
      by (cases x) auto
    show "wp (copyin_step pt x) (\<lambda>r s'. case r of Inl x' \<Rightarrow> ?I x' s' \<and> ?mu x' < ?mu x | Inr a \<Rightarrow> ?Q a s') t"
    proof (cases "l = 0")
      case True
      then have "k = unat len" using k by simp
      then show ?thesis using True d b by (simp add: x t wp_simps copyin_step_def)
    next
      case False
      note va = k(3) [OF False]
      have lt: "k < unat len" using False k by (metis diff_is_0_eq' unat_eq_zero not_le)
      note st = copyin_step_ok [OF pt False, where va = va and d = d and k = k, unfolded va]
      show ?thesis
      proof (cases "user_page readable (mem s) pt (unat srcva + k)")
        case None
        then have "?B k = None" by (simp add: user_byte_def)
        with lt d b have "?Q (-1, d) s" by (simp only: prod.case) (intro conjI exI [of _ k]; simp)
        then show ?thesis using st None by (simp add: x t wp_def)
      next
        case (Some p)
        with st obtain n d' where n: "0 < unat n" "unat n \<le> unat l"
          "copyin_step pt x s = Ok (Inl (d', k + unat n, PGROUNDDOWN va + PGSIZE, l - n)) s"
          "unat n < unat l \<Longrightarrow> unat (PGROUNDDOWN va + PGSIZE) = unat srcva + k + unat n"
          and ub: "\<forall>i<unat n. user_byte readable (mem s) pt (unat srcva + k + i) \<noteq> None"
          and d': "d' = (\<lambda>i. if k \<le> i \<and> i < k + unat n
             then mem s (the (user_byte readable (mem s) pt (unat srcva + k + (i - k)))) else d i)"
          unfolding x by auto
        have u: "unat (l - n) = unat l - unat n" using n(2) by (simp add: unat_sub word_le_nat_alt)
        have "?B i \<noteq> None" if "i < k + unat n" for i
          using b ub that by (cases "i < k") (auto simp: not_less dest: spec [of _ "i - k"])
        moreover have "d' = user_view (mem s) pt (unat srcva) dst (k + unat n)"
          unfolding d' d user_view_def by (auto simp: fun_eq_iff)
        moreover have "l - n \<noteq> 0 \<longrightarrow> unat n < unat l" using u n(2) by (auto simp: word_unat_eq_iff)
        ultimately have "?I (d', k + unat n, PGROUNDDOWN va + PGSIZE, l - n) s"
          using k(1,2) n(2,4) u by auto
        moreover have "?mu (d', k + unat n, PGROUNDDOWN va + PGSIZE, l - n) < ?mu x"
          using u n(1,2) by (simp add: x)
        ultimately show ?thesis using n(3) by (simp only: wp_def t outcome.case sum.case)
      qed
    qed
  qed
qed


section \<open>copyout\<close>

text \<open>
  A user address space that user writes cannot damage: no writable user page is a page of the
  page table, and no page is mapped writable twice.
\<close>

definition uspace :: "bytes \<Rightarrow> u64 \<Rightarrow> bool" where
  "uspace m pt \<longleftrightarrow> pt_wf m pt \<and> 0 \<notin> tables m pt \<and>
     (\<forall>v p. user_page writable m pt v = Some p \<longrightarrow> p \<noteq> 0 \<and> p \<notin> tables m pt) \<and>
     (\<forall>v w p. user_page writable m pt v = Some p \<and> user_page writable m pt w = Some p \<longrightarrow>
        v div PGSIZE = w div PGSIZE)"

definition user_pages :: "bytes \<Rightarrow> u64 \<Rightarrow> u64 set" where
  "user_pages m pt = {p. \<exists>v. user_page writable m pt v = Some p}"

lemma uspace_frame:
  assumes u: "uspace m pt" and fr: "mem_frame (user_pages m pt) m m'"
  shows "leaf m' pt a = leaf m pt a" "user_page ok m' pt v = user_page ok m pt v"
    "user_byte ok m' pt v = user_byte ok m pt v" "uspace m' pt" "pt_ok m' pt"
proof -
  have A: "\<forall>q\<in>user_pages m pt. page_aligned q" "user_pages m pt \<inter> tables m pt = {}"
    using u user_page_aligned by (auto simp: user_pages_def uspace_def)
  have wf: "pt_wf m pt" using u by (simp add: uspace_def)
  note t = tree_frame [OF wf fr A]
  show l: "leaf m' pt a = leaf m pt a" for a
    unfolding leaf_def by (rule t(3)) (simp_all only: idx_PX PX_less)
  show p: "user_page ok m' pt v = user_page ok m pt v" for ok v by (simp add: user_page_def l)
  show "user_byte ok m' pt v = user_byte ok m pt v" by (simp add: user_byte_def p)
  show "uspace m' pt" using u t(1,2) by (simp add: uspace_def p)
  show "pt_ok m' pt" using u t(1,2) by (simp add: uspace_def pt_ok_def pt_wf_def)
qed

lemma user_byte_inj:
  assumes u: "uspace m pt" and v: "user_byte writable m pt v = Some a" and w: "user_byte writable m pt w = Some a"
  shows "v = w"
proof -
  obtain p q where p: "user_page writable m pt v = Some p" "a = unat p + v mod PGSIZE"
    and q: "user_page writable m pt w = Some q" "a = unat q + w mod PGSIZE"
    using v w by (auto simp: user_byte_def)
  have lt: "v mod 4096 < 4096" "w mod 4096 < 4096" by simp_all
  have "p = q"
  proof (rule ccontr)
    assume "p \<noteq> q"
    then have "unat p + 4096 \<le> unat q \<or> unat q + 4096 \<le> unat p"
      using aligned_disjoint [of p q] user_page_aligned [OF p(1)] user_page_aligned [OF q(1)] by auto
    with p(2) q(2) lt show False by linarith
  qed
  with p q u have "v div PGSIZE = w div PGSIZE" "v mod PGSIZE = w mod PGSIZE"
    unfolding uspace_def by (blast, simp)
  then show ?thesis by (metis div_mult_mod_eq)
qed

text \<open>Bytes of user pages change only what \<open>mem_frame\<close> allows for these pages.\<close>

lemma user_write_frame:
  assumes "\<And>a. (\<forall>i<k. user_byte writable m pt (v + i) \<noteq> Some a) \<Longrightarrow> m' a = m a"
  shows "mem_frame (user_pages m pt) m m'"
  unfolding mem_frame_def
proof (intro allI impI)
  fix b assume b: "\<forall>a\<in>user_pages m pt. b < unat a \<or> unat a + PGSIZE \<le> b"
  have "user_byte writable m pt (v + i) \<noteq> Some b" for i
  proof
    assume "user_byte writable m pt (v + i) = Some b"
    then obtain p where p: "user_page writable m pt (v + i) = Some p" "b = unat p + (v + i) mod PGSIZE"
      by (auto simp: user_byte_def)
    then have "p \<in> user_pages m pt" by (auto simp: user_pages_def)
    moreover have "(v + i) mod 4096 < 4096" by simp
    ultimately show False using b p(2) by fastforce
  qed
  then show "m' b = m b" using assms by blast
qed

lemma copyout_step_ok:
  assumes pt: "pt_ok (mem s) pt" and l: "l \<noteq> 0"
  shows "case user_page writable (mem s) pt (unat va) of
     None \<Rightarrow> copyout_step pt (va, src, l) s = Ok (Inr (-1)) s
   | Some p \<Rightarrow> (\<exists>n m. 0 < unat n \<and> unat n \<le> unat l \<and>
       copyout_step pt (va, src, l) s = Ok (Inl (PGROUNDDOWN va + PGSIZE, \<lambda>i. src (i + unat n), l - n)) (s\<lparr>mem := m\<rparr>) \<and>
       (unat n < unat l \<longrightarrow> unat (PGROUNDDOWN va + PGSIZE) = unat va + unat n) \<and>
       (\<forall>i<unat n. \<exists>a. user_byte writable (mem s) pt (unat va + i) = Some a \<and> m a = src i) \<and>
       (\<forall>a. (\<forall>i<unat n. user_byte writable (mem s) pt (unat va + i) \<noteq> Some a) \<longrightarrow> m a = mem s a))"
proof -
  let ?v = "PGROUNDDOWN va"
  have leafv: "leaf (mem s) pt ?v = leaf (mem s) pt va" by (rule leaf_PGROUNDDOWN)
  have "unat ?v = unat va div 4096 * 4096" by (simp add: unat_PGROUNDDOWN minus_mod_eq_div_mult)
  then have top: "?v < MAXVA \<longleftrightarrow> unat va < 2 ^ 38"
    using div_less_iff_less_mult [of 4096 "unat va" "2 ^ 26"] by (simp add: unat_less_MAXVA)
  show ?thesis
  proof (cases "?v < MAXVA")
    case True
    then obtain pte where w: "walk pt ?v False s = Ok pte s" "pte = 0 \<Longrightarrow> leaf (mem s) pt va = 0"
      "pte \<noteq> 0 \<Longrightarrow> ld64 (mem s) (unat pte) = leaf (mem s) pt va"
      using walk_leaf [OF True pt] unfolding leafv by metis
    show ?thesis
    proof (cases "user_page writable (mem s) pt (unat va)")
      case None
      then have "\<not> bit (leaf (mem s) pt va) 0 \<or> \<not> bit (leaf (mem s) pt va) 4 \<or> \<not> bit (leaf (mem s) pt va) 2"
        using True top by (auto simp: user_page_def Let_def split: if_splits)
      then show ?thesis using True None l w
        by (cases "pte = 0") (auto simp: copyout_step_def bnd_def load64_def pte_flag_zero word_gt_0 Let_def)
    next
      case (Some p)
      define n where "n = (if PGSIZE - (va - ?v) > l then l else PGSIZE - (va - ?v))"
      define m where "m = (\<lambda>a. if unat (p + (va - ?v)) \<le> a \<and> a < unat (p + (va - ?v)) + unat n
        then src (a - unat (p + (va - ?v))) else mem s a)"
      note c = page_chunk [OF l, where va = va, folded n_def]
      have p: "page_aligned p" "unat va < 2 ^ 38" using user_page_aligned [OF Some] by auto
      note ub = user_byte_chunk [OF l Some p(1), folded n_def]
      have e: "bit (leaf (mem s) pt va) 0" "bit (leaf (mem s) pt va) 4" "bit (leaf (mem s) pt va) 2"
        "PTE2PA (leaf (mem s) pt va) = p"
        using Some by (auto simp: user_page_def Let_def split: if_splits)
      then have "pte \<noteq> 0" using w(2) by auto
      then have "copyout_step pt (va, src, l) s = Ok (Inl (?v + PGSIZE, \<lambda>i. src (i + unat n), l - n)) (s\<lparr>mem := m\<rparr>)"
        using True l w e
        by (simp add: copyout_step_def bnd_def load64_def pte_flag_zero word_gt_0 Let_def put_bytes_def n_def m_def)
      moreover have "\<forall>i<unat n. \<exists>a. user_byte writable (mem s) pt (unat va + i) = Some a \<and> m a = src i"
        by (simp add: ub m_def)
      moreover have "m a = mem s a" if "\<forall>i<unat n. user_byte writable (mem s) pt (unat va + i) \<noteq> Some a" for a
      proof -
        have "\<not> (unat (p + (va - ?v)) \<le> a \<and> a < unat (p + (va - ?v)) + unat n)"
          using that ub by (auto simp: le_iff_add)
        then show ?thesis by (simp only: m_def if_False)
      qed
      ultimately show ?thesis
        using Some c(3,4,5) p(2) by (auto intro!: exI [of _ n] exI [of _ m])
    qed
  next
    case False
    then show ?thesis using l top by (simp add: copyout_step_def word_gt_0 user_page_def Let_def not_less)
  qed
qed


text \<open>The bytes written by two consecutive parts of a copy.\<close>

lemma copyout_join:
  assumes us: "uspace m0 pt"
    and P: "(\<forall>i<k. \<exists>a. user_byte writable m0 pt (v + i) = Some a \<and> m a = src i) \<and>
      (\<forall>a. (\<forall>i<k. user_byte writable m0 pt (v + i) \<noteq> Some a) \<longrightarrow> m a = m0 a)"
    and ub: "\<forall>i<n. \<exists>a. user_byte writable m0 pt (v + (k + i)) = Some a \<and> m' a = sr i"
    and fr: "\<forall>a. (\<forall>i<n. user_byte writable m0 pt (v + (k + i)) \<noteq> Some a) \<longrightarrow> m' a = m a"
    and sr: "sr = (\<lambda>i. src (i + k))"
  shows "(\<forall>i<k + n. \<exists>a. user_byte writable m0 pt (v + i) = Some a \<and> m' a = src i) \<and>
      (\<forall>a. (\<forall>i<k + n. user_byte writable m0 pt (v + i) \<noteq> Some a) \<longrightarrow> m' a = m0 a)"
proof (intro conjI allI impI)
  fix i assume i: "i < k + n"
  show "\<exists>a. user_byte writable m0 pt (v + i) = Some a \<and> m' a = src i"
  proof (cases "i < k")
    case True
    with P obtain a where a: "user_byte writable m0 pt (v + i) = Some a" "m a = src i" by blast
    have "user_byte writable m0 pt (v + (k + j)) \<noteq> Some a" for j
      using user_byte_inj [OF us a(1), of "v + (k + j)"] True by auto
    with a fr show ?thesis by auto
  next
    case False
    with i ub [rule_format, of "i - k"] show ?thesis by (simp add: sr)
  qed
next
  fix a assume a: "\<forall>i<k + n. user_byte writable m0 pt (v + i) \<noteq> Some a"
  then have "m' a = m a" using fr by auto
  moreover have "m a = m0 a" using a P by auto
  ultimately show "m' a = m0 a" by simp
qed

lemma wp_copyout:
  assumes us: "uspace (mem s) pt"
  shows "wp (copyout pt dstva src len) (\<lambda>r t. \<exists>m k. t = s\<lparr>mem := m\<rparr> \<and> k \<le> unat len \<and>
    (\<forall>i<k. \<exists>a. user_byte writable (mem s) pt (unat dstva + i) = Some a \<and> m a = src i) \<and>
    (\<forall>a. (\<forall>i<k. user_byte writable (mem s) pt (unat dstva + i) \<noteq> Some a) \<longrightarrow> m a = mem s a) \<and>
    (r = 0 \<and> k = unat len \<or>
     r = -1 \<and> k < unat len \<and> user_byte writable (mem s) pt (unat dstva + k) = None)) s"
    (is "wp _ ?Q s")
proof -
  let ?B = "\<lambda>i. user_byte writable (mem s) pt (unat dstva + i)"
  let ?P = "\<lambda>k m. (\<forall>i<k. \<exists>a. ?B i = Some a \<and> m a = src i) \<and> (\<forall>a. (\<forall>i<k. ?B i \<noteq> Some a) \<longrightarrow> m a = mem s a)"
  let ?I = "\<lambda>(va, sr, l) t. \<exists>m k. t = s\<lparr>mem := m\<rparr> \<and> k \<le> unat len \<and> unat (l :: u64) = unat len - k \<and>
    (l \<noteq> 0 \<longrightarrow> unat (va :: u64) = unat dstva + k) \<and> sr = (\<lambda>i. src (i + k)) \<and> ?P k m"
  let ?mu = "\<lambda>(va :: u64, sr :: bytes, l :: u64). unat l"
  show ?thesis
    unfolding copyout_def
  proof (rule wp_kiter [where I = ?I and \<mu> = ?mu])
    show "?I (dstva, src, len) s" by (auto intro!: exI [of _ "mem s"] exI [of _ "0::nat"])
    show "?mu (dstva, src, len) < unat len + 1" by simp
  next
    fix x t assume "?I x t"
    then obtain va sr l m k where x: "x = (va, sr, l)" and t: "t = s\<lparr>mem := m\<rparr>" and k: "k \<le> unat len"
      "unat l = unat len - k" "l \<noteq> 0 \<Longrightarrow> unat va = unat dstva + k" and sr: "sr = (\<lambda>i. src (i + k))" and P: "?P k m"
      by (cases x) auto
    have fr: "mem_frame (user_pages (mem s) pt) (mem s) m" using P by (intro user_write_frame) blast
    note uf = uspace_frame [OF us fr]
    show "wp (copyout_step pt x) (\<lambda>r s'. case r of Inl x' \<Rightarrow> ?I x' s' \<and> ?mu x' < ?mu x | Inr a \<Rightarrow> ?Q a s') t"
    proof (cases "l = 0")
      case True
      then have "k = unat len" using k by simp
      with P t have "?Q 0 t" by blast
      then show ?thesis using True by (simp add: x wp_simps copyout_step_def)
    next
      case False
      note va = k(3) [OF False]
      have lt: "k < unat len" using False k by (metis diff_is_0_eq' unat_eq_zero not_le)
      have "pt_ok (mem t) pt" using uf(5) t by simp
      note st = copyout_step_ok [OF this False, where va = va and src = sr, unfolded va]
      have mt: "mem t = m" by (simp add: t)
      show ?thesis
      proof (cases "user_page writable (mem s) pt (unat dstva + k)")
        case None
        then have "?B k = None" by (simp add: user_byte_def)
        with lt P t have "?Q (-1) t" by (intro exI [of _ m] exI [of _ k]) simp
        then show ?thesis using st None by (simp add: x wp_def mt uf(2))
      next
        case (Some p)
        with st obtain n m' where n: "0 < unat n" "unat n \<le> unat l"
          "copyout_step pt x t = Ok (Inl (PGROUNDDOWN va + PGSIZE, \<lambda>i. sr (i + unat n), l - n)) (t\<lparr>mem := m'\<rparr>)"
          "unat n < unat l \<Longrightarrow> unat (PGROUNDDOWN va + PGSIZE) = unat dstva + k + unat n"
          and ub: "\<forall>i<unat n. \<exists>a. ?B (k + i) = Some a \<and> m' a = sr i"
          and fr': "\<forall>a. (\<forall>i<unat n. ?B (k + i) \<noteq> Some a) \<longrightarrow> m' a = m a"
          unfolding x mt uf(2,3) by (auto simp: add.assoc)
        have u: "unat (l - n) = unat l - unat n" using n(2) by (simp add: unat_sub word_le_nat_alt)
        have "?P (k + unat n) m'" by (rule copyout_join [OF us P ub fr' sr])
        moreover have "l - n \<noteq> 0 \<longrightarrow> unat n < unat l" using u n(2) by (auto simp: word_unat_eq_iff)
        ultimately have "?I (PGROUNDDOWN va + PGSIZE, \<lambda>i. sr (i + unat n), l - n) (t\<lparr>mem := m'\<rparr>)"
          using k(1,2) n(2,4) u unfolding prod.case
          by (intro exI [of _ m'] exI [of _ "k + unat n"]) (auto simp: t sr add_ac)
        moreover have "?mu (PGROUNDDOWN va + PGSIZE, \<lambda>i. sr (i + unat n), l - n) < ?mu x"
          using u n(1,2) by (simp add: x)
        ultimately show ?thesis using n(3) by (simp only: wp_def outcome.case sum.case)
      qed
    qed
  qed
qed


section \<open>Properties\<close>

text \<open>
  C5. \<open>mappages\<close> on a range of \<open>n\<close> unmapped pages below MAXVA never panics. It either returns
  0 with every page of the range mapped to the corresponding page from \<open>pa\<close> with the given
  permissions, or, when fewer than \<open>2 n\<close> pages were free, returns -1 with the free list
  empty and a prefix of the range mapped. No address outside the mapped part changes its
  mapping, the page table stays a tree disjoint from the free list, and only pages of the tree
  are written.
\<close>

theorem mappages_correct:
  assumes "vm_inv s pt xs" "page_aligned va" "unat sz = n * PGSIZE" "0 < n" "unat va + n * PGSIZE \<le> 2 ^ 38"
    and "\<forall>b. unat va \<le> unat b \<and> unat b < unat va + n * PGSIZE \<longrightarrow> \<not> bit (leaf (mem s) pt b) 0"
  shows "\<exists>r t ys k. mappages pt va sz pa perm s = Ok r t \<and> vm_inv t pt ys \<and> vm_grow s t pt xs ys \<and> k \<le> n \<and>
     (\<forall>b<MAXVA. leaf (mem t) pt b = mapped (mem s) pt va pa perm k b) \<and>
     (r = 0 \<and> k = n \<or> r = -1 \<and> ys = [] \<and> length xs < 2 * n)"
  using wp_mappages [OF assms, of pa perm] by (simp add: wp_iff)

theorem mappages_correct_witness:
  "\<exists>t x u v ys. kinit kmem8 = Ok () t \<and> uvmcreate t = Ok x u \<and>
     mappages x 0x1000 0x2000 0x87ff9000 (PTE_R OR PTE_U) u = Ok 0 v \<and> vm_inv v x ys \<and>
     (\<forall>b<MAXVA. leaf (mem v) x b = mapped (mem u) x 0x1000 0x87ff9000 (PTE_R OR PTE_U) 2 b)"
proof -
  from kmem8_fresh obtain t x xs u where k: "kinit kmem8 = Ok () t" "uvmcreate t = Ok x u" "length xs = 7"
    and inv: "vm_inv u x xs" and z: "\<forall>a. leaf (mem u) x a = 0" by blast
  have "page_aligned 0x1000" "unat (0x2000 :: u64) = 2 * PGSIZE" "0 < (2 :: nat)"
    "unat (0x1000 :: u64) + 2 * PGSIZE \<le> 2 ^ 38" by (simp_all add: page_aligned_def)
  from mappages_correct [OF inv this, where pa = "0x87ff9000" and perm = "PTE_R OR PTE_U"] z k show ?thesis by auto
qed

text \<open>
  C6. Whatever \<open>copyout\<close> reports as written, \<open>copyin\<close> reads back: after \<open>copyout\<close> of
  \<open>len\<close> bytes returns 0, \<open>copyin\<close> of the same user range returns 0 and exactly these
  bytes, whatever page boundaries the range crosses. \<open>copyout\<close> returns -1 exactly when some
  byte of the range is not a present, writable user byte.
\<close>

theorem copyout_copyin:
  assumes "uspace (mem s) pt"
  shows "\<exists>r t. copyout pt va src len s = Ok r t \<and>
     (r = 0 \<longleftrightarrow> (\<forall>i<unat len. user_byte writable (mem s) pt (unat va + i) \<noteq> None)) \<and> (r = 0 \<or> r = -1) \<and>
     (r = 0 \<longrightarrow> copyin pt dst va len t = Ok (0, \<lambda>i. if i < unat len then src i else dst i) t)"
proof -
  let ?B = "\<lambda>i. user_byte writable (mem s) pt (unat va + i)"
  from wp_copyout [OF assms, of va src len] obtain r m k where c: "copyout pt va src len s = Ok r (s\<lparr>mem := m\<rparr>)"
    "k \<le> unat len" and P: "\<forall>i<k. \<exists>a. ?B i = Some a \<and> m a = src i"
    and fr: "\<forall>a. (\<forall>i<k. ?B i \<noteq> Some a) \<longrightarrow> m a = mem s a"
    and r: "r = 0 \<and> k = unat len \<or> r = -1 \<and> k < unat len \<and> ?B k = None"
    by (auto simp: wp_iff)
  have "mem_frame (user_pages (mem s) pt) (mem s) m" using fr by (intro user_write_frame) blast
  note uf = uspace_frame [OF assms this]
  have "copyin pt dst va len (s\<lparr>mem := m\<rparr>) = Ok (0, \<lambda>i. if i < unat len then src i else dst i) (s\<lparr>mem := m\<rparr>)"
    if "r = 0"
  proof -
    have k: "k = unat len" using that r by simp
    have R: "user_byte readable m pt (unat va + i) = ?B i" if "i < unat len" for i
    proof -
      have "user_page writable (mem s) pt (unat va + i) \<noteq> None"
        using P that k by (fastforce simp: user_byte_def)
      then have "user_page readable (mem s) pt (unat va + i) = user_page writable (mem s) pt (unat va + i)"
        using assms user_page_readable by (auto simp: uspace_def)
      then show ?thesis by (simp only: uf(3)) (simp add: user_byte_def)
    qed
    have pt: "pt_ok (mem (s\<lparr>mem := m\<rparr>)) pt" using uf(5) by simp
    have "user_view m pt (unat va) dst (unat len) = (\<lambda>i. if i < unat len then src i else dst i)"
      using P k R by (fastforce simp: user_view_def)
    moreover have "\<forall>i<unat len. user_byte readable m pt (unat va + i) \<noteq> None" using P R k by fastforce
    ultimately show ?thesis using wp_copyin [OF pt, of dst va len] by (auto simp: wp_iff)
  qed
  then show ?thesis using c P r by fastforce
qed

text \<open>An address space with one page, mapped read-write for the user at 0x1000.\<close>

lemma one_page:
  fixes s t :: "'a kmem_st_scheme"
  assumes inv: "vm_inv t pt ys" and pa: "\<not> ram_page t pa" "page_aligned pa" "pa \<noteq> 0"
    and l: "\<forall>b<MAXVA. leaf (mem t) pt b = mapped (mem s) pt 0x1000 pa (PTE_R OR PTE_W OR PTE_U) 1 b"
    and z: "\<forall>a. leaf (mem s) pt a = 0"
  shows "user_page writable (mem t) pt v = (if v div PGSIZE = 1 then Some pa else None)" "uspace (mem t) pt"
proof -
  let ?e = "PA2PTE pa OR (PTE_R OR PTE_W OR PTE_U OR PTE_V)"
  have e: "PTE2PA ?e = pa" by (rule PTE_make [OF pa(2)]) (simp add: PTE_R_def PTE_W_def PTE_U_def PTE_V_def)
  have b: "bit ?e 0" "bit ?e 4" "bit ?e 2"
    by (simp_all add: bit_simps PTE_R_def PTE_W_def PTE_U_def PTE_V_def)
  show p: "user_page writable (mem t) pt v = (if v div PGSIZE = 1 then Some pa else None)" for v
  proof (cases "v < 2 ^ 38")
    case True
    then have u: "unat (of_nat v :: u64) = v" "(of_nat v :: u64) < MAXVA"
      by (simp_all add: unat_less_MAXVA unat_of_nat)
    have "v div PGSIZE = 1 \<longleftrightarrow> 4096 \<le> v \<and> v < 8192" by auto
    moreover have "PGROUNDDOWN (of_nat v) = 0x1000 \<longleftrightarrow> 4096 \<le> v \<and> v < 8192"
      using in_page_iff [of "0x1000" "of_nat v"] u(1) by (simp add: page_aligned_def)
    ultimately show ?thesis
      using l u z e b True by (auto simp: user_page_def mapped_def or.assoc)
  qed (auto simp: user_page_def)
  have "pa \<notin> tables (mem t) pt" using inv pa(1) by (auto simp: vm_inv_def)
  moreover have "0 \<notin> tables (mem t) pt" "pt_wf (mem t) pt"
    using vm_inv_pt_ok [OF inv] inv by (auto simp: pt_ok_def vm_inv_def)
  ultimately show "uspace (mem t) pt" using pa(3) by (auto simp: uspace_def p split: if_splits)
qed

lemma one_page_exists:
  "\<exists>t x u v. kinit kmem8 = Ok () t \<and> uvmcreate t = Ok x u \<and>
     mappages x 0x1000 0x1000 0x10000000 (PTE_R OR PTE_W OR PTE_U) u = Ok 0 v \<and> uspace (mem v) x \<and>
     (\<forall>a. user_page writable (mem v) x a = (if a div PGSIZE = 1 then Some 0x10000000 else None))"
proof -
  from kmem8_fresh obtain t x xs u where k: "kinit kmem8 = Ok () t" "uvmcreate t = Ok x u" "length xs = 7" "kend u = 0x87ff8000"
    and inv: "vm_inv u x xs" and z: "\<forall>a. leaf (mem u) x a = 0" by blast
  let ?p = "PTE_R OR PTE_W OR PTE_U" and ?pa = "0x10000000 :: u64"
  have "page_aligned 0x1000" "unat (0x1000 :: u64) = 1 * PGSIZE" "0 < (1 :: nat)"
    "unat (0x1000 :: u64) + 1 * PGSIZE \<le> 2 ^ 38" by (simp_all add: page_aligned_def)
  from wp_mappages [OF inv this, where pa = ?pa and perm = ?p] z k obtain v ys where
    m: "mappages x 0x1000 0x1000 ?pa ?p u = Ok 0 v" and v: "vm_inv v x ys" "vm_grow u v x xs ys"
    and l: "\<forall>b<MAXVA. leaf (mem v) x b = mapped (mem u) x 0x1000 ?pa ?p 1 b" by (auto simp: wp_iff)
  have "kend v = kend u" using v(2) by (auto simp: vm_grow_def)
  then have "\<not> ram_page v ?pa" "page_aligned ?pa" "?pa \<noteq> 0" using k(4) by (simp_all add: ram_page_def page_aligned_def)
  from one_page [OF v(1) this l z] k m show ?thesis by blast
qed

theorem copyout_copyin_witness:
  "\<exists>t x u v r w. kinit kmem8 = Ok () t \<and> uvmcreate t = Ok x u \<and>
     mappages x 0x1000 0x1000 0x10000000 (PTE_R OR PTE_W OR PTE_U) u = Ok 0 v \<and>
     copyout x 0x1ffe (\<lambda>i. of_nat i) 2 v = Ok 0 w \<and>
     copyin x (\<lambda>_. 0) 0x1ffe 2 w = Ok (0, \<lambda>i. if i < 2 then of_nat i else 0) w"
proof -
  from one_page_exists obtain t x u v where k: "kinit kmem8 = Ok () t" "uvmcreate t = Ok x u"
    "mappages x 0x1000 0x1000 0x10000000 (PTE_R OR PTE_W OR PTE_U) u = Ok 0 v" "uspace (mem v) x"
    and p: "\<forall>a. user_page writable (mem v) x a = (if a div PGSIZE = 1 then Some 0x10000000 else None)" by blast
  have "\<forall>i<unat (2 :: u64). user_byte writable (mem v) x (unat (0x1ffe :: u64) + i) \<noteq> None"
    by (auto simp: user_byte_def p less_2_cases_iff)
  with copyout_copyin [OF k(4), of "0x1ffe" "\<lambda>i. of_nat i" 2 "\<lambda>_. 0"] k(1-3) show ?thesis by auto
qed

end
