(* ===== verification/Ring.thy ===== *)
theory Ring
  imports Pipe Procops Vmspace
begin

text \<open>
  The three ring buffers of the kernel, as queues: the data of a pipe, the transmit buffer of
  the UART and the input buffer of the console all keep free-running unsigned counters and an
  array indexed by a counter modulo its size, and all rely on the counters wrapping around
  at a multiple of that size. The locale \<open>bounded_queue\<close> is the contract the drivers rely
  on; it is interpreted on each of the three.
\<close>

section \<open>A bounded first-in first-out queue\<close>

datatype 'a qop = Put 'a | Get

locale bounded_queue =
  fixes inv :: "'s \<Rightarrow> bool"
    and contents :: "'s \<Rightarrow> 'a list"
    and cap :: nat
    and full :: "'s \<Rightarrow> bool"
    and isempty :: "'s \<Rightarrow> bool"
    and enq :: "'a \<Rightarrow> 's \<Rightarrow> 's"
    and front :: "'s \<Rightarrow> 'a"
    and deq :: "'s \<Rightarrow> 's"
  assumes length_le: "inv s \<Longrightarrow> length (contents s) \<le> cap"
    and full_iff: "inv s \<Longrightarrow> full s \<longleftrightarrow> length (contents s) = cap"
    and empty_iff: "inv s \<Longrightarrow> isempty s \<longleftrightarrow> contents s = []"
    and enq_law: "inv s \<Longrightarrow> \<not> full s \<Longrightarrow> inv (enq c s) \<and> contents (enq c s) = contents s @ [c]"
    and deq_law: "inv s \<Longrightarrow> \<not> isempty s \<Longrightarrow> inv (deq s) \<and> contents s = front s # contents (deq s)"
begin

text \<open>
  A run of producers and consumers: a \<open>Put\<close> on a full queue and a \<open>Get\<close> on an empty one wait,
  that is, have no effect. The result is the final state, what was accepted and what was
  delivered.
\<close>

fun run :: "'a qop list \<Rightarrow> 's \<Rightarrow> 's \<times> 'a list \<times> 'a list" where
  "run [] s = (s, [], [])"
| "run (Put c # os) s =
     (if full s then run os s
      else case run os (enq c s) of (t, ins, outs) \<Rightarrow> (t, c # ins, outs))"
| "run (Get # os) s =
     (if isempty s then run os s
      else case run os (deq s) of (t, ins, outs) \<Rightarrow> (t, ins, front s # outs))"

text \<open>What comes out is what went in, in order; the rest is what the queue still holds.\<close>

lemma fifo:
  assumes "inv s" "run os s = (t, ins, outs)"
  shows "inv t \<and> contents s @ ins = outs @ contents t \<and> length (contents t) \<le> cap"
  using assms
proof (induction os arbitrary: s t ins outs)
  case Nil
  then show ?case using length_le by auto
next
  case (Cons a os)
  show ?case
  proof (cases a)
    case (Put c)
    show ?thesis
    proof (cases "full s")
      case True
      with Cons.prems Put show ?thesis by (intro Cons.IH) simp_all
    next
      case False
      obtain t' ins' outs' where r: "run os (enq c s) = (t', ins', outs')" by (cases "run os (enq c s)")
      with Cons.prems Put False have "t' = t" "c # ins' = ins" "outs' = outs" by simp_all
      then show ?thesis using Cons.IH [OF _ r] enq_law [OF Cons.prems(1) False, of c] by auto
    qed
  next
    case Get
    show ?thesis
    proof (cases "isempty s")
      case True
      with Cons.prems Get show ?thesis by (intro Cons.IH) simp_all
    next
      case False
      obtain t' ins' outs' where r: "run os (deq s) = (t', ins', outs')" by (cases "run os (deq s)")
      with Cons.prems Get False have e: "t' = t" "ins' = ins" "front s # outs' = outs" by simp_all
      have d: "inv (deq s)" "contents s = front s # contents (deq s)"
        using deq_law [OF Cons.prems(1) False] by blast+
      show ?thesis using Cons.IH [OF d(1) r] e unfolding d(2) by auto
    qed
  qed
qed

lemma enq_not_full: "inv s \<Longrightarrow> length (contents s) < cap \<Longrightarrow> \<not> full s"
  by (simp add: full_iff)

end

section \<open>Wrapping counters\<close>

definition ring_list :: "nat \<Rightarrow> (nat \<Rightarrow> 'a) \<Rightarrow> 'w::len word \<Rightarrow> 'w word \<Rightarrow> 'a list" where
  "ring_list n d r w = map (\<lambda>i. d (unat (r + of_nat i) mod n)) [0..<unat (w - r)]"

lemma length_ring_list [simp]: "length (ring_list n d r w) = unat (w - r)"
  by (simp add: ring_list_def)

lemma ring_mod:
  assumes "n dvd 2 ^ LENGTH('w)"
  shows "unat (r + of_nat i :: 'w::len word) mod n = (unat r + i) mod n"
proof -
  have "unat (r + of_nat i) = (unat r + i) mod 2 ^ LENGTH('w)"
    by (simp add: unat_word_ariths(1) unat_of_nat mod_add_right_eq)
  then show ?thesis using assms by (simp add: mod_mod_cancel)
qed

lemma ring_not_full:
  assumes "unat (w - r :: 'w::len word) < n" "n < 2 ^ LENGTH('w)"
  shows "unat (w + 1 - r) = Suc (unat (w - r))"
proof -
  have "w + 1 - r = (w - r) + 1" by simp
  moreover have "unat (w - r) + 1 < 2 ^ LENGTH('w)" using assms by simp
  ultimately show ?thesis by (simp only: unat_word_ariths unat_1) simp
qed

lemma ring_not_empty:
  assumes "(w :: 'w::len word) \<noteq> r"
  shows "unat (w - r) = Suc (unat (w - (r + 1)))"
proof -
  have e: "w - (r + 1) = (w - r) - 1" by simp
  have nz: "w - r \<noteq> 0" using assms by simp
  then have "unat ((w - r) - 1) = unat (w - r) - 1" by (rule unat_minus_one)
  moreover have "0 < unat (w - r)" using nz by (simp add: unat_gt_0)
  ultimately show ?thesis unfolding e by simp
qed

lemma ring_enq:
  assumes n: "n dvd 2 ^ LENGTH('w)" "n < 2 ^ LENGTH('w)" and lt: "unat (w - r) < n"
  shows "ring_list n (d(unat w mod n := c)) r (w + 1) = ring_list n d r (w :: 'w::len word) @ [c]"
proof -
  let ?k = "unat (w - r)"
  have w: "w = r + of_nat ?k" by simp
  have k: "unat (w + 1 - r) = Suc ?k" by (rule ring_not_full [OF lt n(2)])
  have "unat w mod n = (unat r + ?k) mod n" using ring_mod [OF n(1), of r ?k] w by simp
  moreover have "(unat r + i) mod n \<noteq> (unat r + ?k) mod n" if "i < ?k" for i
  proof
    assume "(unat r + i) mod n = (unat r + ?k) mod n"
    then have "n dvd ?k - i" using that mod_eq_dvd_iff_nat [of "unat r + i" "unat r + ?k" n] by simp
    with that lt show False using nat_dvd_not_less [of "?k - i" n] by simp
  qed
  ultimately show ?thesis
    by (simp add: ring_list_def k ring_mod [OF n(1)])
qed

lemma ring_deq:
  assumes "w \<noteq> (r :: 'w::len word)"
  shows "ring_list n d r w = d (unat r mod n) # ring_list n d (r + 1) w"
proof -
  have "[0..<unat (w - r)] = 0 # map Suc [0..<unat (w - (r + 1))]"
    unfolding ring_not_empty [OF assms] by (simp only: upt_conv_Cons zero_less_Suc map_Suc_upt)
  then show ?thesis by (simp add: ring_list_def algebra_simps)
qed

lemma ring_full_iff:
  assumes "n < 2 ^ LENGTH('w)"
  shows "w = r + of_nat n \<longleftrightarrow> unat (w - r :: 'w::len word) = n"
proof
  assume "w = r + of_nat n"
  then show "unat (w - r) = n" using assms by (simp add: unat_of_nat)
next
  assume "unat (w - r) = n"
  then have "of_nat n = (of_nat (unat (w - r)) :: 'w word)" by simp
  then have "of_nat n = w - r" by simp
  then show "w = r + of_nat n" by simp
qed


section \<open>The pipe buffer\<close>

definition pipe_ok :: "pipe \<Rightarrow> bool" where
  "pipe_ok p \<longleftrightarrow> unat (pi_nwrite p - pi_nread p) \<le> PIPESIZE"

definition pipe_list :: "pipe \<Rightarrow> u8 list" where
  "pipe_list p = ring_list PIPESIZE (pi_data p) (pi_nread p) (pi_nwrite p)"

definition pipe_full :: "pipe \<Rightarrow> bool" where
  "pipe_full p \<longleftrightarrow> pi_nwrite p = pi_nread p + PIPESIZE"

definition pipe_empty :: "pipe \<Rightarrow> bool" where
  "pipe_empty p \<longleftrightarrow> pi_nread p = pi_nwrite p"

lemma dvd_pow2: "k \<le> n \<Longrightarrow> (2 :: nat) ^ k dvd 2 ^ n"
  by (rule le_imp_power_dvd)

interpretation pipeq: bounded_queue pipe_ok pipe_list PIPESIZE pipe_full pipe_empty pipe_put pipe_peek pipe_adv
proof
  fix p :: pipe and c :: u8
  have d: "(512 :: nat) dvd 2 ^ LENGTH(32)" "(512 :: nat) < 2 ^ LENGTH(32)" using dvd_pow2 [of 9 32] by simp_all
  let ?r = "pi_nread p" and ?w = "pi_nwrite p"
  have full: "pipe_full p \<longleftrightarrow> unat (?w - ?r) = PIPESIZE"
    using ring_full_iff [OF d(2), of ?w ?r] by (simp add: pipe_full_def)
  show "pipe_ok p \<Longrightarrow> length (pipe_list p) \<le> PIPESIZE" by (simp add: pipe_ok_def pipe_list_def)
  show "pipe_ok p \<Longrightarrow> pipe_full p = (length (pipe_list p) = PIPESIZE)" using full by (simp add: pipe_list_def)
  show "pipe_ok p \<Longrightarrow> pipe_empty p = (pipe_list p = [])"
    by (auto simp: pipe_empty_def pipe_list_def ring_list_def unat_eq_zero)
  show "pipe_ok p \<Longrightarrow> \<not> pipe_full p \<Longrightarrow> pipe_ok (pipe_put c p) \<and> pipe_list (pipe_put c p) = pipe_list p @ [c]"
  proof -
    assume "pipe_ok p" "\<not> pipe_full p"
    then have "unat (?w - ?r) < 512" using full by (simp add: pipe_ok_def)
    then show ?thesis
      using ring_enq [OF d, of ?w ?r "pi_data p" c] ring_not_full [OF _ d(2), of ?w ?r]
      by (simp add: pipe_ok_def pipe_list_def pipe_put_def unat_mod)
  qed
  show "pipe_ok p \<Longrightarrow> \<not> pipe_empty p \<Longrightarrow> pipe_ok (pipe_adv p) \<and> pipe_list p = pipe_peek p # pipe_list (pipe_adv p)"
    using ring_deq [of ?w ?r 512 "pi_data p"] ring_not_empty [of ?w ?r]
    by (auto simp: pipe_ok_def pipe_empty_def pipe_list_def pipe_adv_def pipe_peek_def unat_mod)
qed


section \<open>The transmit buffer of the UART\<close>

definition uart_ok :: "'x uart_st_scheme \<Rightarrow> bool" where
  "uart_ok s \<longleftrightarrow> unat (uart_tx_w s - uart_tx_r s) \<le> UART_TX_BUF_SIZE"

definition uart_list :: "'x uart_st_scheme \<Rightarrow> u8 list" where
  "uart_list s = ring_list UART_TX_BUF_SIZE (uart_tx_buf s) (uart_tx_r s) (uart_tx_w s)"

definition uart_full :: "'x uart_st_scheme \<Rightarrow> bool" where
  "uart_full s \<longleftrightarrow> uart_tx_w s = uart_tx_r s + UART_TX_BUF_SIZE"

definition uart_empty :: "'x uart_st_scheme \<Rightarrow> bool" where
  "uart_empty s \<longleftrightarrow> uart_tx_w s = uart_tx_r s"

interpretation uartq: bounded_queue uart_ok uart_list UART_TX_BUF_SIZE uart_full uart_empty uart_tx_put
  uart_tx_peek uart_tx_adv
proof
  fix s :: "'x uart_st_scheme" and c :: u8
  have d: "(32 :: nat) dvd 2 ^ LENGTH(64)" "(32 :: nat) < 2 ^ LENGTH(64)" using dvd_pow2 [of 5 64] by simp_all
  let ?r = "uart_tx_r s" and ?w = "uart_tx_w s"
  have full: "uart_full s \<longleftrightarrow> unat (?w - ?r) = UART_TX_BUF_SIZE"
    using ring_full_iff [OF d(2), of ?w ?r] by (simp add: uart_full_def)
  show "uart_ok s \<Longrightarrow> length (uart_list s) \<le> UART_TX_BUF_SIZE" by (simp add: uart_ok_def uart_list_def)
  show "uart_ok s \<Longrightarrow> uart_full s = (length (uart_list s) = UART_TX_BUF_SIZE)" using full by (simp add: uart_list_def)
  show "uart_ok s \<Longrightarrow> uart_empty s = (uart_list s = [])"
    by (auto simp: uart_empty_def uart_list_def ring_list_def unat_eq_zero)
  show "uart_ok s \<Longrightarrow> \<not> uart_full s \<Longrightarrow> uart_ok (uart_tx_put c s) \<and> uart_list (uart_tx_put c s) = uart_list s @ [c]"
  proof -
    assume "uart_ok s" "\<not> uart_full s"
    then have "unat (?w - ?r) < 32" using full by (simp add: uart_ok_def)
    then show ?thesis
      using ring_enq [OF d, of ?w ?r "uart_tx_buf s" c] ring_not_full [OF _ d(2), of ?w ?r]
      by (simp add: uart_ok_def uart_list_def uart_tx_put_def unat_mod)
  qed
  show "uart_ok s \<Longrightarrow> \<not> uart_empty s \<Longrightarrow>
      uart_ok (uart_tx_adv s) \<and> uart_list s = uart_tx_peek s # uart_list (uart_tx_adv s)"
    using ring_deq [of ?w ?r 32 "uart_tx_buf s"] ring_not_empty [of ?w ?r]
    by (auto simp: uart_ok_def uart_empty_def uart_list_def uart_tx_adv_def uart_tx_peek_def unat_mod)
qed

end
