(* ===== verification/Pipeops.thy ===== *)
theory Pipeops
  imports Ring
begin

text \<open>
  What \<open>pipewrite\<close> and \<open>piperead\<close> do to the queue of bytes in the pipe, to the processes
  waiting at its other end, and to user memory.
\<close>

section \<open>One byte to or from user space\<close>

lemma copyin_one:
  assumes "pt_ok (mem s) pt"
  shows "copyin pt dst va 1 s = (case user_byte readable (mem s) pt (unat va) of
     None \<Rightarrow> Ok (-1, dst) s | Some a \<Rightarrow> Ok (0, dst(0 := mem s a)) s)"
proof -
  from wp_copyin [OF assms, of dst va 1] obtain r d k where c: "copyin pt dst va 1 s = Ok (r, d) s" "k \<le> 1"
    "d = user_view (mem s) pt (unat va) dst k"
    "r = 0 \<and> k = 1 \<or> r = -1 \<and> k < 1 \<and> user_byte readable (mem s) pt (unat va + k) = None"
    "\<forall>i<k. user_byte readable (mem s) pt (unat va + i) \<noteq> None"
    by (auto simp: wp_iff)
  show ?thesis
  proof (cases "user_byte readable (mem s) pt (unat va)")
    case None
    with c have "k = 0" "r = -1" by (auto simp: less_Suc_eq_0_disj)
    with c(1,3) None show ?thesis by (simp add: user_view_def)
  next
    case (Some a)
    with c(4) have "k = 1" "r = 0" by auto
    moreover have "user_view (mem s) pt (unat va) dst 1 = dst(0 := mem s a)"
      using Some by (auto simp: user_view_def fun_eq_iff)
    ultimately show ?thesis using c(1,3) Some by simp
  qed
qed

lemma copyout_one:
  assumes "uspace (mem s) pt"
  shows "copyout pt va src 1 s = (case user_byte writable (mem s) pt (unat va) of
     None \<Rightarrow> Ok (-1) s | Some a \<Rightarrow> Ok 0 (s\<lparr>mem := (mem s)(a := src 0)\<rparr>))"
proof -
  from wp_copyout [OF assms, of va src 1] obtain r m k where c: "copyout pt va src 1 s = Ok r (s\<lparr>mem := m\<rparr>)" "k \<le> 1"
    "\<forall>i<k. \<exists>a. user_byte writable (mem s) pt (unat va + i) = Some a \<and> m a = src i"
    "\<forall>a. (\<forall>i<k. user_byte writable (mem s) pt (unat va + i) \<noteq> Some a) \<longrightarrow> m a = mem s a"
    "r = 0 \<and> k = 1 \<or> r = -1 \<and> k < 1 \<and> user_byte writable (mem s) pt (unat va + k) = None"
    by (auto simp: wp_iff)
  show ?thesis
  proof (cases "user_byte writable (mem s) pt (unat va)")
    case None
    with c(3,5) have k: "k = 0" "r = -1" by (auto simp: less_Suc_eq_0_disj)
    with c(4) have "m = mem s" by auto
    with c(1) k None show ?thesis by simp
  next
    case (Some a)
    with c(5) have k: "k = 1" "r = 0" by auto
    with c(3,4) Some have "m = (mem s)(a := src 0)" by (auto simp: fun_eq_iff)
    with c(1) k Some show ?thesis by simp
  qed
qed

section \<open>pipewrite\<close>

text \<open>The user's bytes from \<open>addr\<close> on, as far as they can be read.\<close>

definition user_get :: "bytes \<Rightarrow> u64 \<Rightarrow> u64 \<Rightarrow> nat \<Rightarrow> u8 option" where
  "user_get m pt addr i = map_option m (user_byte readable m pt (unat (addr + of_nat i)))"

definition put_all :: "u64 \<Rightarrow> u8 list \<Rightarrow> 'x pipe_st_scheme \<Rightarrow> 'x pipe_st_scheme" where
  "put_all pi bs s = s\<lparr>pipes := (pipes s)(pi := fold pipe_put bs (pipes s pi))\<rparr>"

lemma fold_put:
  assumes "pipe_ok p" "length (pipe_list p) + length bs \<le> PIPESIZE"
  shows "pipe_ok (fold pipe_put bs p) \<and> pipe_list (fold pipe_put bs p) = pipe_list p @ bs \<and>
    pi_readopen (fold pipe_put bs p) = pi_readopen p \<and> pi_writeopen (fold pipe_put bs p) = pi_writeopen p"
  using assms
proof (induction bs arbitrary: p)
  case (Cons b bs)
  then have "\<not> pipe_full p" by (intro pipeq.enq_not_full) simp_all
  with Cons.prems(1) have "pipe_ok (pipe_put b p)" "pipe_list (pipe_put b p) = pipe_list p @ [b]"
    using pipeq.enq_law by blast+
  moreover have "pi_readopen (pipe_put b p) = pi_readopen p" "pi_writeopen (pipe_put b p) = pi_writeopen p"
    by (simp_all add: pipe_put_def)
  ultimately show ?case using Cons.IH [of "pipe_put b p"] Cons.prems(2) by simp
qed simp

text \<open>The situation in the loop: the lock is held and everything else is free.\<close>

definition pipe_cs :: "u64 \<Rightarrow> nat \<Rightarrow> 'x pipe_st_scheme \<Rightarrow> bool" where
  "pipe_cs pi pr s \<longleftrightarrow> nested s \<and> c_proc (cpus s (hart s)) = Some pr \<and> pr < NPROC \<and> procs_unlocked s \<and>
     held (L_pipe pi) s \<and> pt_ok (mem s) (p_pagetable (procs s pr))"

lemma pipewrite_step_put:
  assumes cs: "pipe_cs pi pr s" and i: "i < n" and p: "pi_readopen (pipes s pi)" "\<not> pipe_full (pipes s pi)"
    and k: "\<not> p_killed (procs s pr)" and b: "user_get (mem s) (p_pagetable (procs s pr)) addr i = Some b"
  shows "pipewrite_step pi pr addr (int n) (int i) s = Ok (Inl (int (Suc i))) (put_all pi [b] s)"
proof -
  have n: "nested s" and u: "unlocked (L_proc pr) s" and pt: "pt_ok (mem s) (p_pagetable (procs s pr))"
    using cs by (auto simp: pipe_cs_def procs_unlocked_def)
  have kl: "killed pr s = Ok False s"
    using killed_eq [OF u nested_cpu_ok [OF n]] nested_cs_cpus [OF n] k by simp
  from b obtain a where a: "user_byte readable (mem s) (p_pagetable (procs s pr)) (unat (addr + of_nat i)) = Some a"
    "b = mem s a" by (auto simp: user_get_def)
  show ?thesis
    using i p a kl
    by (simp add: pipewrite_step_def get_pipe_def bnd_def kl pipe_full_def get_proc_def copyin_one [OF pt] a
        upd_pipe_def put_all_def add.commute)
qed


lemma put_all_Cons: "put_all pi (b # bs) s = put_all pi bs (put_all pi [b] s)"
  by (simp add: put_all_def)

lemma put_all_sel [simp]:
  "mem (put_all pi bs s) = mem s" "procs (put_all pi bs s) = procs s"
  "pipes (put_all pi bs s) pi = fold pipe_put bs (pipes s pi)" "pipe_cs pi pr (put_all pi bs s) = pipe_cs pi pr s"
  by (simp_all add: put_all_def pipe_cs_def nested_def procs_unlocked_def unlocked_def held_def)

lemma pipewrite_steps:
  assumes "pipe_cs pi pr s" "pi_readopen (pipes s pi)" "pipe_ok (pipes s pi)" "\<not> p_killed (procs s pr)"
    "i + length bs \<le> n" "length (pipe_list (pipes s pi)) + length bs \<le> PIPESIZE"
    "\<forall>j<length bs. user_get (mem s) (p_pagetable (procs s pr)) addr (i + j) = Some (bs ! j)"
  shows "kiter (n - i + 1) (pipewrite_step pi pr addr (int n)) (int i) s =
    kiter (n - (i + length bs) + 1) (pipewrite_step pi pr addr (int n)) (int (i + length bs)) (put_all pi bs s)"
  using assms
proof (induction bs arbitrary: i s)
  case Nil
  then show ?case by (simp add: put_all_def)
next
  case (Cons b bs)
  let ?s = "put_all pi [b] s"
  have nf: "\<not> pipe_full (pipes s pi)" using Cons.prems(3,6) by (intro pipeq.enq_not_full) simp_all
  have "user_get (mem s) (p_pagetable (procs s pr)) addr i = Some b" using Cons.prems(7) by force
  then have st: "pipewrite_step pi pr addr (int n) (int i) s = Ok (Inl (int (Suc i))) ?s"
    using Cons.prems nf by (intro pipewrite_step_put) simp_all
  have "kiter (n - i + 1) (pipewrite_step pi pr addr (int n)) (int i) s =
      kiter (n - Suc i + 1) (pipewrite_step pi pr addr (int n)) (int (Suc i)) ?s"
  proof -
    have "n - i + 1 = Suc (n - Suc i + 1)" using Cons.prems(5) by simp
    then show ?thesis by (simp only: kiter.simps bnd_def st outcome.case sum.case)
  qed
  also have "\<dots> = kiter (n - (Suc i + length bs) + 1) (pipewrite_step pi pr addr (int n)) (int (Suc i + length bs))
      (put_all pi bs ?s)"
  proof (rule Cons.IH)
    show "\<forall>j<length bs. user_get (mem ?s) (p_pagetable (procs ?s pr)) addr (Suc i + j) = Some (bs ! j)"
      using Cons.prems(7) by force
    show "length (pipe_list (pipes ?s pi)) + length bs \<le> PIPESIZE" "pipe_ok (pipes ?s pi)" "pi_readopen (pipes ?s pi)"
      using fold_put [of "pipes s pi" "[b]"] Cons.prems by auto
  qed (use Cons.prems in simp_all)
  finally show ?case unfolding put_all_Cons [of pi b bs s] by simp
qed

text \<open>The longest readable run of at most \<open>r\<close> bytes from index \<open>i\<close>.\<close>

fun readable_run :: "(nat \<Rightarrow> 'a option) \<Rightarrow> nat \<Rightarrow> nat \<Rightarrow> 'a list" where
  "readable_run g 0 i = []"
| "readable_run g (Suc r) i = (case g i of None \<Rightarrow> [] | Some b \<Rightarrow> b # readable_run g r (Suc i))"

lemma readable_run:
  "length (readable_run g r i) \<le> r"
  "j < length (readable_run g r i) \<Longrightarrow> g (i + j) = Some (readable_run g r i ! j)"
  "length (readable_run g r i) < r \<Longrightarrow> g (i + length (readable_run g r i)) = None"
proof (induction r arbitrary: i j)
  case (Suc r)
  { case 1 show ?case using Suc(1) by (simp split: option.split) }
  { case 2 then show ?case using Suc(2) [of "j - 1" "Suc i"] by (cases j) (auto split: option.splits) }
  { case 3 then show ?case using Suc(3) [of "Suc i"] by (auto split: option.splits) }
qed simp_all


text \<open>Where a pipe operation may start: no lock is held and the caller is a live process.\<close>

definition pipe_start :: "u64 \<Rightarrow> nat \<Rightarrow> 'x pipe_st_scheme \<Rightarrow> bool" where
  "pipe_start pi pr s \<longleftrightarrow> cpu_ok s \<and> noff (cpus s (hart s)) = 0 \<and> c_proc (cpus s (hart s)) = Some pr \<and> pr < NPROC \<and>
     procs_unlocked s \<and> unlocked (L_pipe pi) s \<and> pipe_ok (pipes s pi)"

definition pipe_in :: "u64 \<Rightarrow> 'x pipe_st_scheme \<Rightarrow> 'x pipe_st_scheme" where
  "pipe_in pi s = acq (L_pipe pi) (s\<lparr>cpus := cs_cpus s\<rparr>)"

lemma pipe_in_sel [simp]:
  "mem (pipe_in pi s) = mem s" "procs (pipe_in pi s) = procs s" "pipes (pipe_in pi s) = pipes s"
  by (simp_all add: pipe_in_def acq_def)

lemma pipe_in_cs:
  assumes "pipe_start pi pr s" "pt_ok (mem s) (p_pagetable (procs s pr))"
  shows "pipe_cs pi pr (pipe_in pi s)" "noff (cpus (pipe_in pi s) (hart (pipe_in pi s))) = 1"
  using assms
  by (simp_all add: pipe_start_def pipe_cs_def pipe_in_def acq_def nested_def push_cpu_def cpu_ok_def
      procs_unlocked_def unlocked_def held_def cs_cpus_def)

lemma pipe_enter:
  assumes "pipe_start pi pr s"
  shows "bnd curproc (\<lambda>pr. seq (acquire (L_pipe pi)) (f pr)) s = f pr (pipe_in pi s)"
proof -
  have "cpu_ok s" "c_proc (cpus s (hart s)) = Some pr" "unlocked (L_pipe pi) (s\<lparr>cpus := cs_cpus s\<rparr>)"
    using assms by (simp_all add: pipe_start_def unlocked_def)
  then show ?thesis by (simp add: bnd_def curproc_eq seq_def acquire_unlocked pipe_in_def)
qed

lemma pipe_exit:
  assumes "pipe_start pi pr s"
  shows "release (L_pipe pi) ((pipe_in pi s)\<lparr>pipes := P, procs := Q\<rparr>) = Ok () (s\<lparr>pipes := P, procs := Q, cpus := cs_cpus s\<rparr>)"
    "release (L_pipe pi) ((pipe_in pi s)\<lparr>pipes := P, mem := M, procs := Q\<rparr>) =
      Ok () (s\<lparr>pipes := P, mem := M, procs := Q, cpus := cs_cpus s\<rparr>)"
proof -
  let ?s = "s\<lparr>cpus := cs_cpus s\<rparr>"
  have u: "unlocked (L_pipe pi) ?s" "cpu_ok ?s"
    using assms by (simp_all add: pipe_start_def unlocked_def cpu_ok_def cs_cpus_def)
  have c: "cs_cpus ?s = cs_cpus s" by (simp add: cs_cpus_def)
  show "release (L_pipe pi) ((pipe_in pi s)\<lparr>pipes := P, procs := Q\<rparr>) = Ok () (s\<lparr>pipes := P, procs := Q, cpus := cs_cpus s\<rparr>)"
    using release_acq [OF u, of "(pipe_in pi s)\<lparr>pipes := P, procs := Q\<rparr>"]
    by (simp add: pipe_in_def c) (simp add: acq_def)
  show "release (L_pipe pi) ((pipe_in pi s)\<lparr>pipes := P, mem := M, procs := Q\<rparr>) =
      Ok () (s\<lparr>pipes := P, mem := M, procs := Q, cpus := cs_cpus s\<rparr>)"
    using release_acq [OF u, of "(pipe_in pi s)\<lparr>pipes := P, mem := M, procs := Q\<rparr>"]
    by (simp add: pipe_in_def c) (simp add: acq_def)
qed

text \<open>\<open>wakeup\<close> inside the critical section.\<close>

lemma pipe_wakeup:
  assumes "pipe_cs pi pr s"
  shows "wakeup ch s = Ok () (s\<lparr>procs := woken (Some pr) (Some ch) {..<NPROC} (procs s)\<rparr>)"
  using wakeup_nested [of s "Some ch"] assms by (simp add: pipe_cs_def procs_unlocked_def)


text \<open>The bytes a \<open>pipewrite\<close> of \<open>m\<close> bytes can put into the pipe before it must stop.\<close>

definition accepted :: "u64 \<Rightarrow> nat \<Rightarrow> u64 \<Rightarrow> nat \<Rightarrow> 'x pipe_st_scheme \<Rightarrow> u8 list" where
  "accepted pi pr addr m s = readable_run (user_get (mem s) (p_pagetable (procs s pr)) addr)
     (min m (PIPESIZE - length (pipe_list (pipes s pi)))) 0"

lemma pipewrite_run:
  fixes addr :: u64
  assumes st: "pipe_start pi pr s" and pt: "pt_ok (mem s) (p_pagetable (procs s pr))"
    and p: "pi_readopen (pipes s pi)" "\<not> p_killed (procs s pr)" and n: "sint n = int m"
  defines "bs \<equiv> accepted pi pr addr m s"
  defines "t \<equiv> put_all pi bs (pipe_in pi s)"
  shows "pipewrite pi addr n s = kiter (m - length bs + 1) (pipewrite_step pi pr addr (int m)) (int (length bs)) t"
    "pipe_cs pi pr t" "pipe_list (pipes t pi) = pipe_list (pipes s pi) @ bs" "pipe_ok (pipes t pi)" "pi_readopen (pipes t pi)"
proof -
  let ?g = "user_get (mem s) (p_pagetable (procs s pr)) addr"
  have ok: "pipe_ok (pipes s pi)" using st by (simp add: pipe_start_def)
  have le: "length bs \<le> m" "length (pipe_list (pipes s pi)) + length bs \<le> PIPESIZE"
    using readable_run(1) [of ?g "min m (PIPESIZE - length (pipe_list (pipes s pi)))" 0] pipeq.length_le [OF ok]
    unfolding bs_def accepted_def by linarith+
  have b: "\<forall>j<length bs. ?g (0 + j) = Some (bs ! j)"
    using readable_run(2) [of _ ?g "min m (PIPESIZE - length (pipe_list (pipes s pi)))" 0] by (simp add: bs_def accepted_def)
  note cs = pipe_in_cs [OF st pt]
  have "kiter (m - 0 + 1) (pipewrite_step pi pr addr (int m)) (int 0) (pipe_in pi s) =
      kiter (m - (0 + length bs) + 1) (pipewrite_step pi pr addr (int m)) (int (0 + length bs)) t"
    unfolding t_def by (rule pipewrite_steps [OF cs(1)]) (use p ok le b in simp_all)
  then show "pipewrite pi addr n s = kiter (m - length bs + 1) (pipewrite_step pi pr addr (int m)) (int (length bs)) t"
    unfolding pipewrite_def pipe_enter [OF st] by (simp add: pipewrite_loop_def n)
  show "pipe_cs pi pr t" using cs(1) by (simp add: t_def)
  show "pipe_list (pipes t pi) = pipe_list (pipes s pi) @ bs" "pipe_ok (pipes t pi)" "pi_readopen (pipes t pi)"
    using fold_put [OF ok le(2)] p by (simp_all add: t_def)
qed

text \<open>
  C10. \<open>pipewrite\<close> appends a prefix of the user's bytes to the queue of the pipe, in order: as many as
  are asked for, readable and fit. It returns that number and wakes the readers if it has
  written all or met an unreadable byte; if the pipe is full it wakes the readers and sleeps
  on the writers' channel with the lock of the pipe released.
\<close>

theorem pipewrite_exact:
  assumes st: "pipe_start pi pr s" and pt: "pt_ok (mem s) (p_pagetable (procs s pr))"
    and p: "pi_readopen (pipes s pi)" "\<not> p_killed (procs s pr)" and n: "sint n = int m"
  shows "\<exists>P. (\<forall>q. q \<noteq> pi \<longrightarrow> P q = pipes s q) \<and> pipe_ok (P pi) \<and>
     pipe_list (P pi) = pipe_list (pipes s pi) @ accepted pi pr addr m s \<and>
     (if length (accepted pi pr addr m s) = m \<or> length (pipe_list (P pi)) < PIPESIZE
      then pipewrite pi addr n s = Ok (int (length (accepted pi pr addr m s)))
        (s\<lparr>pipes := P, procs := woken (Some pr) (Some (Ch_pipe_nread pi)) {..<NPROC} (procs s), cpus := cs_cpus s\<rparr>)
      else \<exists>t. pipewrite pi addr n s = Swtch t \<and> pipes t = P \<and> unlocked (L_pipe pi) t \<and>
        p_state (procs t pr) = SLEEPING \<and> p_chan (procs t pr) = Some (Ch_pipe_nwrite pi) \<and>
        (\<forall>q. q \<noteq> pr \<longrightarrow> procs t q = woken (Some pr) (Some (Ch_pipe_nread pi)) {..<NPROC} (procs s) q))"
proof -
  let ?bs = "accepted pi pr addr m s" and ?g = "user_get (mem s) (p_pagetable (procs s pr)) addr"
  let ?k = "length ?bs"
  define t where "t = put_all pi ?bs (pipe_in pi s)"
  define P where "P = (pipes s)(pi := fold pipe_put ?bs (pipes s pi))"
  define W where "W = woken (Some pr) (Some (Ch_pipe_nread pi)) {..<NPROC} (procs s)"
  note run = pipewrite_run [OF assms, where addr = addr, folded t_def]
  have tP: "t = (pipe_in pi s)\<lparr>pipes := P\<rparr>" by (simp add: t_def put_all_def P_def)
  have w: "wakeup (Ch_pipe_nread pi) t = Ok () (t\<lparr>procs := W\<rparr>)"
    using pipe_wakeup [OF run(2)] by (simp add: W_def t_def)
  have ex: "release (L_pipe pi) (t\<lparr>procs := W\<rparr>) = Ok () (s\<lparr>pipes := P, procs := W, cpus := cs_cpus s\<rparr>)"
    unfolding tP using pipe_exit(1) [OF st] by simp
  have Pp: "P pi = pipes t pi" by (simp add: tP)
  have nest: "nested t" "unlocked (L_proc pr) t" "procs t = procs s" "mem t = mem s"
    using run(2) by (auto simp: pipe_cs_def procs_unlocked_def t_def)
  have kl: "killed pr t = Ok False t"
    using killed_eq [OF nest(2) nested_cpu_ok [OF nest(1)]] nested_cs_cpus [OF nest(1)] p(2) nest(3) by simp
  have le: "?k \<le> m" using readable_run(1) [of ?g "min m (PIPESIZE - length (pipe_list (pipes s pi)))" 0]
    by (simp add: accepted_def)
  have goal: "if ?k = m \<or> length (pipe_list (P pi)) < PIPESIZE
      then pipewrite pi addr n s = Ok (int ?k) (s\<lparr>pipes := P, procs := W, cpus := cs_cpus s\<rparr>)
      else \<exists>t. pipewrite pi addr n s = Swtch t \<and> pipes t = P \<and> unlocked (L_pipe pi) t \<and>
        p_state (procs t pr) = SLEEPING \<and> p_chan (procs t pr) = Some (Ch_pipe_nwrite pi) \<and>
        (\<forall>q. q \<noteq> pr \<longrightarrow> procs t q = W q)"
  proof (cases "?k = m")
    case True
    have "pipewrite_step pi pr addr (int m) (int ?k) t = Ok (Inr (int m)) (s\<lparr>pipes := P, procs := W, cpus := cs_cpus s\<rparr>)"
      using True by (simp add: pipewrite_step_def seq_def bnd_def w ex)
    then show ?thesis using run(1) True by (simp add: bnd_def)
  next
    case False
    with le have lt: "?k < m" by simp
    show ?thesis
    proof (cases "length (pipe_list (P pi)) < PIPESIZE")
      case True
      have "?g ?k = None"
        using readable_run(3) [of ?g "min m (PIPESIZE - length (pipe_list (pipes s pi)))" 0] lt True run(3) Pp
        by (simp add: accepted_def)
      then have ub: "user_byte readable (mem t) (p_pagetable (procs t pr)) (unat (addr + of_nat ?k)) = None"
        by (simp add: user_get_def nest)
      have nf: "\<not> pipe_full (pipes t pi)" using True run(4) Pp by (intro pipeq.enq_not_full) simp_all
      have "pt_ok (mem t) (p_pagetable (procs t pr))" using pt nest by simp
      note cp = copyin_one [OF this, where va = "addr + of_nat ?k", unfolded ub option.case]
      have "pipewrite_step pi pr addr (int m) (int ?k) t = Ok (Inr (int ?k)) (s\<lparr>pipes := P, procs := W, cpus := cs_cpus s\<rparr>)"
        using lt nf run(5)
        by (simp add: pipewrite_step_def get_pipe_def bnd_def kl pipe_full_def get_proc_def cp seq_def w ex)
      then show ?thesis using run(1) True by (simp add: bnd_def)
    next
      case full: False
      then have fl: "pipe_full (pipes t pi)"
        using pipeq.full_iff [OF run(4)] pipeq.length_le [OF run(4)] Pp by simp
      let ?t = "t\<lparr>procs := W\<rparr>"
      have "sleep (Ch_pipe_nwrite pi) (L_pipe pi) ?t = Swtch (asleep pr (Ch_pipe_nwrite pi) (L_pipe pi) ?t)"
        using run(2) pipe_in_cs(2) [OF st pt]
        by (intro sleep_eq) (auto simp: pipe_cs_def nested_def procs_unlocked_def unlocked_def held_def tP)
      then have "pipewrite_step pi pr addr (int m) (int ?k) t = Swtch (asleep pr (Ch_pipe_nwrite pi) (L_pipe pi) ?t)"
        using lt fl run(5) by (simp add: pipewrite_step_def get_pipe_def bnd_def kl pipe_full_def seq_def w)
      then have "pipewrite pi addr n s = Swtch (asleep pr (Ch_pipe_nwrite pi) (L_pipe pi) ?t)"
        using run(1) by (simp add: bnd_def)
      then show ?thesis using False full by (simp add: asleep_def unlocked_def tP)
    qed
  qed
  show ?thesis
    using run(3,4) Pp goal unfolding W_def by (intro exI [of _ P]) (simp add: P_def)
qed


text \<open>
  A machine for evaluation. Its memory holds the same entry everywhere, which maps every user
  page to the page at 0x1000; that page is its own page table.
\<close>

definition loop_mem :: bytes where
  "loop_mem a = (if a mod 8 = 0 then 0x17 else if a mod 8 = 1 then 4 else 0)"

definition buf0 :: buf where
  "buf0 = \<lparr>b_valid = False, b_disk = False, b_dev = 0, b_blockno = 0, b_refcnt = 0, b_prev = 0, b_next = 0,
     b_data = (\<lambda>_. 0)\<rparr>"

definition inode0 :: inode where
  "inode0 = \<lparr>i_dev = 0, i_inum = 0, i_ref = 0, i_valid = False, i_type = 0, i_major = 0, i_minor = 0, i_nlink = 0,
     i_size = 0, i_addrs = (\<lambda>_. 0)\<rparr>"

definition log0 :: log where
  "log0 = \<lparr>l_start = 2, l_size = 30, l_outstanding = 0, l_committing = False, l_dev = 1,
     l_lh = \<lparr>lh_n = 0, lh_block = (\<lambda>_. 0)\<rparr>\<rparr>"

definition sb0 :: superblock where
  "sb0 = \<lparr>sb_magic = 0x10203040, sb_size = 2000, sb_nblocks = 1954, sb_ninodes = 200, sb_nlog = 30,
     sb_logstart = 2, sb_inodestart = 32, sb_bmapstart = 45\<rparr>"

definition pipe_sys :: "bytes \<Rightarrow> u64 \<Rightarrow> pipe \<Rightarrow> pipe_st" where
  "pipe_sys m pt p = proc_st.extend ((proc_sys (\<lambda>_. proc0\<lparr>p_pagetable := pt\<rparr>))\<lparr>mem := m\<rparr>)
     \<lparr>bufs = (\<lambda>_. buf0), disk = (\<lambda>_ _. 0), dwrites = [], klog = log0, sb = sb0, itable = (\<lambda>_. inode0),
      uart_tx_buf = (\<lambda>_. 0), uart_tx_w = 0, uart_tx_r = 0, u_reg = (\<lambda>_. 0), u_lsr = (\<lambda>_. 0), u_rhr = (\<lambda>_. 0),
      kcons = \<lparr>c_buf = (\<lambda>_. 0), c_r = 0, c_w = 0, c_e = 0\<rparr>, pipes = (\<lambda>_. p)\<rparr>"

definition pipe0 :: pipe where
  "pipe0 = \<lparr>pi_data = (\<lambda>_. 0), pi_nread = - 1, pi_nwrite = - 1, pi_readopen = True, pi_writeopen = True\<rparr>"

lemma pipe_sys_sel:
  "mem (pipe_sys m pt p) = m" "pipes (pipe_sys m pt p) = (\<lambda>_. p)" "procs (pipe_sys m pt p) = (\<lambda>_. proc0\<lparr>p_pagetable := pt\<rparr>)"
  "pipe_ok p \<Longrightarrow> pipe_start pi 0 (pipe_sys m pt p)"
  by (simp_all add: pipe_sys_def proc_sys_def proc_st.defs pipe_start_def cpu_ok_def procs_unlocked_def unlocked_def)

lemma ldn_shift: "ldn n m (a + b) = ldn n (\<lambda>j. m (a + j)) b"
  by (induction n arbitrary: b) (simp_all add: add_Suc_right [symmetric] del: add_Suc_right)

lemma loop_mem_pte: "i < 512 \<Longrightarrow> pte_at loop_mem 0x1000 i = 0x417"
proof -
  assume i: "i < 512"
  have "unat (pte_addr 0x1000 i) = 8 * (512 + unat i) + 0"
    using unat_pte_addr [OF _ i, of "0x1000"] by (simp add: page_aligned_def)
  then have "pte_at loop_mem 0x1000 i = ldn 8 (\<lambda>j. loop_mem (8 * (512 + unat i) + j)) 0"
    by (simp only: pte_at_def ld64_def ldn_shift)
  also have "(\<lambda>j. loop_mem (8 * (512 + unat i) + j)) = loop_mem"
    by (rule ext) (simp only: loop_mem_def mod_mult_self4)
  also have "ldn 8 loop_mem 0 = (0x417 :: u64)" by code_simp
  finally show ?thesis .
qed

lemma loop_mem_pt: "pt_ok loop_mem 0x1000" "leaf loop_mem 0x1000 a = 0x417"
proof -
  have n: "\<forall>i\<in>set is. i < 512 \<Longrightarrow> node loop_mem 0x1000 is = Some 0x1000" for "is"
    by (induction "is") (simp_all add: loop_mem_pte PTE2PA_def)
  then have "tables loop_mem 0x1000 \<subseteq> {0x1000}" by (auto simp: tables_def idx_def)
  then show "pt_ok loop_mem 0x1000" by (auto simp: pt_ok_def page_aligned_def)
  show "leaf loop_mem 0x1000 a = 0x417"
    using n [of "[PX 2 a, PX 1 a]"] by (simp only: leaf_def ent_def) (simp add: PX_less loop_mem_pte)
qed

lemma loop_user_byte: "i < 4096 \<Longrightarrow> user_byte readable loop_mem 0x1000 i = Some (0x1000 + i)"
proof -
  assume i: "i < 4096"
  have "bit (0x417 :: u64) 0" "bit (0x417 :: u64) 4" "PTE2PA 0x417 = 0x1000" by code_simp+
  then have "user_page readable loop_mem 0x1000 i = Some 0x1000"
    using i by (simp add: user_page_def loop_mem_pt)
  then show ?thesis using i by (simp add: user_byte_def)
qed

theorem pipewrite_exact_witness:
  "\<exists>s'. pipewrite 0x87ff0000 0 3 (pipe_sys loop_mem 0x1000 pipe0) = Ok 3 s' \<and> pipe_list (pipes s' 0x87ff0000) = [0x17, 4, 0]"
proof -
  let ?s = "pipe_sys loop_mem 0x1000 pipe0"
  have e: "pipe_list pipe0 = []" "pipe_ok pipe0" by (simp_all add: pipe_list_def ring_list_def pipe0_def pipe_ok_def)
  have u: "user_get loop_mem 0x1000 0 i = Some (loop_mem (0x1000 + i))" if "i < 3" for i
  proof -
    have "unat (of_nat i :: u64) = i" using that by (simp add: unat_of_nat)
    then show ?thesis using that by (simp add: user_get_def loop_user_byte)
  qed
  have "loop_mem (0x1000 + 0) = 0x17" "loop_mem (0x1000 + Suc 0) = 4" "loop_mem (0x1000 + Suc (Suc 0)) = 0"
    by (simp_all add: loop_mem_def)
  then have "user_get loop_mem 0x1000 0 0 = Some 0x17" "user_get loop_mem 0x1000 0 (Suc 0) = Some 4"
    "user_get loop_mem 0x1000 0 (Suc (Suc 0)) = Some 0"
    using u [of 0] u [of "Suc 0"] u [of "Suc (Suc 0)"] by (simp_all only:)
  then have "readable_run (user_get loop_mem 0x1000 0) 3 0 = [0x17, 4, 0]"
    by (simp only: numeral_3_eq_3 readable_run.simps option.case)
  then have a: "accepted 0x87ff0000 0 0 3 ?s = [0x17, 4, 0]"
    by (simp add: accepted_def pipe_sys_sel e proc0_def)
  have "pipe_start 0x87ff0000 0 ?s" "pt_ok (mem ?s) (p_pagetable (procs ?s 0))" "pi_readopen (pipes ?s 0x87ff0000)"
    "\<not> p_killed (procs ?s 0)" "sint (3 :: i32) = int 3"
    by (simp_all add: pipe_sys_sel e loop_mem_pt) (simp_all add: pipe0_def proc0_def)
  from pipewrite_exact [OF this, of 0] show ?thesis unfolding a by (auto simp: pipe_sys_sel e)
qed


section \<open>piperead\<close>

text \<open>The places in memory for the first bytes of a read, as far as they can be written.\<close>

definition places :: "u64 \<Rightarrow> u64 \<Rightarrow> nat \<Rightarrow> bytes \<Rightarrow> nat list" where
  "places pt addr k m = readable_run (\<lambda>i. user_byte writable m pt (unat (addr + of_nat i))) k 0"

fun store_at :: "nat list \<Rightarrow> u8 list \<Rightarrow> bytes \<Rightarrow> bytes" where
  "store_at (a # as) (b # bs) m = store_at as bs (m(a := b))"
| "store_at as bs m = m"

lemma store_at_other: "b \<notin> set as \<Longrightarrow> store_at as bs m b = m b"
  by (induction as bs m rule: store_at.induct) auto

lemma store_at_snoc:
  "length as = length bs \<Longrightarrow> store_at (as @ [a]) (bs @ [b]) m = (store_at as bs m)(a := b)"
  by (induction as bs m rule: store_at.induct) auto

lemma store_at_nth:
  "distinct as \<Longrightarrow> i < length as \<Longrightarrow> i < length bs \<Longrightarrow> store_at as bs m (as ! i) = bs ! i"
proof (induction as arbitrary: bs m i)
  case (Cons a as)
  then obtain b bs' where bs: "bs = b # bs'" by (cases bs) auto
  show ?case
  proof (cases i)
    case 0
    with Cons.prems(1) show ?thesis by (simp add: bs store_at_other)
  next
    case (Suc j)
    with Cons.IH [of j bs' "m(a := b)"] Cons.prems show ?thesis by (simp add: bs del: fun_upd_apply)
  qed
qed simp

lemma kfind_prefix:
  assumes "\<And>i. i < j \<Longrightarrow> f i (st i) = Ok None (st (Suc i))" "j \<le> m"
  shows "kfind [0..<m] f (st 0) = kfind [j..<m] f (st j)"
  using assms
proof (induction j)
  case (Suc j)
  then have "kfind [0..<m] f (st 0) = kfind [j..<m] f (st j)" by simp
  also have "[j..<m] = j # [Suc j..<m]" using Suc.prems(2) by (simp add: upt_conv_Cons)
  finally show ?case using Suc.prems(1) [of j] by (simp add: bnd_def)
qed simp

lemma adv_list:
  assumes "pipe_ok p" "i \<le> length (pipe_list p)"
  shows "pipe_ok ((pipe_adv ^^ i) p) \<and> pipe_list ((pipe_adv ^^ i) p) = drop i (pipe_list p)"
  using assms(2)
proof (induction i)
  case (Suc i)
  then have q: "pipe_ok ((pipe_adv ^^ i) p)" "pipe_list ((pipe_adv ^^ i) p) = drop i (pipe_list p)" by simp_all
  have "\<not> pipe_empty ((pipe_adv ^^ i) p)" using pipeq.empty_iff [OF q(1)] q(2) Suc.prems by simp
  from pipeq.deq_law [OF q(1) this] q(2) show ?case
    by (simp add: drop_Suc tl_drop [symmetric])
qed (use assms(1) in simp)

lemma adv_peek:
  assumes "pipe_ok p" "i < length (pipe_list p)"
  shows "pipe_peek ((pipe_adv ^^ i) p) = pipe_list p ! i" "\<not> pipe_empty ((pipe_adv ^^ i) p)"
proof -
  have q: "pipe_ok ((pipe_adv ^^ i) p)" "pipe_list ((pipe_adv ^^ i) p) = drop i (pipe_list p)"
    using adv_list [OF assms(1), of i] assms(2) by simp_all
  show ne: "\<not> pipe_empty ((pipe_adv ^^ i) p)" using pipeq.empty_iff [OF q(1)] q(2) assms(2) by simp
  from pipeq.deq_law [OF q(1) ne] q(2) show "pipe_peek ((pipe_adv ^^ i) p) = pipe_list p ! i"
    using assms(2) by (metis hd_drop_conv_nth list.sel(1))
qed


definition read_st :: "u64 \<Rightarrow> nat list \<Rightarrow> 'x pipe_st_scheme \<Rightarrow> nat \<Rightarrow> nat \<Rightarrow> 'x pipe_st_scheme" where
  "read_st pi as s d i = s\<lparr>pipes := (pipes s)(pi := (pipe_adv ^^ d) (pipes s pi)),
     mem := store_at (take i as) (take i (pipe_list (pipes s pi))) (mem s)\<rparr>"

lemma read_st_0: "read_st pi as s 0 0 = s"
  by (simp add: read_st_def)

lemma piperead_step_ok:
  fixes addr :: u64 and k :: nat
  assumes us: "uspace (mem s) (p_pagetable (procs s pr))" and ok: "pipe_ok (pipes s pi)"
  defines "as \<equiv> places (p_pagetable (procs s pr)) addr k (mem s)"
  assumes k: "k \<le> length (pipe_list (pipes s pi))"
  shows "i < length as \<Longrightarrow> piperead_step pi pr addr i (read_st pi as s i i) = Ok None (read_st pi as s (Suc i) (Suc i))"
    "i = length as \<Longrightarrow> i < k \<Longrightarrow>
       piperead_step pi pr addr i (read_st pi as s i i) = Ok (Some (int i)) (read_st pi as s (Suc i) i)"
    "uspace (mem (read_st pi as s d i)) (p_pagetable (procs s pr))"
proof -
  let ?pt = "p_pagetable (procs s pr)" and ?p = "pipes s pi"
  let ?g = "\<lambda>i. user_byte writable (mem s) ?pt (unat (addr + of_nat i))"
  note run = readable_run [where g = ?g and r = k and i = 0, folded places_def, folded as_def]
  have la: "length as \<le> k" using run(1) .
  have fr: "mem_frame (user_pages (mem s) ?pt) (mem s) (mem (read_st pi as s d i))" for d i
    unfolding mem_frame_def
  proof (intro allI impI)
    fix b assume b: "\<forall>a\<in>user_pages (mem s) ?pt. b < unat a \<or> unat a + PGSIZE \<le> b"
    have "b \<notin> set (take i as)"
    proof
      assume "b \<in> set (take i as)"
      then obtain j where "j < length as" "b = as ! j" by (auto simp: in_set_conv_nth)
      then have "?g j = Some b" using run(2) [of j] by simp
      then obtain q where q: "user_page writable (mem s) ?pt (unat (addr + of_nat j)) = Some q"
        "b = unat q + unat (addr + of_nat j) mod PGSIZE" by (auto simp: user_byte_def)
      have "q \<in> user_pages (mem s) ?pt" using q(1) unfolding user_pages_def by blast
      moreover have "unat (addr + of_nat j) mod 4096 < 4096" by simp
      ultimately show False using b q(2) by fastforce
    qed
    then show "mem (read_st pi as s d i) b = mem s b" by (simp add: read_st_def store_at_other)
  qed
  note uf = uspace_frame [OF us fr]
  show us': "uspace (mem (read_st pi as s d i)) ?pt" for d i by (rule uf(4))
  have pr: "procs (read_st pi as s d i) = procs s" for d i by (simp add: read_st_def)
  let ?q = "(pipe_adv ^^ i) ?p"
  have st: "piperead_step pi pr addr i (read_st pi as s i i) =
      (case ?g i of None \<Rightarrow> Ok (Some (int i)) (read_st pi as s (Suc i) i)
       | Some a \<Rightarrow> Ok None ((read_st pi as s (Suc i) i)\<lparr>mem := (mem (read_st pi as s i i))(a := pipe_list ?p ! i)\<rparr>))"
    if i: "i < k" for i
  proof -
    have il: "i < length (pipe_list ?p)" using i k by simp
    let ?s = "read_st pi as s (Suc i) i"
    have up: "upd_pipe pi pipe_adv (read_st pi as s i i) = Ok () ?s"
      by (simp add: upd_pipe_def read_st_def)
    have "pipes (read_st pi as s i i) pi = (pipe_adv ^^ i) ?p" by (simp add: read_st_def)
    moreover have "mem ?s = mem (read_st pi as s i i)" by (simp add: read_st_def)
    ultimately show ?thesis
      using adv_peek [OF ok il] copyout_one [where s = ?s and pt = ?pt and va = "addr + of_nat i" and src = "\<lambda>_. pipe_list ?p ! i", OF us'] up
      by (simp add: piperead_step_def get_pipe_def bnd_def seq_def pipe_empty_def get_proc_def pr uf(3)
          split: option.split)
  qed
  show "piperead_step pi pr addr i (read_st pi as s i i) = Ok None (read_st pi as s (Suc i) (Suc i))" if "i < length as"
  proof -
    have il: "i < length (pipe_list ?p)" "i < k" using that la k by simp_all
    have "?g i = Some (as ! i)" using run(2) [OF that] by simp
    moreover have "store_at (take (Suc i) as) (take (Suc i) (pipe_list ?p)) (mem s) =
        (store_at (take i as) (take i (pipe_list ?p)) (mem s))(as ! i := pipe_list ?p ! i)"
      using that il by (simp add: take_Suc_conv_app_nth store_at_snoc)
    ultimately show ?thesis using st [OF il(2)] by (simp add: read_st_def)
  qed
  show "piperead_step pi pr addr i (read_st pi as s i i) = Ok (Some (int i)) (read_st pi as s (Suc i) i)"
    if "i = length as" "i < k"
    using st [OF that(2)] run(3) that by simp
qed


lemma piperead_copy_eq:
  fixes m :: nat and addr :: u64
  assumes st: "pipe_start pi pr s" and us: "uspace (mem s) (p_pagetable (procs s pr))"
  defines "xs \<equiv> pipe_list (pipes s pi)"
  defines "k \<equiv> min m (length xs)"
  defines "as \<equiv> places (p_pagetable (procs s pr)) addr k (mem s)"
  defines "d \<equiv> if length as < k then Suc (length as) else k"
  shows "piperead_copy pi pr addr (int m) (pipe_in pi s) = Ok (int (length as))
     (s\<lparr>pipes := (pipes s)(pi := (pipe_adv ^^ d) (pipes s pi)), mem := store_at as (take (length as) xs) (mem s),
        procs := woken (Some pr) (Some (Ch_pipe_nwrite pi)) {..<NPROC} (procs s), cpus := cs_cpus s\<rparr>)"
proof -
  let ?s = "pipe_in pi s" and ?j = "length as"
  let ?st = "\<lambda>d i. read_st pi as ?s d i"
  have ok: "pipe_ok (pipes s pi)" using st by (simp add: pipe_start_def)
  have le: "?j \<le> k" "k \<le> m" "k \<le> length xs"
    unfolding as_def places_def by (rule readable_run(1)) (simp_all add: k_def)
  have us1: "uspace (mem ?s) (p_pagetable (procs ?s pr))" and ok1: "pipe_ok (pipes ?s pi)"
    and kx: "k \<le> length (pipe_list (pipes ?s pi))" using us ok le by (simp_all add: xs_def)
  have as': "places (p_pagetable (procs ?s pr)) addr k (mem ?s) = as" by (simp add: as_def)
  note step = piperead_step_ok [OF us1 ok1 kx, where addr = addr, unfolded as']
  have "kfind [0..<m] (piperead_step pi pr addr) (?st 0 0) = kfind [?j..<m] (piperead_step pi pr addr) (?st ?j ?j)"
    by (rule kfind_prefix [where f = "piperead_step pi pr addr" and st = "\<lambda>i. ?st i i" and j = ?j, OF step(1)])
      (use le in simp_all)
  also have "\<dots> = Ok (if ?j = m then None else Some (int ?j)) (?st d ?j)"
  proof (cases "?j < k")
    case True
    then have "[?j..<m] = ?j # [Suc ?j..<m]" using le by (simp add: upt_conv_Cons)
    then show ?thesis using step(2) [OF refl True] True le by (simp add: bnd_def d_def)
  next
    case False
    then have j: "?j = k" "d = k" using le by (simp_all add: d_def)
    show ?thesis
    proof (cases "k = m")
      case False
      then have kx: "k = length xs" "k < m" using le by (auto simp: k_def)
      have "pipe_list ((pipe_adv ^^ k) (pipes s pi)) = []" "pipe_ok ((pipe_adv ^^ k) (pipes s pi))"
        using adv_list [OF ok, of k] kx by (simp_all add: xs_def)
      then have "pipe_empty (pipes (?st k k) pi)" using pipeq.empty_iff by (simp add: read_st_def)
      then have "piperead_step pi pr addr k (?st k k) = Ok (Some (int k)) (?st k k)"
        by (simp add: piperead_step_def get_pipe_def pipe_empty_def)
      moreover have "[k..<m] = k # [Suc k..<m]" using kx by (simp add: upt_conv_Cons)
      ultimately show ?thesis using j kx by (simp add: bnd_def)
    qed (use j in simp)
  qed
  finally have kf: "kfind [0..<m] (piperead_step pi pr addr) ?s = Ok (if ?j = m then None else Some (int ?j)) (?st d ?j)"
    by (simp only: read_st_0)
  have "pt_ok (mem s) (p_pagetable (procs s pr))" using us by (simp add: uspace_def pt_ok_def pt_wf_def)
  note cs = pipe_in_cs(1) [OF st this]
  let ?W = "woken (Some pr) (Some (Ch_pipe_nwrite pi)) {..<NPROC} (procs s)"
  have w: "wakeup (Ch_pipe_nwrite pi) (?st d ?j) = Ok () ((?st d ?j)\<lparr>procs := ?W\<rparr>)"
    using wakeup_nested [of "?st d ?j" "Some (Ch_pipe_nwrite pi)"] cs
    by (simp add: read_st_def pipe_cs_def nested_def procs_unlocked_def unlocked_def)
  have r: "release (L_pipe pi) ((?st d ?j)\<lparr>procs := ?W\<rparr>) =
     Ok () (s\<lparr>pipes := (pipes s)(pi := (pipe_adv ^^ d) (pipes s pi)), mem := store_at as (take ?j xs) (mem s),
        procs := ?W, cpus := cs_cpus s\<rparr>)"
    using pipe_exit(2) [OF st] by (simp add: read_st_def xs_def)
  show ?thesis
    by (simp add: piperead_copy_def bnd_def kf seq_def w r)
qed


text \<open>
  C11. \<open>piperead\<close> of \<open>m\<close> bytes takes bytes off the front of the queue, in order. If the pipe is
  empty and has a writer, a live caller sleeps on the readers' channel with the lock
  released. Otherwise the call returns the number of bytes copied: all that are
  there, up to \<open>m\<close>, unless a place in user memory is not writable; that byte is then lost. Exactly the
  places named are written, and the writers are woken.
\<close>

theorem piperead_exact:
  assumes st: "pipe_start pi pr s" and us: "uspace (mem s) (p_pagetable (procs s pr))" and n: "sint n = int m"
    and k: "\<not> p_killed (procs s pr)"
  shows "let xs = pipe_list (pipes s pi); k = min m (length xs);
      as = places (p_pagetable (procs s pr)) addr k (mem s) in
    if xs = [] \<and> pi_writeopen (pipes s pi)
    then \<exists>t. piperead pi addr n s = Swtch t \<and> unlocked (L_pipe pi) t \<and> pipes t = pipes s \<and>
      p_state (procs t pr) = SLEEPING \<and> p_chan (procs t pr) = Some (Ch_pipe_nread pi)
    else \<exists>P. piperead pi addr n s = Ok (int (length as))
      (s\<lparr>pipes := P, mem := store_at as (take (length as) xs) (mem s),
         procs := woken (Some pr) (Some (Ch_pipe_nwrite pi)) {..<NPROC} (procs s), cpus := cs_cpus s\<rparr>) \<and>
      (\<forall>q. q \<noteq> pi \<longrightarrow> P q = pipes s q) \<and> pipe_ok (P pi) \<and>
      pipe_list (P pi) = drop (if length as < k then Suc (length as) else k) xs"
proof -
  let ?xs = "pipe_list (pipes s pi)" and ?pt = "p_pagetable (procs s pr)"
  let ?k = "min m (length ?xs)"
  let ?as = "places ?pt addr ?k (mem s)"
  let ?d = "if length ?as < ?k then Suc (length ?as) else ?k"
  have ok: "pipe_ok (pipes s pi)" using st by (simp add: pipe_start_def)
  have pt: "pt_ok (mem s) ?pt" using us by (simp add: uspace_def pt_ok_def pt_wf_def)
  note cs = pipe_in_cs [OF st pt]
  have nest: "nested (pipe_in pi s)" "unlocked (L_proc pr) (pipe_in pi s)" "held (L_pipe pi) (pipe_in pi s)"
    "c_proc (cpus (pipe_in pi s) (hart (pipe_in pi s))) = Some pr"
    using cs(1) by (auto simp: pipe_cs_def procs_unlocked_def)
  have kl: "killed pr (pipe_in pi s) = Ok False (pipe_in pi s)"
    using killed_eq [OF nest(2) nested_cpu_ok [OF nest(1)]] nested_cs_cpus [OF nest(1)] k by simp
  have e: "piperead pi addr n s = piperead_loop pi pr addr (int m) (pipe_in pi s)"
    unfolding piperead_def pipe_enter [OF st] by (simp add: n)
  have emp: "pi_nread (pipes s pi) = pi_nwrite (pipes s pi) \<longleftrightarrow> ?xs = []"
    using pipeq.empty_iff [OF ok] by (simp add: pipe_empty_def)
  show ?thesis
  proof (cases "?xs = [] \<and> pi_writeopen (pipes s pi)")
    case True
    let ?t = "asleep pr (Ch_pipe_nread pi) (L_pipe pi) (pipe_in pi s)"
    have "sleep (Ch_pipe_nread pi) (L_pipe pi) (pipe_in pi s) = Swtch ?t"
      by (rule sleep_eq [OF nest(1) cs(2) nest(4,2,3)]) simp
    then have "piperead pi addr n s = Swtch ?t"
      using True emp unfolding e by (simp add: piperead_loop_def get_pipe_def bnd_def kl)
    then show ?thesis using True by (simp add: asleep_def unlocked_def)
  next
    case False
    have "piperead_loop pi pr addr (int m) (pipe_in pi s) = piperead_copy pi pr addr (int m) (pipe_in pi s)"
      using False emp by (auto simp: piperead_loop_def get_pipe_def)
    then have c: "piperead pi addr n s = Ok (int (length ?as))
        (s\<lparr>pipes := (pipes s)(pi := (pipe_adv ^^ ?d) (pipes s pi)), mem := store_at ?as (take (length ?as) ?xs) (mem s),
           procs := woken (Some pr) (Some (Ch_pipe_nwrite pi)) {..<NPROC} (procs s), cpus := cs_cpus s\<rparr>)"
      unfolding e by (simp only: piperead_copy_eq [OF st us])
    have "?k \<le> length ?xs" by simp
    then have d: "?d \<le> length ?xs" by (cases "length ?as < ?k") (simp_all only: if_True if_False Suc_le_eq less_le_trans)
    show ?thesis
      unfolding Let_def if_not_P [OF False]
      by (intro exI [of _ "(pipes s)(pi := (pipe_adv ^^ ?d) (pipes s pi))"] conjI c)
        (simp_all only: fun_upd_apply adv_list [OF ok d] simp_thms if_False if_True cong: imp_cong)
  qed
qed

theorem piperead_exact_witness:
  "\<exists>m pt s'. piperead 0x87ff0000 0x1ffe 5 (pipe_sys m pt (pipe_put 7 (pipe_put 6 pipe0))) = Ok 2 s' \<and>
     pipe_list (pipes s' 0x87ff0000) = [] \<and> mem s' 0x10000ffe = 6 \<and> mem s' 0x10000fff = 7"
proof -
  from one_page_exists obtain v :: kmem_st and pt where us: "uspace (mem v) pt"
    and p: "\<And>a. user_page writable (mem v) pt a = (if a div PGSIZE = 1 then Some 0x10000000 else None)" by blast
  let ?p = "pipe_put 7 (pipe_put 6 pipe0)"
  let ?s = "pipe_sys (mem v) pt ?p"
  have e: "pipe_list pipe0 = []" "pipe_ok pipe0" by (simp_all add: pipe_list_def ring_list_def pipe0_def pipe_ok_def)
  have q: "pipe_ok ?p" "pipe_list ?p = [6, 7]" using fold_put [OF e(2), of "[6, 7]"] e(1) by simp_all
  have pl: "places pt 0x1ffe 2 (mem v) = [0x10000ffe, 0x10000fff]"
  proof -
    have "user_byte writable (mem v) pt (unat (0x1ffe + of_nat 0 :: u64)) = Some 0x10000ffe"
      "user_byte writable (mem v) pt (unat (0x1ffe + of_nat (Suc 0) :: u64)) = Some 0x10000fff"
      by (simp_all add: user_byte_def p)
    then show ?thesis unfolding places_def numeral_2_eq_2 by (simp only: readable_run.simps option.case)
  qed
  have "pipe_start 0x87ff0000 0 ?s" "uspace (mem ?s) (p_pagetable (procs ?s 0))" "sint (5 :: i32) = int 5"
    "\<not> p_killed (procs ?s 0)"
    using us by (simp_all add: pipe_sys_sel q) (simp_all add: proc0_def)
  from piperead_exact [OF this, of "0x1ffe"] obtain s' where
    "piperead 0x87ff0000 0x1ffe 5 ?s = Ok 2 s'" "pipe_list (pipes s' 0x87ff0000) = []"
    "mem s' = store_at [0x10000ffe, 0x10000fff] [6, 7] (mem v)"
    by (auto simp: pipe_sys_sel q pl pl [unfolded numeral_2_eq_2] Let_def)
  then show ?thesis by (intro exI [of _ "mem v"] exI [of _ pt] exI [of _ s']) simp
qed

end
