(* ===== verification/Consops.thy ===== *)
theory Consops
  imports Pipeops
begin

text \<open>
  The UART transmit path and the line discipline of the console: what \<open>uartputc\<close> and
  \<open>uartstart\<close> send, and how \<open>consoleintr\<close> turns keystrokes into lines.
\<close>

section \<open>Sending\<close>

definition as_chars :: "u8 list \<Rightarrow> string" where
  "as_chars = map (\<lambda>b. char_of (unat b))"









section \<open>The console: buffers\<close>

text \<open>
  The input buffer holds the bytes between \<open>r\<close> and \<open>w\<close>, which are complete lines ready for readers,
  and the bytes between \<open>w\<close> and \<open>e\<close>, which are the line being edited.
\<close>

definition cons_ready :: "cons \<Rightarrow> u8 list" where
  "cons_ready c = ring_list INPUT_BUF_SIZE (c_buf c) (c_r c) (c_w c)"

definition cons_line :: "cons \<Rightarrow> u8 list" where
  "cons_line c = ring_list INPUT_BUF_SIZE (c_buf c) (c_w c) (c_e c)"

definition cons_ok :: "cons \<Rightarrow> bool" where
  "cons_ok c \<longleftrightarrow> c_w c - c_r c \<le> c_e c - c_r c \<and> c_e c - c_r c \<le> INPUT_BUF_SIZE \<and> 10 \<notin> set (cons_line c)"

lemma cons_size: "INPUT_BUF_SIZE dvd (2 :: nat) ^ LENGTH(32)" "(INPUT_BUF_SIZE :: nat) < 2 ^ LENGTH(32)"
  using dvd_pow2 [of 7 32] by simp_all

lemma ring_append:
  assumes "n dvd 2 ^ LENGTH('w)" "unat (w - r) \<le> unat (e - r)"
  shows "ring_list n d r e = ring_list n d r w @ ring_list n d w (e :: 'w::len word)"
    "unat (e - w) = unat (e - r) - unat (w - r)"
proof -
  have "w - r \<le> e - r" using assms(2) by (simp add: word_le_nat_alt)
  then have "unat ((e - r) - (w - r)) = unat (e - r) - unat (w - r)" by (rule unat_sub)
  moreover have "(e - r) - (w - r) = e - w" by simp
  ultimately show l: "unat (e - w) = unat (e - r) - unat (w - r)" by simp
  let ?a = "unat (w - r)" and ?b = "unat (e - w)"
  have "unat (e - r) = ?a + ?b" using l assms(2) by simp
  moreover have "r + of_nat ?a = w" by simp
  then have "r + of_nat (?a + i) = w + of_nat i" for i by (simp only: of_nat_add add.assoc [symmetric])
  ultimately have len: "unat (e - r) = ?a + ?b" and sh: "\<And>i. r + of_nat (?a + i) = w + of_nat i" by simp_all
  show "ring_list n d r e = ring_list n d r w @ ring_list n d w e"
  proof (rule nth_equalityI)
    fix i assume i: "i < length (ring_list n d r e)"
    show "ring_list n d r e ! i = (ring_list n d r w @ ring_list n d w e) ! i"
    proof (cases "i < ?a")
      case True
      then show ?thesis using i by (simp add: nth_append) (simp add: ring_list_def)
    next
      case False
      then obtain j where j: "i = ?a + j" using le_Suc_ex not_less by blast
      then show ?thesis using i len sh [of j] by (simp add: nth_append) (simp add: ring_list_def)
    qed
  qed (simp add: len)
qed

lemma ring_butlast:
  assumes "(e :: 'w::len word) \<noteq> w"
  shows "ring_list n d w (e - 1) = butlast (ring_list n d w e)" "last (ring_list n d w e) = d (unat (e - 1) mod n)"
proof -
  have l: "unat (e - w) = Suc (unat (e - 1 - w))"
  proof -
    have eq: "e - 1 - w = (e - w) - 1" by simp
    have "e - w \<noteq> 0" using assms by simp
    then have "unat ((e - w) - 1) = unat (e - w) - 1" "0 < unat (e - w)"
      by (rule unat_minus_one) (simp add: assms unat_gt_0)
    then show ?thesis unfolding eq by simp
  qed
  then show "ring_list n d w (e - 1) = butlast (ring_list n d w e)" by (simp add: ring_list_def)
  have "w + of_nat (unat (e - 1 - w)) = e - 1" by simp
  then show "last (ring_list n d w e) = d (unat (e - 1) mod n)"
    using l by (simp only: ring_list_def upt_Suc) simp
qed


text \<open>The three things an interrupt does to the buffer.\<close>

definition cons_put :: "u8 \<Rightarrow> cons \<Rightarrow> cons" where
  "cons_put c k = k\<lparr>c_buf := (c_buf k)(unat (c_e k mod INPUT_BUF_SIZE) := c), c_e := c_e k + 1\<rparr>"

definition cons_back :: "cons \<Rightarrow> cons" where
  "cons_back k = k\<lparr>c_e := c_e k - 1\<rparr>"

definition cons_commit :: "cons \<Rightarrow> cons" where
  "cons_commit k = k\<lparr>c_w := c_e k\<rparr>"

lemma cons_all:
  assumes "c_w k - c_r k \<le> c_e k - c_r k"
  shows "ring_list INPUT_BUF_SIZE (c_buf k) (c_r k) (c_e k) = cons_ready k @ cons_line k"
    "unat (c_e k - c_r k) = length (cons_ready k) + length (cons_line k)"
proof -
  have le: "unat (c_w k - c_r k) \<le> unat (c_e k - c_r k)" using assms by (simp add: word_le_nat_alt)
  show "ring_list INPUT_BUF_SIZE (c_buf k) (c_r k) (c_e k) = cons_ready k @ cons_line k"
    using ring_append(1) [OF cons_size(1) le] by (simp add: cons_ready_def cons_line_def)
  show "unat (c_e k - c_r k) = length (cons_ready k) + length (cons_line k)"
    using ring_append(2) [OF cons_size(1) le] le by (simp add: cons_ready_def cons_line_def)
qed

lemma cons_room: "cons_ok k \<Longrightarrow> c_e k - c_r k < INPUT_BUF_SIZE \<longleftrightarrow> length (cons_ready k) + length (cons_line k) < INPUT_BUF_SIZE"
  using cons_all(2) [of k] by (simp add: cons_ok_def word_less_nat_alt)

lemma cons_put_view:
  assumes ok: "cons_ok k" and lt: "c_e k - c_r k < INPUT_BUF_SIZE"
  shows "cons_ready (cons_put c k) = cons_ready k" "cons_line (cons_put c k) = cons_line k @ [c]"
    "c_w k - c_r k \<le> c_e (cons_put c k) - c_r k" "c_e (cons_put c k) - c_r k \<le> INPUT_BUF_SIZE"
proof -
  have w: "c_w k - c_r k \<le> c_e k - c_r k" using ok by (simp add: cons_ok_def)
  have l: "unat (c_e k - c_r k) < 128" using lt by (simp add: word_less_nat_alt)
  have e: "unat (c_e (cons_put c k) - c_r k) = Suc (unat (c_e k - c_r k))"
    using ring_not_full [OF l cons_size(2)] by (simp add: cons_put_def)
  show w': "c_w k - c_r k \<le> c_e (cons_put c k) - c_r k" "c_e (cons_put c k) - c_r k \<le> INPUT_BUF_SIZE"
    using w l e by (simp_all add: word_le_nat_alt)
  let ?p = "cons_put c k"
  have f: "c_r ?p = c_r k" "c_w ?p = c_w k" by (simp_all add: cons_put_def)
  have "cons_ready ?p @ cons_line ?p = ring_list INPUT_BUF_SIZE (c_buf ?p) (c_r k) (c_e ?p)"
    using cons_all(1) [of ?p] w'(1) by (simp add: f)
  also have "\<dots> = (cons_ready k @ cons_line k) @ [c]"
    using ring_enq [OF cons_size l, of "c_buf k" c] cons_all(1) [OF w] by (simp add: cons_put_def unat_mod)
  finally have "cons_ready ?p @ cons_line ?p = cons_ready k @ cons_line k @ [c]" by simp
  moreover have "length (cons_ready ?p) = length (cons_ready k)" by (simp add: cons_ready_def f)
  ultimately show "cons_ready ?p = cons_ready k" "cons_line ?p = cons_line k @ [c]" by simp_all
qed

lemma cons_back_view:
  assumes ok: "cons_ok k" and ne: "c_e k \<noteq> c_w k"
  shows "cons_ready (cons_back k) = cons_ready k" "cons_line (cons_back k) = butlast (cons_line k)" "cons_ok (cons_back k)"
proof -
  show r: "cons_ready (cons_back k) = cons_ready k" by (simp add: cons_ready_def cons_back_def)
  show l: "cons_line (cons_back k) = butlast (cons_line k)"
    using ring_butlast(1) [OF ne] by (simp add: cons_line_def cons_back_def)
  have w: "c_w k - c_r k \<le> c_e k - c_r k" using ok by (simp add: cons_ok_def)
  have "c_e k - c_r k \<noteq> c_w k - c_r k" using ne by simp
  with w have lt: "unat (c_w k - c_r k) < unat (c_e k - c_r k)" by (simp add: word_less_nat_alt [symmetric] le_neq_trans)
  have eq: "c_e k - 1 - c_r k = (c_e k - c_r k) - 1" by simp
  have "c_e k - c_r k \<noteq> 0" using lt by auto
  then have "unat (c_e k - 1 - c_r k) = unat (c_e k - c_r k) - 1" unfolding eq by (rule unat_minus_one)
  moreover have "unat (c_e k - c_r k) \<le> 128" using ok by (simp add: cons_ok_def word_le_nat_alt)
  ultimately have "c_w k - c_r k \<le> c_e k - 1 - c_r k" "c_e k - 1 - c_r k \<le> INPUT_BUF_SIZE"
    using lt by (simp_all add: word_le_nat_alt)
  moreover have "10 \<notin> set (butlast (cons_line k))" using ok by (auto simp: cons_ok_def dest: in_set_butlastD)
  ultimately show "cons_ok (cons_back k)" unfolding cons_ok_def l by (simp add: cons_back_def)
qed

lemma cons_commit_view:
  assumes "c_w k - c_r k \<le> c_e k - c_r k" "c_e k - c_r k \<le> INPUT_BUF_SIZE"
  shows "cons_ready (cons_commit k) = cons_ready k @ cons_line k" "cons_line (cons_commit k) = []" "cons_ok (cons_commit k)"
proof -
  show "cons_ready (cons_commit k) = cons_ready k @ cons_line k"
    using cons_all(1) [OF assms(1)] by (simp add: cons_ready_def cons_commit_def)
  show l: "cons_line (cons_commit k) = []" by (simp add: cons_line_def cons_commit_def ring_list_def)
  show "cons_ok (cons_commit k)" unfolding cons_ok_def l using assms by (simp add: cons_commit_def)
qed


section \<open>The console: echoing\<close>

lemma uartputc_sync_eq:
  assumes "nested s"
  shows "uartputc_sync c s = Ok () (s\<lparr>kout := kout s @ [char_of (unat c)]\<rparr>)"
proof -
  have n: "\<not> sie (csr s (hart s))" "0 < noff (cpus s (hart s))" using assms by (simp_all add: nested_def)
  have "(cpus s (hart s))\<lparr>noff := noff (cpus s (hart s))\<rparr> = cpus s (hart s)" by simp
  then show ?thesis
    using n by (simp add: uartputc_sync_def seq_def bnd_def push_off_eq write_THR_def pop_off_eq push_cpu_def off_csr_noop)
qed

definition echo :: "u8 option \<Rightarrow> u8 list" where
  "echo c = (case c of None \<Rightarrow> [8, 32, 8] | Some c \<Rightarrow> [c])"

lemma consputc_eq:
  assumes "nested s"
  shows "consputc c s = Ok () (s\<lparr>kout := kout s @ as_chars (echo c)\<rparr>)"
proof -
  have "nested (s\<lparr>kout := k\<rparr>)" for k using assms by (simp add: nested_def)
  then show ?thesis
    using assms by (cases c) (simp_all add: consputc_def echo_def as_chars_def seq_def bnd_def uartputc_sync_eq)
qed

lemma cons_last:
  assumes "cons_ok k" "c_e k \<noteq> c_w k"
  shows "cbuf k (c_e k - 1) \<noteq> 10" "cons_line k \<noteq> []"
proof -
  show l: "cons_line k \<noteq> []"
    using assms(2) by (auto simp: cons_line_def ring_list_def unat_eq_zero)
  have "cbuf k (c_e k - 1) = last (cons_line k)"
    using ring_butlast(2) [OF assms(2), of INPUT_BUF_SIZE "c_buf k"] by (simp add: cbuf_def cons_line_def unat_mod)
  then show "cbuf k (c_e k - 1) \<noteq> 10" using assms(1) last_in_set [OF l] by (auto simp: cons_ok_def)
qed

text \<open>\<open>t\<close> is \<open>s\<close> but for the console buffer, which now shows \<open>q\<close> and \<open>l\<close>, and for what was echoed.\<close>

definition edited :: "u8 list \<Rightarrow> u8 list \<Rightarrow> 'x uart_st_scheme \<Rightarrow> 'x uart_st_scheme \<Rightarrow> bool" where
  "edited q l s t \<longleftrightarrow> cons_ok (kcons t) \<and> cons_ready (kcons t) = q \<and> cons_line (kcons t) = l \<and>
     t\<lparr>kcons := kcons s, kout := kout s\<rparr> = s"

lemma edited_mach:
  assumes "edited q l s t"
  shows "hart t = hart s" "cpus t = cpus s" "csr t = csr s" "locks t = locks s" "procs t = procs s"
proof -
  have e: "t\<lparr>kcons := kcons s, kout := kout s\<rparr> = s" using assms by (simp add: edited_def)
  show "hart t = hart s" using arg_cong [OF e, of hart] by simp
  show "cpus t = cpus s" using arg_cong [OF e, of cpus] by simp
  show "csr t = csr s" using arg_cong [OF e, of csr] by simp
  show "locks t = locks s" using arg_cong [OF e, of locks] by simp
  show "procs t = procs s" using arg_cong [OF e, of procs] by simp
qed

lemma edited_nested: "edited q l s t \<Longrightarrow> nested s \<Longrightarrow> nested t"
  using edited_mach [of q l s t] by (simp add: nested_def)

lemma wp_kill_line:
  assumes n: "nested s" and ok: "cons_ok (kcons s)"
  shows "wp kill_line (\<lambda>_. edited (cons_ready (kcons s)) [] s) s"
  unfolding kill_line_def
proof (rule wp_kiter_st [where I = "\<lambda>_ t. \<exists>l. edited (cons_ready (kcons s)) l s t" and
      \<mu> = "\<lambda>_ t. length (cons_line (kcons t))"])
  show "\<exists>l. edited (cons_ready (kcons s)) l s s" using ok by (simp add: edited_def)
  have "length (cons_line (kcons s)) \<le> 128"
    using cons_all(2) [of "kcons s"] ok by (simp add: cons_ok_def word_le_nat_alt)
  then show "length (cons_line (kcons s)) < INPUT_BUF_SIZE + 1" by simp
next
  fix x :: unit and t assume "\<exists>l. edited (cons_ready (kcons s)) l s t"
  then obtain l where e: "edited (cons_ready (kcons s)) l s t" by blast
  let ?k = "kcons t"
  have ok: "cons_ok ?k" and r: "cons_ready ?k = cons_ready (kcons s)" using e by (simp_all add: edited_def)
  have nt: "nested (t\<lparr>kcons := a\<rparr>)" for a using edited_nested [OF e n] by (simp add: nested_def)
  show "wp (bnd (gets kcons) (\<lambda>c.
       if \<not> (c_e c \<noteq> c_w c \<and> cbuf c (c_e c - 1) \<noteq> 10) then ret (Inr ())
       else seq (upd_cons (\<lambda>c. c\<lparr>c_e := c_e c - 1\<rparr>)) (seq (consputc None) (ret (Inl ())))))
     (\<lambda>r s'. case r of Inl x' \<Rightarrow> (\<exists>l. edited (cons_ready (kcons s)) l s s') \<and>
        length (cons_line (kcons s')) < length (cons_line (kcons t)) | Inr a \<Rightarrow> edited (cons_ready (kcons s)) [] s s') t"
  proof (cases "c_e ?k = c_w ?k")
    case True
    then have "cons_line ?k = []" by (simp add: cons_line_def ring_list_def)
    with e True show ?thesis by (auto simp: wp_simps edited_def)
  next
    case False
    note b = cons_back_view [OF ok False] and la = cons_last [OF ok False]
    let ?t = "t\<lparr>kcons := cons_back ?k, kout := kout t @ as_chars (echo None)\<rparr>"
    have "consputc None (t\<lparr>kcons := cons_back ?k\<rparr>) = Ok () ?t" using consputc_eq [OF nt] by simp
    moreover have "edited (cons_ready (kcons s)) (butlast (cons_line ?k)) s ?t"
      using e b r by (simp add: edited_def)
    ultimately show ?thesis
      using False la b
      by (auto simp: wp_def bnd_def seq_def upd_cons_def cons_back_def [symmetric])
  qed
qed


lemma printf_nested:
  assumes "nested s" "pr_locking s \<Longrightarrow> unlocked L_pr s" "printf_out fmt ap = Some out"
  shows "printf fmt ap s = Ok () (s\<lparr>kout := kout s @ out\<rparr>)"
proof (cases "pr_locking s")
  case True
  note u = assms(2) [OF True] and c = nested_cpu_ok [OF assms(1)]
  have "acq L_pr s\<lparr>kout := k, cpus := cpus s, csr := csr s, locks := locks s\<rparr> = s\<lparr>kout := k\<rparr>" for k
    by (simp add: acq_def)
  then have "release L_pr (acq L_pr s\<lparr>kout := k\<rparr>) = Ok () (s\<lparr>kout := k\<rparr>)" for k
    using release_acq [OF u c, of "acq L_pr s\<lparr>kout := k\<rparr>"] nested_cs_cpus [OF assms(1)] by simp
  moreover have "kout (acq L_pr s) = kout s" by (simp add: acq_def)
  ultimately show ?thesis
    using True by (simp add: printf_def seq_def bnd_def acquire_unlocked [OF u] assms(3))
next
  case False
  then show ?thesis by (simp add: printf_def seq_def bnd_def assms(3))
qed

lemma wp_procdump:
  assumes "nested s" "pr_locking s \<Longrightarrow> unlocked L_pr s"
  shows "wp procdump (\<lambda>_ t. \<exists>k. t = s\<lparr>kout := k\<rparr>) s"
proof -
  define R where "R t \<longleftrightarrow> (\<exists>k. t = s\<lparr>kout := k\<rparr>)" for t
  have pf: "wp (printf fmt ap) (\<lambda>_. R) t" if "R t" "printf_out fmt ap = Some out" for fmt ap out t
  proof -
    from that(1) obtain k where t: "t = s\<lparr>kout := k\<rparr>" by (auto simp: R_def)
    have "nested t" "pr_locking t \<Longrightarrow> unlocked L_pr t" using assms by (simp_all add: t nested_def unlocked_def)
    from printf_nested [OF this that(2)] show ?thesis by (auto simp: wp_def R_def t)
  qed
  have nl: "R t \<Longrightarrow> wp (printf newline []) (\<lambda>_. R) t" for t by (rule pf) simp_all
  have fm: "R t \<Longrightarrow> wp (printf ''%d %s %s'' [A_int a, A_str (Some b), A_str (Some c)]) (\<lambda>_. R) t" for t a b c
    by (rule pf) (simp_all add: addout_def)
  have two: "R t \<Longrightarrow> wp (stmts [printf ''%d %s %s'' [A_int a, A_str (Some b), A_str (Some c)], printf newline []]) (\<lambda>_. R) t"
    for t a b c
    by (intro wp_stmts_Cons [OF fm] wp_stmts_Cons [OF nl] wp_stmts_Nil)
  have lp: "R t \<Longrightarrow> wp (kfor [0..<NPROC] (\<lambda>p. bnd (get_proc p) (\<lambda>q. kwhen (p_state q \<noteq> UNUSED)
          (stmts
            [printf ''%d %s %s'' [A_int (p_pid q), A_str (Some (state_name (p_state q))),
               A_str (Some (name_string (p_name q)))],
             printf newline []])))) (\<lambda>_. R) t" for t
    by (rule wp_kfor [where I = "\<lambda>_. R"]) (simp_all only: wp_bnd get_proc_def wp_gets wp_kwhen two if_True split: if_split, simp)
  have "R s" by (auto simp: R_def intro: exI [of _ "kout s"])
  then have "wp procdump (\<lambda>_. R) s"
    unfolding procdump_def by (intro wp_stmts_Cons [OF nl] wp_stmts_Cons [OF lp] wp_stmts_Nil)
  then show ?thesis by (simp add: R_def [abs_def])
qed


section \<open>The line discipline\<close>

text \<open>
  What a keystroke means: \<open>q\<close> is the input ready for readers and \<open>l\<close> the line being edited.
  Control-U kills the line, backspace and delete remove its last byte, a newline, a
  control-D or a full buffer completes it, and a byte that does not fit is dropped.
\<close>

definition keystroke :: "u8 \<Rightarrow> u8 list \<times> u8 list \<Rightarrow> u8 list \<times> u8 list" where
  "keystroke c = (\<lambda>(q, l).
     if c = 16 then (q, l)
     else if c = 21 then (q, [])
     else if c = 8 \<or> c = 127 then (q, butlast l)
     else if c = 0 \<or> length q + length l \<ge> INPUT_BUF_SIZE then (q, l)
     else let c = (if c = 13 then 10 else c) in
       if c = 10 \<or> c = 4 \<or> Suc (length q + length l) = INPUT_BUF_SIZE then (q @ l @ [c], [])
       else (q, l @ [c]))"

abbreviation cons_view :: "'x uart_st_scheme \<Rightarrow> u8 list \<times> u8 list" where
  "cons_view s \<equiv> (cons_ready (kcons s), cons_line (kcons s))"

text \<open>\<open>t\<close> follows from \<open>s\<close> by a keystroke that gives the view \<open>v\<close>; completed input wakes the readers.\<close>

definition keyed :: "u8 list \<times> u8 list \<Rightarrow> 'x uart_st_scheme \<Rightarrow> 'x uart_st_scheme \<Rightarrow> bool" where
  "keyed v s t \<longleftrightarrow> cons_ok (kcons t) \<and> cons_view t = v \<and>
     hart t = hart s \<and> cpus t = cpus s \<and> csr t = csr s \<and> locks t = locks s \<and>
     procs t = (if fst v = cons_ready (kcons s) then procs s
       else woken (c_proc (cpus s (hart s))) (Some Ch_cons_r) {..<NPROC} (procs s))"

lemma edited_keyed: "edited (cons_ready (kcons s)) l s t \<Longrightarrow> keyed (cons_ready (kcons s), l) s t"
  using edited_mach [of "cons_ready (kcons s)" l s t] by (simp add: keyed_def edited_def)

lemma wp_console_char:
  assumes n: "nested s" "procs_unlocked s" and ok: "cons_ok (kcons s)" and lt: "c_e (kcons s) - c_r (kcons s) < INPUT_BUF_SIZE"
  shows "wp (console_char c) (\<lambda>_. keyed
    (if c = 10 \<or> c = 4 \<or> Suc (length (cons_ready (kcons s)) + length (cons_line (kcons s))) = INPUT_BUF_SIZE
     then (cons_ready (kcons s) @ cons_line (kcons s) @ [c], []) else (cons_ready (kcons s), cons_line (kcons s) @ [c])) s) s"
proof -
  let ?k = "kcons s"
  let ?p = "cons_put c ?k"
  note pv = cons_put_view [OF ok lt, of c]
  have f: "c_r ?p = c_r ?k" "c_w ?p = c_w ?k" by (simp_all add: cons_put_def)
  have full: "c_e ?p - c_r ?k = INPUT_BUF_SIZE \<longleftrightarrow> Suc (length (cons_ready ?k) + length (cons_line ?k)) = INPUT_BUF_SIZE"
  proof -
    have "unat (c_e ?p - c_r ?k) = length (cons_ready ?p) + length (cons_line ?p)"
      using cons_all(2) [of ?p] pv(3) by (simp add: f)
    then show ?thesis unfolding pv(1,2) by (simp add: word_unat_eq_iff)
  qed
  let ?s = "s\<lparr>kout := kout s @ as_chars (echo (Some c)), kcons := ?p\<rparr>"
  have pc: "consputc (Some c) s = Ok () (s\<lparr>kout := kout s @ as_chars (echo (Some c))\<rparr>)" by (rule consputc_eq [OF n(1)])
  show ?thesis
  proof (cases "c = 10 \<or> c = 4 \<or> c_e ?p - c_r ?k = INPUT_BUF_SIZE")
    case True
    let ?u = "?s\<lparr>kcons := cons_commit ?p\<rparr>"
    have nu: "nested ?u" "procs_unlocked ?u" using n by (simp_all add: nested_def procs_unlocked_def unlocked_def)
    let ?me = "c_proc (cpus s (hart s))"
    have w: "wakeup Ch_cons_r ?u = Ok () (?u\<lparr>procs := woken ?me (Some Ch_cons_r) {..<NPROC} (procs s)\<rparr>)"
      using wakeup_nested [OF nu(1)] nu(2) by (simp add: procs_unlocked_def)
    note cv = cons_commit_view [of ?p, unfolded f, OF pv(3,4)]
    have "console_char c s = Ok () (?u\<lparr>procs := woken ?me (Some Ch_cons_r) {..<NPROC} (procs s)\<rparr>)"
      using True w pc
      by (simp add: console_char_def seq_def bnd_def upd_cons_def cons_put_def [symmetric] f)
        (simp add: cons_commit_def)
    then show ?thesis
      using True full cv pv(1,2) by (simp add: wp_def keyed_def)
  next
    case False
    have "console_char c s = Ok () ?s"
      using False pc
      by (simp add: console_char_def seq_def bnd_def upd_cons_def cons_put_def [symmetric] f)
    moreover have "cons_ok ?p" using pv(3,4) False ok unfolding cons_ok_def pv(2) by (simp add: f)
    ultimately show ?thesis using False full pv(1,2) by (simp add: wp_def keyed_def)
  qed
qed


lemma wp_console_key:
  assumes n: "nested s" "procs_unlocked s" "pr_locking s \<Longrightarrow> unlocked L_pr s" and ok: "cons_ok (kcons s)"
  shows "wp (console_key c) (\<lambda>_. keyed (keystroke c (cons_view s)) s) s"
proof -
  let ?k = "kcons s"
  consider (dump) "c = 16" | (kill) "c = 21" | (del) "c = 8 \<or> c = 127" "c \<noteq> 16" "c \<noteq> 21"
    | (char) "c \<noteq> 16" "c \<noteq> 21" "c \<noteq> 8" "c \<noteq> 127" by blast
  then show ?thesis
  proof cases
    case dump
    have "keyed (cons_view s) s (s\<lparr>kout := k\<rparr>)" for k using ok by (simp add: keyed_def)
    then show ?thesis
      using wp_procdump [OF n(1) n(3)] by (auto simp: console_key_def keystroke_def dump elim: wp_mono)
  next
    case kill
    then show ?thesis
      using wp_kill_line [OF n(1) ok] by (auto simp: console_key_def keystroke_def elim!: wp_mono intro: edited_keyed)
  next
    case del
    have ks: "keystroke c (cons_view s) = (cons_ready ?k, butlast (cons_line ?k))"
      using del by (auto simp: keystroke_def)
    have ck: "console_key c = bnd (gets kcons) (\<lambda>k. kwhen (c_e k \<noteq> c_w k)
          (stmts [upd_cons (\<lambda>k. k\<lparr>c_e := c_e k - 1\<rparr>), consputc None]))"
      using del by (auto simp: console_key_def)
    show ?thesis
    proof (cases "c_e ?k = c_w ?k")
      case True
      then have "cons_line ?k = []" by (simp add: cons_line_def ring_list_def)
      with True ok show ?thesis unfolding ck ks by (simp add: wp_simps keyed_def)
    next
      case False
      note b = cons_back_view [OF ok False]
      have nt: "nested (s\<lparr>kcons := a\<rparr>)" for a using n(1) by (simp add: nested_def)
      have "console_key c s = Ok () (s\<lparr>kcons := cons_back ?k, kout := kout s @ as_chars (echo None)\<rparr>)"
        using False consputc_eq [OF nt] by (simp add: ck bnd_def seq_def upd_cons_def cons_back_def)
      then show ?thesis unfolding ks using b by (simp add: wp_def keyed_def)
    qed
  next
    case char
    have len: "unat (c_e ?k - c_r ?k) = length (cons_ready ?k) + length (cons_line ?k)"
      using cons_all(2) [of ?k] ok by (simp add: cons_ok_def)
    then have lt: "c_e ?k - c_r ?k < INPUT_BUF_SIZE \<longleftrightarrow> length (cons_ready ?k) + length (cons_line ?k) < INPUT_BUF_SIZE"
      by (simp add: word_less_nat_alt)
    show ?thesis
    proof (cases "c = 0 \<or> \<not> c_e ?k - c_r ?k < INPUT_BUF_SIZE")
      case True
      then have "keystroke c (cons_view s) = cons_view s" using char lt by (auto simp: keystroke_def)
      with True char ok show ?thesis by (auto simp: console_key_def wp_simps keyed_def)
    next
      case False
      let ?c = "if c = 13 then 10 else c"
      have "keystroke c (cons_view s) =
          (if ?c = 10 \<or> ?c = 4 \<or> Suc (length (cons_ready ?k) + length (cons_line ?k)) = INPUT_BUF_SIZE
           then (cons_ready ?k @ cons_line ?k @ [?c], []) else (cons_ready ?k, cons_line ?k @ [?c]))"
        using char lt False by (simp add: keystroke_def Let_def)
      then show ?thesis
        using char False wp_console_char [OF n(1,2) ok, of ?c] by (simp add: console_key_def wp_simps)
    qed
  qed
qed


text \<open>
  C13. The console interrupt handler is the line editor: on the bytes ready for readers and the
  line being edited \<open>consoleintr\<close> has exactly the effect of \<open>keystroke\<close>. It never overruns
  the buffer, it wakes the sleeping readers exactly when the keystroke completes
  input, and it leaves the lock of the console, the interrupt state and all other processes as they were.
\<close>

theorem consoleintr_line:
  assumes "cpu_ok s" "procs_unlocked s" "unlocked L_cons s" "pr_locking s \<longrightarrow> unlocked L_pr s" "cons_ok (kcons s)"
  shows "\<exists>t. consoleintr c s = Ok () t \<and> cons_ok (kcons t) \<and> cons_view t = keystroke c (cons_view s) \<and>
     length (cons_ready (kcons t)) + length (cons_line (kcons t)) \<le> INPUT_BUF_SIZE \<and>
     locks t = locks s \<and> csr t = csr s \<and> cpus t = cs_cpus s \<and>
     procs t = (if cons_ready (kcons t) = cons_ready (kcons s) then procs s
       else woken (c_proc (cpus s (hart s))) (Some Ch_cons_r) {..<NPROC} (procs s))"
proof -
  let ?a = "acq L_cons s"
  have sel: "kcons ?a = kcons s" "pr_locking ?a = pr_locking s" "procs ?a = procs s" "hart ?a = hart s"
    "c_proc (cpus ?a h) = c_proc (cpus s h)" for h
    by (simp_all add: acq_def push_cpu_def)
  have "procs_unlocked ?a" "pr_locking ?a \<Longrightarrow> unlocked L_pr ?a"
    using assms(2,4) by (simp_all add: sel procs_unlocked_def unlocked_acq)
  from wp_console_key [OF nested_acq [OF assms(1)] this, of c] assms(5) obtain u where
    u: "console_key c ?a = Ok () u" "keyed (keystroke c (cons_view ?a)) ?a u"
    by (auto simp: sel elim: wpE)
  then have k: "hart u = hart s" "cpus u = cpus ?a" "csr u = csr ?a" "locks u = locks ?a"
    by (simp_all add: keyed_def sel)
  let ?t = "u\<lparr>cpus := cs_cpus s, csr := csr s, locks := locks s\<rparr>"
  have "consoleintr c s = Ok () ?t"
    using release_acq [OF assms(3,1) k]
    by (simp add: consoleintr_def seq_def bnd_def acquire_unlocked [OF assms(3)] u(1))
  moreover have v: "cons_ok (kcons u)" "cons_view u = keystroke c (cons_view s)"
    "procs u = (if cons_ready (kcons u) = cons_ready (kcons s) then procs s
       else woken (c_proc (cpus s (hart s))) (Some Ch_cons_r) {..<NPROC} (procs s))"
    using u(2) by (auto simp: keyed_def sel dest: arg_cong [of _ _ fst])
  moreover have "length (cons_ready (kcons u)) + length (cons_line (kcons u)) \<le> INPUT_BUF_SIZE"
    using cons_all(2) [of "kcons u"] v(1) by (simp add: cons_ok_def word_le_nat_alt)
  ultimately show ?thesis by (intro exI [of _ ?t]) simp
qed

theorem consoleintr_line_witness:
  "\<exists>t. consoleintr 13 (pipe_sys loop_mem 0x1000 pipe0) = Ok () t \<and> cons_view t = ([10], [])"
proof -
  let ?s = "pipe_sys loop_mem 0x1000 pipe0"
  have "cpu_ok ?s" "procs_unlocked ?s" "unlocked L_cons ?s" "pr_locking ?s \<longrightarrow> unlocked L_pr ?s" "cons_ok (kcons ?s)"
    and v: "cons_view ?s = ([], [])"
    by (simp_all add: pipe_sys_def proc_sys_def proc_st.defs cpu_ok_def procs_unlocked_def unlocked_def
        cons_ok_def cons_ready_def cons_line_def ring_list_def)
  from consoleintr_line [OF this(1-5), of 13] show ?thesis unfolding v by (auto simp: keystroke_def)
qed

end
