(* ===== verification/Numerals.thy ===== *)
theory Numerals
  imports Prelude
begin

text \<open>
  Positional notation: \<open>numerals b n\<close> are the digits of \<open>n\<close> in base \<open>b\<close>, least significant
  first. It is the reference for the two \<open>printint\<close> routines.
\<close>

function numerals :: "nat \<Rightarrow> nat \<Rightarrow> nat list" where
  "numerals b n = n mod b # (if n div b \<noteq> 0 \<and> 2 \<le> b then numerals b (n div b) else [])"
  by auto
termination
proof (relation "measure snd")
  fix b n :: nat assume "n div b \<noteq> 0 \<and> 2 \<le> b"
  moreover from this have "n \<noteq> 0" by (cases n) auto
  ultimately show "((b, n div b), (b, n)) \<in> measure snd" by (simp add: div_less_dividend)
qed simp

declare numerals.simps [simp del]

definition digits_value :: "nat \<Rightarrow> nat list \<Rightarrow> nat" where
  "digits_value b ds = foldr (\<lambda>d v. d + b * v) ds 0"

lemma digits_value_simps [simp]:
  "digits_value b [] = 0" "digits_value b (d # ds) = d + b * digits_value b ds"
  by (simp_all add: digits_value_def)

lemma numerals_value: "2 \<le> b \<Longrightarrow> digits_value b (numerals b n) = n"
  by (induction b n rule: numerals.induct) (subst numerals.simps, auto simp: div_eq_0_iff)

lemma numerals_less: "2 \<le> b \<Longrightarrow> d \<in> set (numerals b n) \<Longrightarrow> d < b"
  by (induction b n rule: numerals.induct) (subst (asm) (2) numerals.simps, auto split: if_splits)

lemma numerals_length: "2 \<le> b \<Longrightarrow> n < b ^ k \<Longrightarrow> 0 < k \<Longrightarrow> length (numerals b n) \<le> k"
proof (induction b n arbitrary: k rule: numerals.induct)
  case (1 b n)
  show ?case
  proof (cases "n div b = 0")
    case True
    then show ?thesis using 1(4) by (subst numerals.simps) simp
  next
    case False
    then have k: "1 < k" using 1(3,4) by (cases "k = 1") auto
    have "n div b < b ^ (k - 1)"
      using 1(2,3) k by (simp add: div_less_iff_less_mult mult.commute power_eq_if split: if_splits)
    with False k 1(2) have "length (numerals b (n div b)) \<le> k - 1" by (intro 1(1)) simp_all
    with False k 1(2) show ?thesis by (subst numerals.simps) simp
  qed
qed

text \<open>Only zero has a leading zero.\<close>

lemma numerals_last: "2 \<le> b \<Longrightarrow> n \<noteq> 0 \<Longrightarrow> last (numerals b n) \<noteq> 0"
proof (induction b n rule: numerals.induct)
  case (1 b n)
  have ne: "numerals b (n div b) \<noteq> []" by (subst numerals.simps) simp
  show ?case
  proof (cases "n div b = 0")
    case True
    then show ?thesis using 1(2,3) by (subst numerals.simps) (auto simp: div_eq_0_iff)
  next
    case False
    with 1 ne show ?thesis by (subst numerals.simps) simp
  qed
qed

text \<open>A loop that divides a machine word until it is zero produces the digits.\<close>

fun word_digits :: "nat \<Rightarrow> 'w::len word \<Rightarrow> 'w word \<Rightarrow> 'w word list" where
  "word_digits 0 base x = []"
| "word_digits (Suc n) base x = x mod base # (if x div base \<noteq> 0 then word_digits n base (x div base) else [])"

lemma word_digits_eq:
  assumes "2 \<le> unat base" "unat x < unat base ^ k" "0 < k"
  shows "map unat (word_digits k base x) = numerals (unat base) (unat x)"
  using assms(2,3)
proof (induction k arbitrary: x)
  case (Suc k)
  have z: "x div base = 0 \<longleftrightarrow> unat x div unat base = 0" by (simp add: word_unat_eq_iff unat_div_distrib)
  show ?case
  proof (cases "x div base = 0")
    case True
    then show ?thesis using z by (subst numerals.simps) (simp add: unat_mod_distrib)
  next
    case False
    have "unat (x div base) < unat base ^ k"
      using Suc.prems(1) assms(1) by (simp add: unat_div_distrib div_less_iff_less_mult mult.commute)
    moreover from this False have "0 < k" by (cases k) (simp_all add: word_unat_eq_iff)
    ultimately show ?thesis
      using Suc.IH [of "x div base"] False z assms(1)
      by (subst numerals.simps) (simp add: unat_mod_distrib unat_div_distrib)
  qed
qed simp

end
