(* ===== verification/Printfops.thy ===== *)
theory Printfops
  imports Printf Numerals
begin

text \<open>What the kernel's \<open>printint\<close> and \<open>printptr\<close> print: the digits of the number.\<close>

lemma kprintint_digits: "printint_digits n base x = map (\<lambda>d. digits ! unat d) (word_digits n base x)"
  by (induction n base x rule: printint_digits.induct) simp_all

lemma kprintint_numerals:
  assumes "2 \<le> unat base"
  shows "printint_digits 32 base x = map (\<lambda>d. digits ! d) (numerals (unat base) (unat x))"
proof -
  have "unat x < 2 ^ 32" using unsigned_less [of x, where 'a = nat] by simp
  also have "\<dots> \<le> unat base ^ 32" by (rule power_mono [OF assms]) simp
  finally have "map unat (word_digits 32 base x) = numerals (unat base) (unat x)"
    by (intro word_digits_eq [OF assms]) simp_all
  then have "map ((!) digits) (map unat (word_digits 32 base x)) = map ((!) digits) (numerals (unat base) (unat x))"
    by simp
  then show ?thesis by (simp add: kprintint_digits comp_def)
qed

lemma unat_abs: "unat (if sint xx < 0 then - xx else xx) = nat \<bar>sint (xx :: i32)\<bar>"
proof -
  have u: "uint xx = sint xx mod 2 ^ 32" by (simp add: uint_sint take_bit_eq_mod)
  have b: "- (2 ^ 31) \<le> sint xx" "sint xx < 2 ^ 31"
    using sint_greater_eq [of xx] sint_less [of xx] by simp_all
  show ?thesis
  proof (cases "sint xx < 0")
    case True
    have "uint (- xx) = - uint xx mod 2 ^ 32" by (simp add: uint_word_ariths)
    also have "\<dots> = - sint xx mod 2 ^ 32" unfolding u by (rule mod_minus_eq)
    also have "\<dots> = - sint xx" using True b by (intro mod_pos_pos_trivial) simp_all
    finally have "uint (- xx) = - sint xx" .
    then show ?thesis using True by (simp flip: nat_uint_eq)
  next
    case False
    then have "uint xx = sint xx" unfolding u using b by (intro mod_pos_pos_trivial) simp_all
    then show ?thesis using False by (simp flip: nat_uint_eq)
  qed
qed

text \<open>
  C16. What the kernel prints for \<open>%d\<close> and \<open>%x\<close> is the number: an optional minus sign and the
  digits of the absolute value in base 10 or 16, most significant first and without leading zeros,
  also for the smallest \<^verbatim>\<open>int\<close>; they fit in the 16-byte buffer.
\<close>

theorem kprintint_exact:
  assumes "base = 10 \<or> base = 16"
  shows "\<exists>ds. printint xx base True = (if sint xx < 0 then ''-'' else []) @ map (\<lambda>d. digits ! d) (rev ds) \<and>
     (\<forall>d \<in> set ds. d < unat base) \<and> digits_value (unat base) ds = nat \<bar>sint xx\<bar> \<and>
     (last ds = 0 \<longrightarrow> sint xx = 0) \<and> length (printint xx base True) < 16"
proof (intro exI conjI)
  let ?x = "if sint xx < 0 then - xx else xx"
  let ?ds = "numerals (unat base) (unat ?x)"
  have b: "2 \<le> unat base" using assms by auto
  show p: "printint xx base True = (if sint xx < 0 then ''-'' else []) @ map (\<lambda>d. digits ! d) (rev ?ds)"
    by (simp add: printint_def Let_def kprintint_numerals [OF b] rev_map)
  show "\<forall>d \<in> set ?ds. d < unat base" using numerals_less [OF b] by blast
  show "digits_value (unat base) ?ds = nat \<bar>sint xx\<bar>" unfolding unat_abs [symmetric] by (rule numerals_value [OF b])
  show "last ?ds = 0 \<longrightarrow> sint xx = 0" using numerals_last [OF b, of "unat ?x"] unfolding unat_abs by fastforce
  have "unat ?x < 2 ^ 32" using unsigned_less [of ?x, where 'a = nat] by simp
  then have "length ?ds \<le> 10" using assms by (intro numerals_length [OF b]) auto
  then show "length (printint xx base True) < 16" unfolding p by (cases "sint xx < 0") simp_all
qed

theorem kprintint_exact_witness: "\<exists>ds. printint 0x80000000 10 True = ''-'' @ map (\<lambda>d. digits ! d) (rev ds) \<and>
    digits_value 10 ds = 2147483648"
  using kprintint_exact [of 10 "0x80000000"] by auto

end
