(* ===== verification/Usys.thy ===== *)
theory Usys
  imports Prelude
begin

text \<open>
  The interface between user programs and the kernel: the system calls of
  \<^verbatim>\<open>user/user.h\<close>, whose stubs \<^verbatim>\<open>user/usys.pl\<close> generates. A user program is a tree of the system
  calls it makes: at each call it continues with what the kernel answers, so the
  two sides of a \<open>fork\<close> are the subtrees for the two answers. \<open>urun\<close> runs a program against a
  kernel given as a function from its state and a call to an answer; \<open>ufds\<close> is such a
  kernel for programs that read and write streams.
\<close>

named_theorems urun_simps "running user programs"

section \<open>System calls\<close>

text \<open>Pointer arguments are the data they point to; \<open>Sys_read\<close> carries the size of the buffer given.\<close>

datatype sysc =
    Sys_fork
  | Sys_wait
  | Sys_pipe
  | Sys_write int string
  | Sys_read int int
  | Sys_close int
  | Sys_kill int
  | Sys_exec string "string list"
  | Sys_open string i32
  | Sys_mknod string i16 i16
  | Sys_unlink string
  | Sys_fstat int
  | Sys_link string string
  | Sys_mkdir string
  | Sys_chdir string
  | Sys_dup int
  | Sys_getpid
  | Sys_sbrk i32
  | Sys_sleep i32
  | Sys_uptime
  | Sys_trace i32

text \<open>The answer of the kernel: the result register, and the bytes stored through the pointer argument.\<close>

datatype answer = Ans (a_ret: u64) (a_mem: string)

datatype 'a uop =
    URet 'a
  | UCall sysc "answer \<Rightarrow> 'a uop"
  | UExit int
  | UFuel
  | UBad

section \<open>Sequencing\<close>

primrec ubnd :: "'a uop \<Rightarrow> ('a \<Rightarrow> 'b uop) \<Rightarrow> 'b uop" where
  "ubnd (URet a) f = f a"
| "ubnd (UCall c k) f = UCall c (\<lambda>r. ubnd (k r) f)"
| "ubnd (UExit c) f = UExit c"
| "ubnd UFuel f = UFuel"
| "ubnd UBad f = UBad"

abbreviation useq :: "'a uop \<Rightarrow> 'b uop \<Rightarrow> 'b uop" where
  "useq p q \<equiv> ubnd p (\<lambda>_. q)"

fun ustmts :: "unit uop list \<Rightarrow> unit uop" where
  "ustmts [] = URet ()"
| "ustmts [p] = p"
| "ustmts (p # ps) = useq p (ustmts ps)"

abbreviation uwhen :: "bool \<Rightarrow> unit uop \<Rightarrow> unit uop" where
  "uwhen b p \<equiv> if b then p else URet ()"

primrec ufor :: "'b list \<Rightarrow> ('b \<Rightarrow> unit uop) \<Rightarrow> unit uop" where
  "ufor [] f = URet ()"
| "ufor (x # xs) f = useq (f x) (ufor xs f)"

text \<open>A loop with at most \<open>fuel\<close> iterations: \<open>Inl\<close> goes on, \<open>Inr\<close> leaves.\<close>

primrec uloop :: "nat \<Rightarrow> ('b \<Rightarrow> ('b + 'a) uop) \<Rightarrow> 'b \<Rightarrow> 'a uop" where
  "uloop 0 body x = UFuel"
| "uloop (Suc n) body x =
     ubnd (body x) (\<lambda>r. case r of Inl y \<Rightarrow> uloop n body y | Inr a \<Rightarrow> URet a)"

text \<open>Results are \<^verbatim>\<open>int\<close> for all calls but \<open>sbrk\<close>.\<close>

definition a_int :: "answer \<Rightarrow> int" where
  "a_int a = sint (ucast (a_ret a) :: i32)"

definition sys :: "sysc \<Rightarrow> int uop" where
  "sys c = UCall c (\<lambda>a. URet (a_int a))"

definition sysm :: "sysc \<Rightarrow> (int \<times> string) uop" where
  "sysm c = UCall c (\<lambda>a. URet (a_int a, a_mem a))"

definition sysu :: "sysc \<Rightarrow> unit uop" where
  "sysu c = UCall c (\<lambda>_. URet ())"

text \<open>A read whose result is the number of bytes stored, as the kernel promises.\<close>

definition uread :: "int \<Rightarrow> int \<Rightarrow> (int \<times> string) uop" where
  "uread fd n = UCall (Sys_read fd n) (\<lambda>a.
     if a_int a > 0 \<and> a_int a \<noteq> int (length (a_mem a)) then UBad else URet (a_int a, a_mem a))"

lemma ubnd_assoc: "ubnd (ubnd p f) g = ubnd p (\<lambda>x. ubnd (f x) g)"
  by (induction p) simp_all

lemma ubnd_URet: "ubnd p URet = p"
  by (induction p) simp_all

section \<open>Running a program\<close>

datatype 'a uresult = Returned 'a | Exited int | NoFuel | Broken

primrec urun :: "('e \<Rightarrow> sysc \<Rightarrow> answer \<times> 'e) \<Rightarrow> 'a uop \<Rightarrow> 'e \<Rightarrow> 'a uresult \<times> 'e" where
  "urun h (URet a) = (\<lambda>e. (Returned a, e))"
| "urun h (UCall c k) = (\<lambda>e. case h e c of (a, e') \<Rightarrow> urun h (k a) e')"
| "urun h (UExit c) = (\<lambda>e. (Exited c, e))"
| "urun h UFuel = (\<lambda>e. (NoFuel, e))"
| "urun h UBad = (\<lambda>e. (Broken, e))"

fun ucont :: "'a uresult \<times> 'e \<Rightarrow> ('a \<Rightarrow> 'e \<Rightarrow> 'b uresult \<times> 'e) \<Rightarrow> 'b uresult \<times> 'e" where
  "ucont (Returned a, e) k = k a e"
| "ucont (Exited c, e) k = (Exited c, e)"
| "ucont (NoFuel, e) k = (NoFuel, e)"
| "ucont (Broken, e) k = (Broken, e)"

lemma urun_ubnd [urun_simps]: "urun h (ubnd p f) e = ucont (urun h p e) (\<lambda>a. urun h (f a))"
  by (induction p arbitrary: e) (simp_all split: prod.split)

lemma urun_sys [urun_simps]:
  "urun h (sys c) e = (Returned (a_int (fst (h e c))), snd (h e c))"
  "urun h (sysm c) e = (Returned (a_int (fst (h e c)), a_mem (fst (h e c))), snd (h e c))"
  "urun h (sysu c) e = (Returned (), snd (h e c))"
  by (simp_all add: sys_def sysm_def sysu_def split: prod.split)

text \<open>Loops: a program that lowers a measure at each iteration stays within its fuel.\<close>

lemma urun_uloop:
  assumes "I x e" "\<mu> x e < n"
    and step: "\<And>x e. I x e \<Longrightarrow> \<exists>r e'. urun h (body x) e = (r, e') \<and>
       (case r of Returned (Inl y) \<Rightarrow> I y e' \<and> \<mu> y e' < \<mu> x e | Returned (Inr a) \<Rightarrow> Q (Returned a) e'
        | Exited c \<Rightarrow> Q (Exited c) e' | _ \<Rightarrow> False)"
  shows "\<exists>r e'. urun h (uloop n body x) e = (r, e') \<and> Q r e'"
  using assms(1,2)
proof (induction n arbitrary: x e)
  case 0
  then show ?case by simp
next
  case (Suc n)
  from step [OF Suc.prems(1)] obtain r e' where r: "urun h (body x) e = (r, e')"
    "case r of Returned (Inl y) \<Rightarrow> I y e' \<and> \<mu> y e' < \<mu> x e | Returned (Inr a) \<Rightarrow> Q (Returned a) e'
        | Exited c \<Rightarrow> Q (Exited c) e' | _ \<Rightarrow> False" by blast
  show ?case
  proof (cases r)
    case (Returned v)
    show ?thesis
    proof (cases v)
      case (Inl y)
      then have "I y e'" "\<mu> y e' < n" using r(2) Returned Suc.prems(2) by auto
      from Suc.IH [OF this] show ?thesis using r(1) by (simp add: urun_simps Returned Inl)
    next
      case (Inr a)
      then show ?thesis using r by (simp add: urun_simps Returned)
    qed
  qed (use r in \<open>simp_all add: urun_simps\<close>)
qed

section \<open>A kernel of streams\<close>

text \<open>
  What the file layer promises to a program that reads and writes open descriptors: \<open>uin fd\<close> are the
  pieces in which the remaining input arrives, a read of \<open>n\<close> bytes takes at most \<open>n\<close> bytes of
  the next piece and an empty answer means the end of the input. Writes are complete and are
  recorded in order with their descriptors. Other calls are answered by \<open>other\<close>.
\<close>

record ufds =
  uin :: "int \<Rightarrow> string list"
  uout :: "(int \<times> string) list"

definition next_piece :: "nat \<Rightarrow> string list \<Rightarrow> string \<times> string list" where
  "next_piece n ps = (case ps of
     [] \<Rightarrow> ([], [])
   | p # ps \<Rightarrow> if length p \<le> n then (p, ps) else (take n p, drop n p # ps))"

definition ustream :: "(sysc \<Rightarrow> answer) \<Rightarrow> ufds \<Rightarrow> sysc \<Rightarrow> answer \<times> ufds" where
  "ustream other e c = (case c of
     Sys_read fd n \<Rightarrow>
       (case next_piece (nat n) (uin e fd) of
          (d, ps) \<Rightarrow> (Ans (of_nat (length d)) d, e\<lparr>uin := (uin e)(fd := ps)\<rparr>))
   | Sys_write fd d \<Rightarrow> (Ans (of_nat (length d)) [], e\<lparr>uout := uout e @ [(fd, d)]\<rparr>)
   | _ \<Rightarrow> (other c, e))"

text \<open>The bytes written to a descriptor.\<close>

definition written :: "int \<Rightarrow> (int \<times> string) list \<Rightarrow> string" where
  "written fd out = concat (map snd (filter (\<lambda>w. fst w = fd) out))"

lemma written_simps [simp]:
  "written fd [] = []"
  "written fd (w # ws) = (if fst w = fd then snd w else []) @ written fd ws"
  "written fd (xs @ ys) = written fd xs @ written fd ys"
  by (simp_all add: written_def)

text \<open>No piece is empty: an empty answer to a read is the end of the input.\<close>

definition pieces_ok :: "string list \<Rightarrow> bool" where
  "pieces_ok ps \<longleftrightarrow> [] \<notin> set ps"

lemma next_piece_props:
  assumes "pieces_ok ps" "0 < n" "next_piece n ps = (d, qs)"
  shows "pieces_ok qs" "d @ concat qs = concat ps" "length d \<le> n"
    "d = [] \<longleftrightarrow> concat ps = []" "d \<noteq> [] \<Longrightarrow> length (concat qs) < length (concat ps)" "d = [] \<Longrightarrow> qs = []"
  using assms by (auto simp: next_piece_def pieces_ok_def split: list.splits if_splits)

lemma a_int_small: "k < 2 ^ 31 \<Longrightarrow> a_int (Ans (of_nat k) m) = int k"
proof -
  assume k: "k < 2 ^ 31"
  have "(ucast (of_nat k :: u64) :: i32) = of_nat k"
    by (rule bit_word_eqI) (auto simp: bit_simps)
  then show ?thesis using k by (simp add: a_int_def signed_of_nat signed_take_bit_int_eq_self)
qed


lemma ustream_write [urun_simps]:
  "ustream other e (Sys_write fd d) = (Ans (of_nat (length d)) [], e\<lparr>uout := uout e @ [(fd, d)]\<rparr>)"
  by (simp add: ustream_def)

lemma urun_ustream_read:
  assumes "next_piece (nat n) (uin e fd) = (d, ps)" "n < 2 ^ 31"
  shows "urun (ustream other) (uread fd n) e = (Returned (int (length d), d), e\<lparr>uin := (uin e)(fd := ps)\<rparr>)"
proof -
  have "length d \<le> nat n" using assms(1) by (auto simp: next_piece_def split: list.splits if_splits)
  then have "length d < 2 ^ 31" using assms(2) by (cases "0 \<le> n") auto
  then show ?thesis using assms(1) by (simp add: uread_def ustream_def a_int_small)
qed


section \<open>Running a program with its children\<close>

text \<open>
  \<open>uspawn\<close> also runs the children: when the kernel answers a \<open>fork\<close> with a pid, the child runs to its end
  before the parent goes on, which is the schedule a parent sees that waits for each child. An answer
  0 to \<open>exec\<close> stands for success: the program is replaced and does not go on.
\<close>

primrec uspawn :: "('e \<Rightarrow> sysc \<Rightarrow> answer \<times> 'e) \<Rightarrow> 'a uop \<Rightarrow> 'e \<Rightarrow> 'a uresult \<times> 'e" where
  "uspawn h (URet a) = (\<lambda>e. (Returned a, e))"
| "uspawn h (UCall c k) = (\<lambda>e. case h e c of (a, e1) \<Rightarrow>
     if c = Sys_fork \<and> a_int a > 0 then uspawn h (k a) (snd (uspawn h (k (Ans 0 [])) e1))
     else if (\<exists>f as. c = Sys_exec f as) \<and> a_int a = 0 then (Exited 0, e1)
     else uspawn h (k a) e1)"
| "uspawn h (UExit c) = (\<lambda>e. (Exited c, e))"
| "uspawn h UFuel = (\<lambda>e. (NoFuel, e))"
| "uspawn h UBad = (\<lambda>e. (Broken, e))"

lemma uspawn_ubnd_sys:
  "uspawn h (ubnd (sys c) f) e = (case h e c of (a, e1) \<Rightarrow>
     if c = Sys_fork \<and> a_int a > 0 then uspawn h (f (a_int a)) (snd (uspawn h (f (a_int (Ans 0 []))) e1))
     else if (\<exists>p as. c = Sys_exec p as) \<and> a_int a = 0 then (Exited 0, e1)
     else uspawn h (f (a_int a)) e1)"
  by (simp add: sys_def split: prod.split)

end
