(* ===== verification/Ulib.thy ===== *)
theory Ulib
  imports Usys Cstring
begin

text \<open>
  The user library of \<^verbatim>\<open>user/ulib.c\<close>. A C string is the list of its characters before the NUL, a
  pointer into it is a suffix of that list, and \<^verbatim>\<open>*s == 0\<close> is the test for the empty list. The
  routines that move memory work on a byte store with addresses.
\<close>

section \<open>Strings\<close>

abbreviation NUL :: char where
  "NUL \<equiv> CHR 0x00"

text \<open>The string an array holds: what precedes the first NUL.\<close>

definition cstring :: "string \<Rightarrow> string" where
  "cstring s = takeWhile (\<lambda>c. c \<noteq> NUL) s"

text \<open>\<open>strcpy s t\<close> is the array \<open>s\<close> after the copy of \<open>t\<close> and its NUL to its start.\<close>

primrec strcpy :: "string \<Rightarrow> string \<Rightarrow> string" where
  "strcpy s [] = NUL # tl s"
| "strcpy s (c # t) = c # strcpy (tl s) t"

fun strcmp :: "string \<Rightarrow> string \<Rightarrow> int" where
  "strcmp (p # ps) (q # qs) = (if p = q then strcmp ps qs else of_char p - of_char q)"
| "strcmp (p # ps) [] = of_char p"
| "strcmp [] (q # qs) = - of_char q"
| "strcmp [] [] = 0"

primrec strlen_from :: "string \<Rightarrow> u32 \<Rightarrow> u32" where
  "strlen_from [] n = n"
| "strlen_from (c # s) n = strlen_from s (n + 1)"

definition strlen :: "string \<Rightarrow> u32" where
  "strlen s = strlen_from s 0"

primrec strchr :: "string \<Rightarrow> char \<Rightarrow> string option" where
  "strchr [] c = None"
| "strchr (x # s) c = (if x = c then Some (x # s) else strchr s c)"

definition is_digit :: "char \<Rightarrow> bool" where
  "is_digit c \<longleftrightarrow> of_char (CHR ''0'') \<le> (of_char c :: nat) \<and> (of_char c :: nat) \<le> of_char (CHR ''9'')"

text \<open>Signed arithmetic of \<open>atoi\<close> is that of the machine, which wraps.\<close>

primrec atoi_loop :: "i32 \<Rightarrow> string \<Rightarrow> i32" where
  "atoi_loop n [] = n"
| "atoi_loop n (c # s) =
     (if is_digit c then atoi_loop (n * 10 + of_char c - of_char (CHR ''0'')) s else n)"

definition atoi :: "string \<Rightarrow> i32" where
  "atoi s = atoi_loop 0 s"

section \<open>Memory\<close>

definition memset :: "bytes \<Rightarrow> nat \<Rightarrow> i32 \<Rightarrow> nat \<Rightarrow> bytes" where
  "memset m dst c n = fold (\<lambda>i m. m(dst + i := ucast c)) [0..<n] m"

primrec move_up :: "nat \<Rightarrow> bytes \<Rightarrow> nat \<Rightarrow> nat \<Rightarrow> bytes" where
  "move_up 0 m dst src = m"
| "move_up (Suc n) m dst src = move_up n (m(dst := m src)) (dst + 1) (src + 1)"

primrec move_down :: "nat \<Rightarrow> bytes \<Rightarrow> nat \<Rightarrow> nat \<Rightarrow> bytes" where
  "move_down 0 m dst src = m"
| "move_down (Suc n) m dst src = move_down n (m(dst - 1 := m (src - 1))) (dst - 1) (src - 1)"

text \<open>The count is an \<^verbatim>\<open>int\<close>; for a negative one no loop runs.\<close>

definition memmove :: "bytes \<Rightarrow> nat \<Rightarrow> nat \<Rightarrow> int \<Rightarrow> bytes" where
  "memmove m dst src n =
     (if src > dst then move_up (nat n) m dst src
      else if n > 0 then move_down (nat n) m (dst + nat n) (src + nat n) else m)"

primrec memcmp :: "nat \<Rightarrow> bytes \<Rightarrow> bytes \<Rightarrow> int" where
  "memcmp 0 p1 p2 = 0"
| "memcmp (Suc n) p1 p2 =
     (if p1 0 \<noteq> p2 0 then uint (p1 0) - uint (p2 0)
      else memcmp n (\<lambda>i. p1 (Suc i)) (\<lambda>i. p2 (Suc i)))"

definition memcpy :: "bytes \<Rightarrow> nat \<Rightarrow> nat \<Rightarrow> u32 \<Rightarrow> bytes" where
  "memcpy m dst src n = memmove m dst src (sint n)"

section \<open>Routines that call the kernel\<close>

text \<open>
  \<open>gets mx\<close> gives the bytes stored before the final NUL. Each iteration adds a byte, so \<open>mx\<close>
  bounds their number.
\<close>

definition gets_step :: "int \<Rightarrow> string \<Rightarrow> (string + string) uop" where
  "gets_step mx buf =
     (if \<not> int (length buf) + 1 < mx then URet (Inr buf) else
      ubnd (uread 0 1) (\<lambda>(cc, d).
      if cc < 1 then URet (Inr buf) else
      let c = hd d in URet (if c = CHR 0x0A \<or> c = CHR 0x0D then Inr (buf @ [c]) else Inl (buf @ [c]))))"

definition gets :: "int \<Rightarrow> string uop" where
  "gets mx = uloop (nat mx + 1) (gets_step mx) []"

text \<open>\<^verbatim>\<open>struct stat\<close> as the kernel stores it.\<close>

record stat =
  st_dev :: i32
  st_ino :: u32
  st_type :: i16
  st_nlink :: i16
  st_size :: u64

definition as_bytes :: "string \<Rightarrow> bytes" where
  "as_bytes s = (\<lambda>i. if i < length s then of_char (s ! i) else 0)"

definition stat_of :: "string \<Rightarrow> stat" where
  "stat_of s = (let b = as_bytes s in
     \<lparr>st_dev = ld32 b 0, st_ino = ld32 b 4, st_type = ld16 b 8, st_nlink = ld16 b 10, st_size = ld64 b 16\<rparr>)"

definition stat :: "string \<Rightarrow> (int \<times> string) uop" where
  "stat n =
     ubnd (sys (Sys_open n 0)) (\<lambda>fd.
     if fd < 0 then URet (-1, []) else
     ubnd (sysm (Sys_fstat fd)) (\<lambda>(r, st).
     useq (sysu (Sys_close fd)) (URet (r, st))))"

section \<open>What they compute\<close>

lemma cstring_id: "NUL \<notin> set s \<Longrightarrow> cstring s = s"
  unfolding cstring_def by (auto intro: takeWhile_eq_all_conv [THEN iffD2])

lemma strlen_eq: "strlen s = of_nat (length s)"
proof -
  have "strlen_from s n = n + of_nat (length s)" for n
    by (induction s arbitrary: n) (simp_all add: algebra_simps)
  then show ?thesis by (simp add: strlen_def)
qed

lemma strchr_None: "strchr s c = None \<longleftrightarrow> c \<notin> set s"
  by (induction s) auto

lemma strchr_Some: "strchr s c = Some t \<Longrightarrow> \<exists>u. s = u @ t \<and> c \<notin> set u \<and> (\<exists>v. t = c # v)"
proof (induction s)
  case (Cons x s)
  show ?case
  proof (cases "x = c")
    case True
    then show ?thesis using Cons.prems by (intro exI [of _ "[]"]) auto
  next
    case False
    with Cons obtain u where "s = u @ t" "c \<notin> set u" "\<exists>v. t = c # v" by auto
    with False show ?thesis by (intro exI [of _ "x # u"]) simp
  qed
qed simp

lemma strchr_append: "c \<notin> set u \<Longrightarrow> strchr (u @ c # v) c = Some (c # v)"
  by (induction u) auto

lemma of_char_eq [simp]: "(of_char c = (of_char d :: int)) = (c = d)"
  by (metis char_of_char)

lemma of_char_0 [simp]: "(of_char c = (0 :: int)) = (c = NUL)"
  using of_char_eq [of c NUL] by simp

lemma strcmp_0: "NUL \<notin> set p \<Longrightarrow> NUL \<notin> set q \<Longrightarrow> strcmp p q = 0 \<longleftrightarrow> p = q"
  by (induction p q rule: strcmp.induct) auto

lemma move_up_eq: "move_up n m d s = memmove_fwd n m d s"
  by (induction n arbitrary: m d s) simp_all

lemma move_down_eq: "move_down n m d s = memmove_bwd n m d s"
  by (induction n arbitrary: m d s) simp_all

text \<open>
  C14. The user library's \<open>memmove\<close> and the kernel's, which decide differently which way to copy,
  compute the same memory for every placement of the two areas and every count.
\<close>

theorem memmove_agree: "memmove m dst src n = Cstring.memmove m dst src (nat n)"
  unfolding memmove_eq Ulib.memmove_def move_up_eq move_down_eq
  by (auto simp: fun_eq_iff memmove_fwd_eq memmove_bwd_eq)

end
