(* ===== verification/Uprintf.thy ===== *)
theory Uprintf
  imports Ulib Numerals
begin

text \<open>
  Formatted output of user programs, \<^verbatim>\<open>user/printf.c\<close>. The formatting loop computes the characters;
  each is written with a system call of its own.
\<close>

section \<open>Numbers\<close>

definition digits :: string where
  "digits = ''0123456789ABCDEF''"

text \<open>The do-while loop that fills \<^verbatim>\<open>buf\<close>, least significant digit first.\<close>

fun printint_buf :: "nat \<Rightarrow> u32 \<Rightarrow> u32 \<Rightarrow> string" where
  "printint_buf 0 base x = []"
| "printint_buf (Suc n) base x =
     digits ! unat (x mod base) #
     (if x div base \<noteq> 0 then printint_buf n base (x div base) else [])"

definition printint :: "i32 \<Rightarrow> u32 \<Rightarrow> bool \<Rightarrow> string" where
  "printint xx base sg =
     (let neg = sg \<and> sint xx < 0;
          x = (if neg then - xx else xx)
      in rev (printint_buf 32 base x @ (if neg then ''-'' else [])))"

primrec printptr_loop :: "nat \<Rightarrow> u64 \<Rightarrow> string" where
  "printptr_loop 0 x = []"
| "printptr_loop (Suc n) x = digits ! unat (drop_bit 60 x) # printptr_loop n (push_bit 4 x)"

definition printptr :: "u64 \<Rightarrow> string" where
  "printptr x = ''0x'' @ printptr_loop 16 x"

section \<open>Formats\<close>

text \<open>
  Variadic arguments are 64-bit slots, of which \<^verbatim>\<open>va_arg(ap, int)\<close> takes the low half; a null
  \<^verbatim>\<open>char*\<close> is \<open>V_str None\<close>. \<open>None\<close> as a result: an argument is missing or is no string.
\<close>

datatype varg = V_num u64 | V_str "string option"

abbreviation V_int :: "int \<Rightarrow> varg" where
  "V_int i \<equiv> V_num (of_int i)"

abbreviation V_s :: "string \<Rightarrow> varg" where
  "V_s s \<equiv> V_str (Some s)"

definition out_num :: "(u64 \<Rightarrow> string) \<Rightarrow> varg list \<Rightarrow> (string \<times> varg list) option" where
  "out_num f ap = (case ap of V_num v # ap' \<Rightarrow> Some (f v, ap') | _ \<Rightarrow> None)"

definition convert :: "char \<Rightarrow> varg list \<Rightarrow> (string \<times> varg list) option" where
  "convert c ap =
     (if c = CHR ''d'' then out_num (\<lambda>v. printint (ucast v) 10 True) ap
      else if c = CHR ''l'' then out_num (\<lambda>v. printint (ucast v) 10 False) ap
      else if c = CHR ''x'' then out_num (\<lambda>v. printint (ucast v) 16 False) ap
      else if c = CHR ''p'' then out_num printptr ap
      else if c = CHR ''s'' then
        (case ap of
           V_str v # ap' \<Rightarrow> Some (case v of None \<Rightarrow> ''(null)'' | Some s \<Rightarrow> s, ap')
         | _ \<Rightarrow> None)
      else if c = CHR ''c'' then out_num (\<lambda>v. [char_of (unat (ucast v :: u8))]) ap
      else if c = CHR ''%'' then Some ([c], ap)
      else Some ([CHR ''%'', c], ap))"

text \<open>The state of the loop: whether the last character was an unconsumed percent sign.\<close>

fun vprintf_out :: "bool \<Rightarrow> string \<Rightarrow> varg list \<Rightarrow> string option" where
  "vprintf_out st [] ap = Some []"
| "vprintf_out False (c # fmt) ap =
     (if c = CHR ''%'' then vprintf_out True fmt ap
      else map_option (Cons c) (vprintf_out False fmt ap))"
| "vprintf_out True (c # fmt) ap =
     (case convert c ap of
        None \<Rightarrow> None
      | Some (out, ap') \<Rightarrow> map_option (append out) (vprintf_out False fmt ap'))"

definition putc :: "int \<Rightarrow> char \<Rightarrow> unit uop" where
  "putc fd c = sysu (Sys_write fd [c])"

definition vprintf :: "int \<Rightarrow> string \<Rightarrow> varg list \<Rightarrow> unit uop" where
  "vprintf fd fmt ap = (case vprintf_out False fmt ap of None \<Rightarrow> UBad | Some s \<Rightarrow> ufor s (putc fd))"

definition fprintf :: "int \<Rightarrow> string \<Rightarrow> varg list \<Rightarrow> unit uop" where
  "fprintf fd fmt ap = vprintf fd fmt ap"

definition printf :: "string \<Rightarrow> varg list \<Rightarrow> unit uop" where
  "printf fmt ap = vprintf 1 fmt ap"

text \<open>A literal newline in a format.\<close>

abbreviation nl :: string where
  "nl \<equiv> [CHR 0x0A]"

section \<open>What is printed\<close>

lemma printint_buf_digits: "printint_buf n base x = map (\<lambda>d. digits ! unat d) (word_digits n base x)"
  by (induction n base x rule: printint_buf.induct) simp_all

lemma printint_buf_numerals:
  assumes "2 \<le> unat base"
  shows "printint_buf 32 base x = map (\<lambda>d. digits ! d) (numerals (unat base) (unat x))"
proof -
  have "unat x < 2 ^ 32" using unsigned_less [of x] by simp
  also have "\<dots> \<le> unat base ^ 32" by (rule power_mono [OF assms]) simp
  finally have "map unat (word_digits 32 base x) = numerals (unat base) (unat x)"
    by (intro word_digits_eq [OF assms]) simp_all
  then have "map ((!) digits) (map unat (word_digits 32 base x)) = map ((!) digits) (numerals (unat base) (unat x))"
    by simp
  then show ?thesis by (simp add: printint_buf_digits comp_def)
qed

lemma digit_char:
  assumes "d < 10"
  shows "is_digit (digits ! d)" "(of_char (digits ! d) :: 'a::len word) = of_nat d + of_char (CHR ''0'')"
proof -
  have "d = 0 \<or> d = 1 \<or> d = 2 \<or> d = 3 \<or> d = 4 \<or> d = 5 \<or> d = 6 \<or> d = 7 \<or> d = 8 \<or> d = 9" using assms by presburger
  then show "is_digit (digits ! d)" "(of_char (digits ! d) :: 'a::len word) = of_nat d + of_char (CHR ''0'')"
    by (auto simp: digits_def is_digit_def)
qed

lemma atoi_digits:
  assumes "\<forall>d\<in>set ds. d < 10" "s = [] \<or> \<not> is_digit (hd s)"
  shows "atoi_loop n (map (\<lambda>d. digits ! d) (rev ds) @ s) = n * 10 ^ length ds + of_nat (digits_value 10 ds)"
  using assms
proof (induction ds arbitrary: n s rule: rev_induct)
  case Nil
  then show ?case by (cases s) simp_all
next
  case (snoc d ds)
  have v: "digits_value 10 (ds @ [d]) = digits_value 10 ds + 10 ^ length ds * d"
    by (induction ds) (simp_all add: algebra_simps)
  have "atoi_loop n (map (\<lambda>d. digits ! d) (rev (ds @ [d])) @ s)
      = atoi_loop (n * 10 + of_nat d) (map (\<lambda>d. digits ! d) (rev ds) @ s)"
    using snoc.prems(1) by (simp add: digit_char)
  also have "\<dots> = (n * 10 + of_nat d) * 10 ^ length ds + of_nat (digits_value 10 ds)"
    using snoc.prems by (intro snoc.IH) simp_all
  finally show ?case by (simp add: v algebra_simps)
qed

lemma atoi_printint_buf: "s = [] \<or> \<not> is_digit (hd s) \<Longrightarrow> atoi_loop 0 (rev (printint_buf 32 10 x) @ s) = x"
  using atoi_digits [of "numerals 10 (unat x)" s 0] numerals_less [of 10 _ "unat x"] numerals_value [of 10 "unat x"]
  by (simp add: printint_buf_numerals rev_map)

text \<open>
  C15. Printing and reading numbers are inverse: \<open>atoi\<close> reads back every number that \<open>%d\<close>
  prints without a minus sign and every number \<open>%l\<close> prints, whatever follows it but a
  digit. A negative number is printed as a minus sign and its absolute value. The digits of
  any number fit in the 16-byte buffer of \<open>printint\<close>.
\<close>

theorem printint_atoi:
  "(\<not> is_digit (hd (s @ ''x'')) \<longrightarrow> 0 \<le> sint x \<longrightarrow> atoi (printint x 10 True @ s) = x) \<and>
   (\<not> is_digit (hd (s @ ''x'')) \<longrightarrow> atoi (printint x 10 False @ s) = x) \<and>
   (sint x < 0 \<longrightarrow> printint x 10 True = CHR ''-'' # printint (- x) 10 False) \<and>
   length (printint x 10 sg) \<le> 11 \<and> length (printint x 16 False) \<le> 8"
proof (intro conjI impI)
  assume "\<not> is_digit (hd (s @ ''x''))"
  then have s: "s = [] \<or> \<not> is_digit (hd s)" by (cases s) auto
  show "atoi (printint x 10 False @ s) = x"
    using atoi_printint_buf [OF s] by (simp add: atoi_def printint_def)
  show "atoi (printint x 10 True @ s) = x" if "0 \<le> sint x"
    using atoi_printint_buf [OF s] that by (simp add: atoi_def printint_def)
next
  show "sint x < 0 \<Longrightarrow> printint x 10 True = CHR ''-'' # printint (- x) 10 False" by (simp add: printint_def Let_def)
  have lt: "unat y < 4294967296" for y :: u32 using unsigned_less [of y, where 'a = nat] by simp
  have l10: "length (printint_buf 32 10 y) \<le> 10" for y
    using lt [of y] by (simp add: printint_buf_numerals numerals_length)
  show "length (printint x 10 sg) \<le> 11"
    using l10 [of x] l10 [of "- x"] by (simp add: printint_def Let_def)
  show "length (printint x 16 False) \<le> 8"
    using lt [of x] by (simp add: printint_def printint_buf_numerals numerals_length)
qed

theorem printint_atoi_witness:
  "atoi (printint 2147483647 10 True @ '' x'') = 2147483647 \<and> atoi (printint 4294967295 10 False) = 4294967295 \<and>
   printint (- 7) 10 True = ''-7''"
proof -
  have "printint 7 10 False = ''7''" by code_simp
  then show ?thesis
    using printint_atoi [of "'' x''" 2147483647] printint_atoi [of "[]" 4294967295] printint_atoi [of "[]" "- 7"]
    by (simp add: is_digit_def)
qed


text \<open>Formatted output to a stream.\<close>

lemma urun_puts: "urun (ustream other) (ufor s (putc fd)) e = (Returned (), e\<lparr>uout := uout e @ map (\<lambda>c. (fd, [c])) s\<rparr>)"
  by (induction s arbitrary: e) (simp_all add: putc_def urun_simps)

lemma written_puts [simp]: "written fd (map (\<lambda>c. (fd', [c])) s) = (if fd = fd' then s else [])"
  by (induction s) simp_all

lemma urun_printf [urun_simps]:
  assumes "vprintf_out False fmt ap = Some t"
  shows "urun (ustream other) (printf fmt ap) e = (Returned (), e\<lparr>uout := uout e @ map (\<lambda>c. (1, [c])) t\<rparr>)"
    "urun (ustream other) (fprintf fd fmt ap) e = (Returned (), e\<lparr>uout := uout e @ map (\<lambda>c. (fd, [c])) t\<rparr>)"
  using assms by (simp_all add: printf_def fprintf_def vprintf_def urun_puts)

lemma slot_i32 [simp]: "(ucast (scast x :: u64) :: i32) = x"
  by (rule bit_word_eqI) (auto simp: bit_simps)

end
