(* ===== verification/Lines.thy ===== *)
theory Lines
  imports Ulib
begin

text \<open>The lines of a text, as the programs that read line by line see them.\<close>

section \<open>The lines of the input\<close>

text \<open>The lines that end in a newline, and what follows the last newline.\<close>

primrec lines_of :: "string \<Rightarrow> string list \<times> string" where
  "lines_of [] = ([], [])"
| "lines_of (c # s) = (case lines_of s of
     (ls, r) \<Rightarrow> if c = CHR 0x0A then ([] # ls, r)
       else (case ls of [] \<Rightarrow> ([], c # r) | l # ls \<Rightarrow> ((c # l) # ls, r)))"

lemma lines_of_none: "CHR 0x0A \<notin> set s \<Longrightarrow> lines_of s = ([], s)"
  by (induction s) auto

lemma lines_of_line: "CHR 0x0A \<notin> set l \<Longrightarrow> lines_of (l @ CHR 0x0A # s) = (l # fst (lines_of s), snd (lines_of s))"
  by (induction l) (auto split: prod.split)

lemma lines_of_rest: "CHR 0x0A \<notin> set (snd (lines_of s))"
  by (induction s) (auto split: prod.splits list.splits)

lemma lines_of_append:
  "lines_of (xs @ ys) = (fst (lines_of xs) @ fst (lines_of (snd (lines_of xs) @ ys)), snd (lines_of (snd (lines_of xs) @ ys)))"
proof (induction "length xs" arbitrary: xs rule: less_induct)
  case less
  show ?case
  proof (cases "CHR 0x0A \<in> set xs")
    case True
    then obtain l s where xs: "xs = l @ CHR 0x0A # s" "CHR 0x0A \<notin> set l" by (meson split_list_first)
    then have "lines_of (s @ ys) = (fst (lines_of s) @ fst (lines_of (snd (lines_of s) @ ys)),
        snd (lines_of (snd (lines_of s) @ ys)))" by (intro less) simp
    with xs show ?thesis by (simp add: lines_of_line)
  next
    case False
    then show ?thesis by (simp add: lines_of_none)
  qed
qed

lemma lines_of_prefix:
  "CHR 0x0A \<notin> set r \<Longrightarrow> fst (lines_of (r @ ys)) = (case fst (lines_of ys) of [] \<Rightarrow> [] | l # ls \<Rightarrow> (r @ l) # ls)"
  by (induction r) (auto split: prod.splits list.splits)

lemma lines_of_lengths: "(\<forall>l\<in>set (fst (lines_of s)). length l < length s) \<and> length (snd (lines_of s)) \<le> length s"
  by (induction s) (auto split: prod.splits list.splits if_splits simp: less_Suc_eq_le less_imp_le Suc_le_eq)

lemmas lines_of_length = lines_of_lengths [THEN conjunct1, rule_format] lines_of_lengths [THEN conjunct2]

lemma lines_of_set: "set (snd (lines_of s)) \<subseteq> set s"
  by (induction s) (auto split: prod.splits list.splits if_splits)

end
