(* ===== verification/Grep.thy ===== *)
theory Grep
  imports Uprintf Lines
begin

text \<open>
  \<^verbatim>\<open>user/grep.c\<close>: the matcher of Kernighan and Pike, and the loop that cuts the input into lines
  in a buffer of 1024 bytes. The matcher is compared with the language a pattern denotes,
  the loop with the lines of the whole input.
\<close>

section \<open>The matcher\<close>

fun matchhere :: "string \<Rightarrow> string \<Rightarrow> bool"
  and matchstar :: "char \<Rightarrow> string \<Rightarrow> string \<Rightarrow> bool" where
  "matchhere [] tx = True"
| "matchhere [c] tx =
     (if c = CHR ''$'' then tx = []
      else tx \<noteq> [] \<and> (c = CHR ''.'' \<or> c = hd tx) \<and> matchhere [] (tl tx))"
| "matchhere (c # d # re) tx =
     (if d = CHR ''*'' then matchstar c re tx
      else tx \<noteq> [] \<and> (c = CHR ''.'' \<or> c = hd tx) \<and> matchhere (d # re) (tl tx))"
| "matchstar c re [] = matchhere re []"
| "matchstar c re (t # tx) =
     (matchhere re (t # tx) \<or> (t = c \<or> c = CHR ''.'') \<and> matchstar c re tx)"

primrec match_any :: "string \<Rightarrow> string \<Rightarrow> bool" where
  "match_any re [] = matchhere re []"
| "match_any re (t # tx) = (matchhere re (t # tx) \<or> match_any re tx)"

definition match :: "string \<Rightarrow> string \<Rightarrow> bool" where
  "match re tx = (case re of
     [] \<Rightarrow> match_any re tx
   | c # re' \<Rightarrow> if c = CHR ''^'' then matchhere re' tx else match_any re tx)"

section \<open>The search\<close>

text \<open>The inner loop: \<open>p\<close> is what is left of the buffer.\<close>

function grep_lines :: "string \<Rightarrow> string \<Rightarrow> string uop" where
  "grep_lines pattern p =
     (case strchr (cstring p) (CHR 0x0A) of
        None \<Rightarrow> URet p
      | Some q \<Rightarrow>
          let line = take (length (cstring p) - length q) p
          in useq (uwhen (match pattern line) (sysu (Sys_write 1 (line @ nl))))
               (grep_lines pattern (drop (length line + 1) p)))"
  by pat_completeness auto
termination
proof (relation "measure (\<lambda>(pattern, p). length p)")
  fix pattern p q line assume "strchr (cstring p) (CHR 0x0A) = Some q"
  then have "p \<noteq> []" by (auto simp: cstring_def)
  then show "((pattern, drop (length line + 1) p), pattern, p) \<in> measure (\<lambda>(pattern, p). length p)" by simp
qed simp

declare grep_lines.simps [simp del]

text \<open>One iteration of the outer loop; \<open>rest\<close> are the \<open>m\<close> bytes kept at the start of the buffer.\<close>

definition grep_step :: "string \<Rightarrow> int \<Rightarrow> string \<Rightarrow> (string + unit) uop" where
  "grep_step pattern fd rest =
     ubnd (uread fd (1024 - int (length rest) - 1)) (\<lambda>(n, d).
     if \<not> n > 0 then URet (Inr ()) else
     ubnd (grep_lines pattern (rest @ d)) (\<lambda>p. URet (Inl p)))"

definition grep :: "nat \<Rightarrow> string \<Rightarrow> int \<Rightarrow> unit uop" where
  "grep fuel pattern fd = uloop fuel (grep_step pattern fd) []"

definition grep_main :: "nat \<Rightarrow> string list \<Rightarrow> unit uop" where
  "grep_main fuel argv =
     (if length argv \<le> 1 then
        useq (fprintf 2 (''usage: grep pattern [file ...]'' @ nl) []) (UExit 1)
      else if length argv \<le> 2 then useq (grep fuel (argv ! 1) 0) (UExit 0)
      else useq (ufor (drop 2 argv) (\<lambda>f.
        ubnd (sys (Sys_open f 0)) (\<lambda>fd.
        if fd < 0 then useq (printf (''grep: cannot open %s'' @ nl) [V_s f]) (UExit 1)
        else useq (grep fuel (argv ! 1) fd) (sysu (Sys_close fd)))))
       (UExit 0))"

section \<open>The language of a pattern\<close>

text \<open>
  A pattern is a sequence of items, a character or the repetition of one, possibly followed by a
  dollar sign that stands for the end of the line.
\<close>

datatype item = One char | Many char

fun items :: "string \<Rightarrow> item list" where
  "items [] = []"
| "items [c] = (if c = CHR ''$'' then [] else [One c])"
| "items (c # d # re) = (if d = CHR ''*'' then Many c # items re else One c # items (d # re))"

fun at_end :: "string \<Rightarrow> bool" where
  "at_end [] = False"
| "at_end [c] = (c = CHR ''$'')"
| "at_end (c # d # re) = (if d = CHR ''*'' then at_end re else at_end (d # re))"

definition fits :: "char \<Rightarrow> char \<Rightarrow> bool" where
  "fits c x \<longleftrightarrow> c = CHR ''.'' \<or> c = x"

definition item_word :: "item \<Rightarrow> string \<Rightarrow> bool" where
  "item_word i w = (case i of One c \<Rightarrow> \<exists>x. w = [x] \<and> fits c x | Many c \<Rightarrow> \<forall>x\<in>set w. fits c x)"

definition denotes :: "item list \<Rightarrow> bool \<Rightarrow> string \<Rightarrow> bool" where
  "denotes is e tx \<longleftrightarrow>
     (\<exists>ws rest. tx = concat ws @ rest \<and> list_all2 item_word is ws \<and> (e \<longrightarrow> rest = []))"

lemma denotes_Nil: "denotes [] e tx \<longleftrightarrow> (e \<longrightarrow> tx = [])"
  by (simp add: denotes_def)

lemma denotes_Cons: "denotes (i # is) e tx \<longleftrightarrow> (\<exists>w tx'. tx = w @ tx' \<and> item_word i w \<and> denotes is e tx')"
proof
  assume "denotes (i # is) e tx"
  then obtain vs rest where v: "tx = concat vs @ rest" "list_all2 item_word (i # is) vs" "e \<longrightarrow> rest = []"
    unfolding denotes_def by blast
  then obtain w ws where "vs = w # ws" "item_word i w" "list_all2 item_word is ws" by (auto simp: list_all2_Cons1)
  with v show "\<exists>w tx'. tx = w @ tx' \<and> item_word i w \<and> denotes is e tx'"
    by (intro exI [of _ w] exI [of _ "concat ws @ rest"]) (auto simp: denotes_def)
next
  assume "\<exists>w tx'. tx = w @ tx' \<and> item_word i w \<and> denotes is e tx'"
  then obtain w ws rest where "tx = w @ concat ws @ rest" "item_word i w" "list_all2 item_word is ws" "e \<longrightarrow> rest = []"
    unfolding denotes_def by blast
  then show "denotes (i # is) e tx"
    unfolding denotes_def by (intro exI [of _ "w # ws"] exI [of _ rest]) simp
qed

lemma denotes_One:
  "denotes (One c # is) e tx \<longleftrightarrow> tx \<noteq> [] \<and> fits c (hd tx) \<and> denotes is e (tl tx)"
proof (cases tx)
  case (Cons a t)
  have "(\<exists>w t'. a # t = w @ t' \<and> (\<exists>x. w = [x] \<and> fits c x) \<and> denotes is e t') \<longleftrightarrow> fits c a \<and> denotes is e t"
    by (auto intro: exI [of _ "[a]"])
  then show ?thesis by (simp add: denotes_Cons item_word_def Cons)
qed (auto simp: denotes_Cons item_word_def)

lemma denotes_Many:
  "denotes (Many c # is) e tx \<longleftrightarrow>
     denotes is e tx \<or> (tx \<noteq> [] \<and> fits c (hd tx) \<and> denotes (Many c # is) e (tl tx))"
proof
  assume "denotes (Many c # is) e tx"
  then obtain w t where w: "tx = w @ t" "\<forall>x\<in>set w. fits c x" "denotes is e t"
    by (auto simp: denotes_Cons item_word_def)
  show "denotes is e tx \<or> (tx \<noteq> [] \<and> fits c (hd tx) \<and> denotes (Many c # is) e (tl tx))"
  proof (cases w)
    case Nil
    then show ?thesis using w by simp
  next
    case (Cons x v)
    then have "denotes (Many c # is) e (v @ t)"
      using w unfolding denotes_Cons item_word_def by (intro exI [of _ v] exI [of _ t]) simp
    then show ?thesis using Cons w by simp
  qed
next
  assume "denotes is e tx \<or> (tx \<noteq> [] \<and> fits c (hd tx) \<and> denotes (Many c # is) e (tl tx))"
  then show "denotes (Many c # is) e tx"
  proof
    assume "denotes is e tx"
    then show ?thesis unfolding denotes_Cons item_word_def by (intro exI [of _ "[]"] exI [of _ tx]) simp
  next
    assume a: "tx \<noteq> [] \<and> fits c (hd tx) \<and> denotes (Many c # is) e (tl tx)"
    then obtain w t where "tl tx = w @ t" "\<forall>x\<in>set w. fits c x" "denotes is e t"
      by (auto simp: denotes_Cons item_word_def)
    with a show ?thesis unfolding denotes_Cons item_word_def
      by (intro exI [of _ "hd tx # w"] exI [of _ t]) (cases tx, auto)
  qed
qed

lemma matchhere_denotes:
  "matchhere re tx \<longleftrightarrow> denotes (items re) (at_end re) tx"
  "matchstar c re tx \<longleftrightarrow> denotes (Many c # items re) (at_end re) tx"
proof (induction re tx and c re tx rule: matchhere_matchstar.induct)
  case (2 c tx)
  then show ?case by (cases tx) (auto simp: denotes_Nil denotes_One fits_def)
next
  case (4 c re)
  then show ?case by (subst denotes_Many) simp
next
  case (5 c re t tx)
  then show ?case by (subst denotes_Many) (auto simp: fits_def)
qed (auto simp: denotes_Nil denotes_One fits_def)

lemma match_any_iff: "match_any re tx \<longleftrightarrow> (\<exists>pre suf. tx = pre @ suf \<and> matchhere re suf)"
proof (induction tx)
  case (Cons t tx)
  have "(\<exists>pre suf. t # tx = pre @ suf \<and> matchhere re suf) \<longleftrightarrow>
      matchhere re (t # tx) \<or> (\<exists>pre suf. tx = pre @ suf \<and> matchhere re suf)"
    by (auto simp: Cons_eq_append_conv)
  with Cons show ?case by simp
qed auto

text \<open>
  C17. The backtracking matcher of \<open>grep\<close> decides the language of the pattern: it accepts a line
  if and only if some part of it (from its start, for a pattern that begins with a caret;
  up to its end, for one that ends in a dollar sign) is a sequence of words of the items of the pattern.
\<close>

theorem match_correct:
  "match re tx \<longleftrightarrow>
     (if re \<noteq> [] \<and> hd re = CHR ''^'' then denotes (items (tl re)) (at_end (tl re)) tx
      else \<exists>pre suf. tx = pre @ suf \<and> denotes (items re) (at_end re) suf)"
  by (cases re) (simp_all add: match_def match_any_iff matchhere_denotes)


section \<open>The search of a stream\<close>

text \<open>What \<open>grep\<close> writes for a list of lines.\<close>

definition hits :: "string \<Rightarrow> string list \<Rightarrow> (int \<times> string) list" where
  "hits pattern ls = map (\<lambda>l. (1, l @ nl)) (filter (match pattern) ls)"

lemma hits_simps [simp]:
  "hits pattern [] = []"
  "hits pattern (l # ls) = (if match pattern l then [(1, l @ nl)] else []) @ hits pattern ls"
  "hits pattern (ls @ ls') = hits pattern ls @ hits pattern ls'"
  by (simp_all add: hits_def)









end
