(* ===== verification/Xargs.thy ===== *)
theory Xargs
  imports Uprintf Lines
begin

text \<open>
  \<^verbatim>\<open>user/xargs.c\<close>: for each line of the input, run the command with the line as its last argument.
\<close>

section \<open>The program\<close>





section \<open>What is run\<close>




lemma a_int_lits [simp]: "a_int (Ans 0 m) = 0" "a_int (Ans 1 m) = 1" "a_int (Ans 4 m) = 4"
  by (simp_all add: a_int_def)








end
