(* ===== verification/Coreutils.thy ===== *)
theory Coreutils
  imports Uprintf
begin

text \<open>
  The small user programs: \<open>cat\<close>, \<open>wc\<close>, \<open>echo\<close>, \<open>kill\<close>, \<open>ln\<close>, \<open>ls\<close>, \<open>mkdir\<close>, \<open>rm\<close>, \<open>sleep\<close>,
  \<open>zombie\<close>, \<open>init\<close>, \<open>pingpong\<close>, \<open>forktest\<close> and \<open>stressfs\<close> of \<^verbatim>\<open>user/\<close>. \<open>argv\<close> has \<^verbatim>\<open>argc\<close> elements;
  loops over the answers of the kernel take a bound on their number.
\<close>

section \<open>cat\<close>

definition cat_step :: "int \<Rightarrow> unit \<Rightarrow> (unit + int) uop" where
  "cat_step fd _ =
     ubnd (uread fd 512) (\<lambda>(n, d).
     if \<not> n > 0 then URet (Inr n) else
     ubnd (sys (Sys_write 1 d)) (\<lambda>w.
     if w \<noteq> n then useq (fprintf 2 (''cat: write error'' @ nl) []) (UExit 1)
     else URet (Inl ())))"

definition cat :: "nat \<Rightarrow> int \<Rightarrow> unit uop" where
  "cat fuel fd =
     ubnd (uloop fuel (cat_step fd) ()) (\<lambda>n.
     uwhen (n < 0) (useq (fprintf 2 (''cat: read error'' @ nl) []) (UExit 1)))"

definition cat_main :: "nat \<Rightarrow> string list \<Rightarrow> unit uop" where
  "cat_main fuel argv =
     (if length argv \<le> 1 then useq (cat fuel 0) (UExit 0)
      else useq (ufor (drop 1 argv) (\<lambda>f.
        ubnd (sys (Sys_open f 0)) (\<lambda>fd.
        if fd < 0 then useq (fprintf 2 (''cat: cannot open %s'' @ nl) [V_s f]) (UExit 1)
        else useq (cat fuel fd) (sysu (Sys_close fd)))))
       (UExit 0))"

section \<open>wc\<close>

record wc_st =
  wl :: i32
  ww :: i32
  wch :: i32
  inword :: bool

definition wc_space :: string where
  "wc_space = [CHR '' '', CHR 0x0D, CHR 0x09, CHR 0x0A, CHR 0x0B]"

definition wc_char :: "char \<Rightarrow> wc_st \<Rightarrow> wc_st" where
  "wc_char ch s =
     (let s = s\<lparr>wch := wch s + 1\<rparr>;
          s = (if ch = CHR 0x0A then s\<lparr>wl := wl s + 1\<rparr> else s)
      in if strchr wc_space ch \<noteq> None then s\<lparr>inword := False\<rparr>
         else if \<not> inword s then s\<lparr>ww := ww s + 1, inword := True\<rparr>
         else s)"

definition wc_step :: "int \<Rightarrow> wc_st \<Rightarrow> (wc_st + int \<times> wc_st) uop" where
  "wc_step fd s =
     ubnd (uread fd 512) (\<lambda>(n, d).
     URet (if \<not> n > 0 then Inr (n, s) else Inl (fold wc_char d s)))"

definition wc :: "nat \<Rightarrow> int \<Rightarrow> string \<Rightarrow> unit uop" where
  "wc fuel fd name =
     ubnd (uloop fuel (wc_step fd) \<lparr>wl = 0, ww = 0, wch = 0, inword = False\<rparr>) (\<lambda>(n, s).
     if n < 0 then useq (printf (''wc: read error'' @ nl) []) (UExit 1)
     else printf (''%d %d %d %s'' @ nl)
       [V_num (scast (wl s)), V_num (scast (ww s)), V_num (scast (wch s)), V_s name])"

definition wc_main :: "nat \<Rightarrow> string list \<Rightarrow> unit uop" where
  "wc_main fuel argv =
     (if length argv \<le> 1 then useq (wc fuel 0 []) (UExit 0)
      else useq (ufor (drop 1 argv) (\<lambda>f.
        ubnd (sys (Sys_open f 0)) (\<lambda>fd.
        if fd < 0 then useq (printf (''wc: cannot open %s'' @ nl) [V_s f]) (UExit 1)
        else useq (wc fuel fd f) (sysu (Sys_close fd)))))
       (UExit 0))"

section \<open>echo, kill, ln, mkdir, rm, sleep, zombie\<close>

fun echo_args :: "string list \<Rightarrow> unit uop" where
  "echo_args [] = URet ()"
| "echo_args (a # as) =
     ustmts
      [sysu (Sys_write 1 a),
       sysu (Sys_write 1 (if as \<noteq> [] then '' '' else nl)),
       echo_args as]"

definition echo_main :: "string list \<Rightarrow> unit uop" where
  "echo_main argv = useq (echo_args (drop 1 argv)) (UExit 0)"

definition kill_main :: "string list \<Rightarrow> unit uop" where
  "kill_main argv =
     (if length argv < 2 then useq (fprintf 2 (''usage: kill pid...'' @ nl) []) (UExit 1)
      else useq (ufor (drop 1 argv) (\<lambda>a. sysu (Sys_kill (sint (atoi a))))) (UExit 0))"

definition ln_main :: "string list \<Rightarrow> unit uop" where
  "ln_main argv =
     (if length argv \<noteq> 3 then useq (fprintf 2 (''Usage: ln old new'' @ nl) []) (UExit 1)
      else ubnd (sys (Sys_link (argv ! 1) (argv ! 2))) (\<lambda>r.
        useq (uwhen (r < 0) (fprintf 2 (''link %s %s: failed'' @ nl) [V_s (argv ! 1), V_s (argv ! 2)]))
        (UExit 0)))"

fun each_until_failure :: "(string \<Rightarrow> sysc) \<Rightarrow> string \<Rightarrow> string list \<Rightarrow> unit uop" where
  "each_until_failure call msg [] = URet ()"
| "each_until_failure call msg (a # as) =
     ubnd (sys (call a)) (\<lambda>r.
     if r < 0 then fprintf 2 msg [V_s a] else each_until_failure call msg as)"

definition mkdir_main :: "string list \<Rightarrow> unit uop" where
  "mkdir_main argv =
     (if length argv < 2 then useq (fprintf 2 (''Usage: mkdir files...'' @ nl) []) (UExit 1)
      else useq (each_until_failure Sys_mkdir (''mkdir: %s failed to create'' @ nl) (drop 1 argv)) (UExit 0))"

definition rm_main :: "string list \<Rightarrow> unit uop" where
  "rm_main argv =
     (if length argv < 2 then useq (fprintf 2 (''Usage: rm files...'' @ nl) []) (UExit 1)
      else useq (each_until_failure Sys_unlink (''rm: %s failed to delete'' @ nl) (drop 1 argv)) (UExit 0))"

definition sleep_main :: "string list \<Rightarrow> unit uop" where
  "sleep_main argv =
     (if length argv \<noteq> 2 then useq (fprintf 2 (''usage: sleep ticks'' @ nl) []) (UExit 1)
      else useq (sysu (Sys_sleep (atoi (argv ! 1)))) (UExit 0))"

definition zombie_main :: "unit uop" where
  "zombie_main =
     ubnd (sys Sys_fork) (\<lambda>pid.
     useq (uwhen (pid > 0) (sysu (Sys_sleep 5))) (UExit 0))"

section \<open>ls\<close>

definition DIRSIZ :: nat where
  "DIRSIZ = 14"

text \<open>\<^verbatim>\<open>struct dirent\<close> as read from a directory, its name cut at the first NUL.\<close>

definition dirent_inum :: "string \<Rightarrow> u16" where
  "dirent_inum d = ld16 (as_bytes d) 0"

definition dirent_name :: "string \<Rightarrow> string" where
  "dirent_name d = takeWhile (\<lambda>c. c \<noteq> NUL) (take DIRSIZ (drop 2 d))"

text \<open>The last component: what follows the last slash.\<close>

definition base_name :: "string \<Rightarrow> string" where
  "base_name path = rev (takeWhile (\<lambda>c. c \<noteq> CHR ''/'') (rev path))"

text \<open>
  The static buffer of 15 bytes starts zeroed and its last byte is never written, so the result is
  the name padded with blanks to \<open>DIRSIZ\<close>.
\<close>

definition fmtname :: "string \<Rightarrow> string" where
  "fmtname path =
     (let p = base_name path
      in if length p \<ge> DIRSIZ then p else p @ replicate (DIRSIZ - length p) CHR '' '')"

definition ls_entry :: "string \<Rightarrow> string \<Rightarrow> unit uop" where
  "ls_entry path de =
     (if dirent_inum de = 0 then URet () else
      let buf = path @ ''/'' @ dirent_name de in
      ubnd (stat buf) (\<lambda>(r, sb).
      if r < 0 then printf (''ls: cannot stat %s'' @ nl) [V_s buf] else
      let st = stat_of sb in
      printf (''%s %d %d %d'' @ nl)
        [V_s (fmtname buf), V_num (scast (st_type st)), V_num (ucast (st_ino st)), V_num (st_size st)]))"

definition ls_step :: "int \<Rightarrow> string \<Rightarrow> unit \<Rightarrow> (unit + unit) uop" where
  "ls_step fd path _ =
     ubnd (uread fd 16) (\<lambda>(n, de).
     if n \<noteq> 16 then URet (Inr ()) else useq (ls_entry path de) (URet (Inl ())))"

definition ls :: "nat \<Rightarrow> string \<Rightarrow> unit uop" where
  "ls fuel path =
     ubnd (sys (Sys_open path 0)) (\<lambda>fd.
     if fd < 0 then fprintf 2 (''ls: cannot open %s'' @ nl) [V_s path] else
     ubnd (sysm (Sys_fstat fd)) (\<lambda>(r, sb).
     if r < 0 then
       ustmts [fprintf 2 (''ls: cannot stat %s'' @ nl) [V_s path], sysu (Sys_close fd)]
     else
     let st = stat_of sb in
     useq
      (if st_type st = 3 \<or> st_type st = 2 then
         printf (''%s %d %d %l'' @ nl)
          [V_s (fmtname path), V_num (scast (st_type st)), V_num (ucast (st_ino st)), V_num (st_size st)]
       else if st_type st = 1 then
         (if length path + 1 + DIRSIZ + 1 > 512 then printf (''ls: path too long'' @ nl) []
          else uloop fuel (ls_step fd path) ())
       else URet ())
      (sysu (Sys_close fd))))"

definition ls_main :: "nat \<Rightarrow> string list \<Rightarrow> unit uop" where
  "ls_main fuel argv =
     (if length argv < 2 then useq (ls fuel ''.'') (UExit 0)
      else useq (ufor (drop 1 argv) (ls fuel)) (UExit 0))"

section \<open>init\<close>

definition init_wait :: "int \<Rightarrow> unit \<Rightarrow> (unit + unit) uop" where
  "init_wait pid _ =
     ubnd (sys Sys_wait) (\<lambda>wpid.
     if wpid = pid then URet (Inr ())
     else if wpid < 0 then useq (printf (''init: wait returned an error'' @ nl) []) (UExit 1)
     else URet (Inl ()))"

text \<open>One round: start a shell and wait for it; \<open>fuel\<close> bounds the orphans collected meanwhile.\<close>

definition init_round :: "nat \<Rightarrow> unit \<Rightarrow> (unit + unit) uop" where
  "init_round fuel _ =
     useq (printf (''init: starting sh'' @ nl) [])
     (ubnd (sys Sys_fork) (\<lambda>pid.
      if pid < 0 then useq (printf (''init: fork failed'' @ nl) []) (UExit 1)
      else if pid = 0 then
        useq (sysu (Sys_exec ''sh'' [''sh'']))
        (useq (printf (''init: exec sh failed'' @ nl) []) (UExit 1))
      else useq (uloop fuel (init_wait pid) ()) (URet (Inl ()))))"

definition init_main :: "nat \<Rightarrow> nat \<Rightarrow> unit uop" where
  "init_main fuel rounds =
     ubnd (sys (Sys_open ''console'' 2)) (\<lambda>r.
     ustmts
      [uwhen (r < 0) (ustmts [sysu (Sys_mknod ''console'' 1 0), sysu (Sys_open ''console'' 2)]),
       sysu (Sys_dup 0),
       sysu (Sys_dup 0),
       uloop rounds (init_round fuel) ()])"

section \<open>pingpong\<close>

text \<open>The two descriptors a \<open>pipe\<close> call stores; the array is uninitialised if it stores none.\<close>

definition pipe_fds :: "string \<Rightarrow> int \<times> int" where
  "pipe_fds m = (sint (ld32 (as_bytes m) 0), sint (ld32 (as_bytes m) 4))"

definition pingpong_main :: "unit uop" where
  "pingpong_main =
     ubnd (sysm Sys_pipe) (\<lambda>(_, m1).
     ubnd (sysm Sys_pipe) (\<lambda>(_, m2).
     let pipe1 = pipe_fds m1; pipe2 = pipe_fds m2 in
     ubnd (sys Sys_fork) (\<lambda>pid.
     useq
      (if pid > 0 then
         ustmts
          [sysu (Sys_write (snd pipe1) ''ping''),
           sysu (Sys_read (fst pipe2) 4),
           ubnd (sys Sys_getpid) (\<lambda>p. printf (''%d: received pong'' @ nl) [V_int p])]
       else
         ustmts
          [sysu (Sys_read (fst pipe1) 4),
           ubnd (sys Sys_getpid) (\<lambda>p. printf (''%d: received ping'' @ nl) [V_int p]),
           sysu (Sys_write (snd pipe2) ''pong'')])
      (UExit 0))))"

section \<open>forktest and stressfs\<close>

definition print :: "string \<Rightarrow> unit uop" where
  "print s = sysu (Sys_write 1 s)"

text \<open>The first loop forks until it fails; the result is \<open>n\<close>.\<close>

primrec forktest_forks :: "nat \<Rightarrow> nat \<Rightarrow> nat uop" where
  "forktest_forks 0 n = URet n"
| "forktest_forks (Suc k) n =
     ubnd (sys Sys_fork) (\<lambda>pid.
     if pid < 0 then URet n
     else if pid = 0 then UExit 0
     else forktest_forks k (n + 1))"

primrec forktest_waits :: "nat \<Rightarrow> unit uop" where
  "forktest_waits 0 = URet ()"
| "forktest_waits (Suc n) =
     ubnd (sys Sys_wait) (\<lambda>r.
     if r < 0 then useq (print (''wait stopped early'' @ nl)) (UExit 1) else forktest_waits n)"

definition forktest :: "unit uop" where
  "forktest =
     useq (print (''fork test'' @ nl))
     (ubnd (forktest_forks 1000 0) (\<lambda>n.
      if n = 1000 then useq (print (''fork claimed to work N times!'' @ nl)) (UExit 1) else
      useq (forktest_waits n)
      (ubnd (sys Sys_wait) (\<lambda>r.
       if r \<noteq> -1 then useq (print (''wait got too many'' @ nl)) (UExit 1)
       else print (''fork test OK'' @ nl)))))"

definition forktest_main :: "unit uop" where
  "forktest_main = useq forktest (UExit 0)"

primrec stressfs_forks :: "nat \<Rightarrow> nat \<Rightarrow> nat uop" where
  "stressfs_forks 0 i = URet i"
| "stressfs_forks (Suc k) i =
     ubnd (sys Sys_fork) (\<lambda>pid. if pid > 0 then URet i else stressfs_forks k (i + 1))"

definition stressfs_main :: "unit uop" where
  "stressfs_main =
     useq (printf (''stressfs starting'' @ nl) [])
     (ubnd (stressfs_forks 4 0) (\<lambda>i.
      let path = ''stressfs'' @ [char_of (of_char (CHR ''0'') + i :: nat)]; data = replicate 512 CHR ''a'' in
      useq (printf (''write %d'' @ nl) [V_int (int i)])
      (ubnd (sys (Sys_open path 0x202)) (\<lambda>fd.
       useq (ufor [0..<20] (\<lambda>_. sysu (Sys_write fd data)))
       (useq (sysu (Sys_close fd))
       (useq (printf (''read'' @ nl) [])
       (ubnd (sys (Sys_open path 0)) (\<lambda>fd.
        useq (ufor [0..<20] (\<lambda>_. sysu (Sys_read fd 512)))
        (useq (sysu (Sys_close fd))
        (useq (sysu Sys_wait)
        (UExit 0)))))))))))"


section \<open>What cat and wc do to a stream\<close>

lemma uread_512:
  assumes "pieces_ok (uin e fd)"
  obtains d ps where "urun (ustream other) (uread fd 512) e = (Returned (int (length d), d), e\<lparr>uin := (uin e)(fd := ps)\<rparr>)"
    "pieces_ok ps" "d @ concat ps = concat (uin e fd)" "length d \<le> 512"
    "d = [] \<Longrightarrow> ps = []" "d \<noteq> [] \<Longrightarrow> length (concat ps) < length (concat (uin e fd))"
proof -
  obtain d ps where np: "next_piece 512 (uin e fd) = (d, ps)" by fastforce
  from urun_ustream_read [of 512 e fd d ps] np next_piece_props [OF assms _ np] show thesis
    by (intro that [of d ps]) auto
qed

text \<open>
  C19. \<open>cat\<close> copies its input to the standard output unchanged and to the end, in whatever pieces
  the reads deliver it, and returns.
\<close>

theorem cat_copies:
  assumes "pieces_ok (uin e fd)" "length (concat (uin e fd)) < fuel"
  shows "\<exists>e'. urun (ustream other) (cat fuel fd) e = (Returned (), e') \<and>
     written 1 (uout e') = written 1 (uout e) @ concat (uin e fd) \<and> uin e' fd = []"
proof -
  let ?in = "concat (uin e fd)"
  let ?I = "\<lambda>(_ :: unit) (e' :: ufds). pieces_ok (uin e' fd) \<and> written 1 (uout e') @ concat (uin e' fd) = written 1 (uout e) @ ?in"
  let ?Q = "\<lambda>r (e' :: ufds). r = Returned 0 \<and> written 1 (uout e') = written 1 (uout e) @ ?in \<and> uin e' fd = []"
  have "\<exists>r e'. urun (ustream other) (uloop fuel (cat_step fd) ()) e = (r, e') \<and> ?Q r e'"
  proof (rule urun_uloop [where I = ?I and \<mu> = "\<lambda>_ e'. length (concat (uin e' fd))"])
    show "?I () e" using assms(1) by simp
    show "length ?in < fuel" by (rule assms(2))
    fix x e' assume I: "?I x e'"
    then obtain d ps where rd: "urun (ustream other) (uread fd 512) e' = (Returned (int (length d), d), e'\<lparr>uin := (uin e')(fd := ps)\<rparr>)"
      "pieces_ok ps" "d @ concat ps = concat (uin e' fd)" "length d \<le> 512"
      "d = [] \<Longrightarrow> ps = []" "d \<noteq> [] \<Longrightarrow> length (concat ps) < length (concat (uin e' fd))"
      using uread_512 by metis
    show "\<exists>r e''. urun (ustream other) (cat_step fd x) e' = (r, e'') \<and>
       (case r of Returned (Inl y) \<Rightarrow> ?I y e'' \<and> length (concat (uin e'' fd)) < length (concat (uin e' fd))
        | Returned (Inr a) \<Rightarrow> ?Q (Returned a) e'' | Exited c \<Rightarrow> ?Q (Exited c) e'' | _ \<Rightarrow> False)"
    proof (cases "d = []")
      case True
      then have "concat (uin e' fd) = []" using rd(3,5) by simp
      with True show ?thesis
        using rd(1,5) I by (simp add: cat_step_def urun_simps del: concat_eq_Nil_conv)
    next
      case False
      have "a_int (Ans (of_nat (length d)) []) = int (length d)" using rd(4) by (intro a_int_small) simp
      then have "urun (ustream other) (cat_step fd x) e' =
          (Returned (Inl ()), e'\<lparr>uin := (uin e')(fd := ps), uout := uout e' @ [(1, d)]\<rparr>)"
        using False rd(1) by (simp add: cat_step_def urun_simps)
      then show ?thesis using I rd(2,3) rd(6) [OF False] by simp
    qed
  qed
  then show ?thesis by (auto simp: cat_def urun_simps)
qed

theorem cat_copies_witness:
  "\<exists>e'. urun (ustream (\<lambda>_. Ans 0 [])) (cat 9 3) \<lparr>uin = (\<lambda>_. [''ab'', ''c'']), uout = []\<rparr> = (Returned (), e') \<and>
     written 1 (uout e') = ''abc''"
  using cat_copies [of "\<lparr>uin = (\<lambda>_. [''ab'', ''c'']), uout = []\<rparr>" 3 9 "\<lambda>_. Ans 0 []"]
  by (auto simp: pieces_ok_def)


text \<open>Counting: newlines, and the places where a word begins.\<close>

definition space :: "char \<Rightarrow> bool" where
  "space c \<longleftrightarrow> c \<in> {CHR '' '', CHR 0x0D, CHR 0x09, CHR 0x0A, CHR 0x0B}"

definition word_starts :: "string \<Rightarrow> nat set" where
  "word_starts s = {i. i < length s \<and> \<not> space (s ! i) \<and> (i = 0 \<or> space (s ! (i - 1)))}"

definition wc_of :: "string \<Rightarrow> wc_st" where
  "wc_of s = \<lparr>wl = of_nat (length (filter (\<lambda>c. c = CHR 0x0A) s)), ww = of_nat (card (word_starts s)),
     wch = of_nat (length s), inword = (s \<noteq> [] \<and> \<not> space (last s))\<rparr>"

lemma word_starts_snoc:
  "word_starts (s @ [c]) = word_starts s \<union> (if \<not> space c \<and> (s = [] \<or> space (last s)) then {length s} else {})"
proof (rule set_eqI)
  fix i
  show "i \<in> word_starts (s @ [c]) \<longleftrightarrow>
      i \<in> word_starts s \<union> (if \<not> space c \<and> (s = [] \<or> space (last s)) then {length s} else {})"
  proof (cases "i < length s")
    case True
    then show ?thesis by (auto simp: word_starts_def nth_append)
  next
    case False
    then show ?thesis
      by (cases "i = length s"; cases "s = []") (auto simp: word_starts_def nth_append last_conv_nth)
  qed
qed

lemma word_starts_filter:
  "word_starts s = set (filter (\<lambda>i. \<not> space (s ! i) \<and> (i = 0 \<or> space (s ! (i - 1)))) [0..<length s])"
  by (auto simp: word_starts_def)

lemma wc_char_of: "wc_char c (wc_of s) = wc_of (s @ [c])"
proof -
  have sp: "strchr wc_space c \<noteq> None \<longleftrightarrow> space c" by (auto simp: wc_space_def space_def)
  have "finite (word_starts s)" "length s \<notin> word_starts s" by (simp_all add: word_starts_def)
  then have "card (word_starts (s @ [c])) = card (word_starts s) + (if \<not> space c \<and> (s = [] \<or> space (last s)) then 1 else 0)"
    by (simp add: word_starts_snoc)
  then show ?thesis unfolding wc_char_def sp by (auto simp: wc_of_def Let_def)
qed

lemma wc_fold: "fold wc_char d (wc_of s) = wc_of (s @ d)"
  by (induction d arbitrary: s) (simp_all add: wc_char_of)

text \<open>
  C20. \<open>wc\<close> prints the numbers of newlines, words and bytes of its input, whichever pieces the
  reads deliver: words that span two reads are counted once. The counters are those of the
  machine, of 32 bits.
\<close>

theorem wc_counts:
  assumes "pieces_ok (uin e fd)" "length (concat (uin e fd)) < fuel"
  shows "\<exists>e'. urun (ustream other) (wc fuel fd name) e = (Returned (), e') \<and>
     (let s = concat (uin e fd) in
      written 1 (uout e') = written 1 (uout e) @
        printint (of_nat (length (filter (\<lambda>c. c = CHR 0x0A) s))) 10 True @ '' '' @
        printint (of_nat (card (word_starts s))) 10 True @ '' '' @
        printint (of_nat (length s)) 10 True @ '' '' @ name @ nl)"
proof -
  let ?in = "concat (uin e fd)"
  let ?I = "\<lambda>w (e' :: ufds). pieces_ok (uin e' fd) \<and> uout e' = uout e \<and> (\<exists>s. w = wc_of s \<and> s @ concat (uin e' fd) = ?in)"
  let ?Q = "\<lambda>r (e' :: ufds). r = Returned (0 :: int, wc_of ?in) \<and> uout e' = uout e"
  have 0: "\<lparr>wl = 0, ww = 0, wch = 0, inword = False\<rparr> = wc_of []" by (simp add: wc_of_def word_starts_def)
  have "\<exists>r e'. urun (ustream other) (uloop fuel (wc_step fd) (wc_of [])) e = (r, e') \<and> ?Q r e'"
  proof (rule urun_uloop [where I = ?I and \<mu> = "\<lambda>_ e'. length (concat (uin e' fd))"])
    show "?I (wc_of []) e" using assms(1) by (auto intro: exI [of _ "[]"])
    show "length ?in < fuel" by (rule assms(2))
    fix w e' assume I: "?I w e'"
    then obtain s where s: "w = wc_of s" "s @ concat (uin e' fd) = ?in" by blast
    from I obtain d ps where rd: "urun (ustream other) (uread fd 512) e' = (Returned (int (length d), d), e'\<lparr>uin := (uin e')(fd := ps)\<rparr>)"
      "pieces_ok ps" "d @ concat ps = concat (uin e' fd)" "length d \<le> 512"
      "d = [] \<Longrightarrow> ps = []" "d \<noteq> [] \<Longrightarrow> length (concat ps) < length (concat (uin e' fd))"
      using uread_512 by metis
    show "\<exists>r e''. urun (ustream other) (wc_step fd w) e' = (r, e'') \<and>
       (case r of Returned (Inl y) \<Rightarrow> ?I y e'' \<and> length (concat (uin e'' fd)) < length (concat (uin e' fd))
        | Returned (Inr a) \<Rightarrow> ?Q (Returned a) e'' | Exited c \<Rightarrow> ?Q (Exited c) e'' | _ \<Rightarrow> False)"
    proof (cases "d = []")
      case True
      then have "concat (uin e' fd) = []" using rd(3,5) by simp
      with True s show ?thesis
        using rd(1,5) I by (simp add: wc_step_def urun_simps del: concat_eq_Nil_conv)
    next
      case False
      then have "urun (ustream other) (wc_step fd w) e' = (Returned (Inl (wc_of (s @ d))), e'\<lparr>uin := (uin e')(fd := ps)\<rparr>)"
        using rd(1) by (simp add: wc_step_def urun_simps s(1) wc_fold)
      moreover have "(s @ d) @ concat ps = ?in" using s(2) rd(3) by simp
      ultimately show ?thesis using I rd(2) rd(6) [OF False] by (simp only: fst_conv snd_conv) auto
    qed
  qed
  then obtain e' where e': "urun (ustream other) (uloop fuel (wc_step fd) (wc_of [])) e = (Returned (0, wc_of ?in), e')"
    "uout e' = uout e" by blast
  have sc: "(ucast (scast x :: u64) :: i32) = x" for x :: i32
    by (rule bit_word_eqI) (auto simp: bit_simps)
  show ?thesis
    using e' by (simp add: wc_def 0 urun_simps printf_def vprintf_def convert_def out_num_def sc urun_puts Let_def)
      (simp add: wc_of_def)
qed

theorem wc_counts_witness:
  "\<exists>e'. urun (ustream (\<lambda>_. Ans 0 [])) (wc 20 3 ''f'') \<lparr>uin = (\<lambda>_. [''a b'', ''c'' @ nl]), uout = []\<rparr> = (Returned (), e') \<and>
     written 1 (uout e') = ''1 2 5 f'' @ nl"
proof -
  let ?s = "''a bc'' @ nl"
  have "word_starts ?s = {0, Suc (Suc 0)}" by (simp add: word_starts_filter upt_rec space_def)
  then have "card (word_starts ?s) = 2" by simp
  moreover have "printint 1 10 True = ''1''" "printint 2 10 True = ''2''" "printint 5 10 True = ''5''" by code_simp+
  ultimately show ?thesis
    using wc_counts [of "\<lparr>uin = (\<lambda>_. [''a b'', ''c'' @ nl]), uout = []\<rparr>" 3 20 "\<lambda>_. Ans 0 []" "''f''"]
    by (auto simp: pieces_ok_def Let_def)
qed

end
