(* ===== verification/Primes.thy ===== *)
theory Primes
  imports Coreutils
begin

text \<open>
  \<^verbatim>\<open>user/primes.c\<close>: the parent tests the numbers up to 35 by trial division and sends the primes
  through a pipe to the child, which prints them. The numbers are small enough for \<^verbatim>\<open>int\<close>
  arithmetic to be exact.
\<close>

section \<open>The program\<close>

function trial :: "nat \<Rightarrow> nat \<Rightarrow> bool" where
  "trial m n = (if n * n \<le> m then (if m mod n = 0 then False else trial m (n + 1)) else True)"
  by auto
termination
proof (relation "measure (\<lambda>(m, n). m + 1 - n)")
  fix m n :: nat assume "n * n \<le> m"
  moreover have "n \<le> n * n" by simp
  ultimately have "n \<le> m" by (rule order_trans [rotated])
  then show "((m, n + 1), m, n) \<in> measure (\<lambda>(m, n). m + 1 - n)" by simp
qed simp

declare trial.simps [simp del]

text \<open>The bytes of an \<^verbatim>\<open>int\<close> in memory.\<close>

definition le32 :: "i32 \<Rightarrow> string" where
  "le32 v = map (\<lambda>i. char_of (unat (ucast (drop_bit (8 * i) v) :: u8))) [0..<4]"

definition primes_send :: "int \<times> int \<Rightarrow> nat \<Rightarrow> unit uop" where
  "primes_send pipe1 m =
     uwhen (trial m 2)
      (ustmts [sysu (Sys_close (fst pipe1)), sysu (Sys_write (snd pipe1) (le32 (of_nat m)))])"

definition primes_receive :: "int \<times> int \<Rightarrow> unit \<Rightarrow> (unit + unit) uop" where
  "primes_receive pipe1 _ =
     ubnd (uread (fst pipe1) 4) (\<lambda>(n, d).
     if n \<noteq> 4 then URet (Inr ())
     else useq (printf (''prime %d'' @ nl) [V_num (scast (ld32 (as_bytes d) 0))]) (URet (Inl ())))"

definition primes_main :: "nat \<Rightarrow> unit uop" where
  "primes_main fuel =
     ubnd (sysm Sys_pipe) (\<lambda>(_, m).
     let pipe1 = pipe_fds m in
     ubnd (sys Sys_fork) (\<lambda>pid.
     ustmts
      [if pid > 0 then
         ustmts [ufor [2..<36] (primes_send pipe1), sysu (Sys_close (snd pipe1)), sysu Sys_wait]
       else if pid = 0 then
         ustmts [sysu (Sys_close (snd pipe1)), uloop fuel (primes_receive pipe1) ()]
       else URet (),
       sysu (Sys_close (fst pipe1)),
       UExit 0]))"

section \<open>Trial division\<close>

definition is_prime :: "nat \<Rightarrow> bool" where
  "is_prime m \<longleftrightarrow> 2 \<le> m \<and> (\<forall>k. 2 \<le> k \<and> k < m \<longrightarrow> \<not> k dvd m)"

lemma all_from_split: "(\<forall>k. n \<le> k \<longrightarrow> P k) \<longleftrightarrow> P n \<and> (\<forall>k. n + 1 \<le> k \<longrightarrow> P k)" for n :: nat
  by (metis Suc_eq_plus1 Suc_le_eq le_eq_less_or_eq)

lemma trial_iff: "0 < n \<Longrightarrow> trial m n \<longleftrightarrow> (\<forall>k. n \<le> k \<and> k * k \<le> m \<longrightarrow> \<not> k dvd m)"
proof (induction m n rule: trial.induct)
  case (1 m n)
  have step: "(\<forall>k. n \<le> k \<and> k * k \<le> m \<longrightarrow> \<not> k dvd m) \<longleftrightarrow>
      (n * n \<le> m \<longrightarrow> \<not> n dvd m) \<and> (\<forall>k. n + 1 \<le> k \<and> k * k \<le> m \<longrightarrow> \<not> k dvd m)"
    using all_from_split [of n "\<lambda>k. k * k \<le> m \<longrightarrow> \<not> k dvd m"] by blast
  show ?case
  proof (cases "n * n \<le> m")
    case True
    with 1 show ?thesis unfolding step by (subst trial.simps) (simp add: dvd_eq_mod_eq_0)
  next
    case False
    have "\<not> k * k \<le> m" if "n \<le> k" for k
      using mult_le_mono [OF that that] False by linarith
    with False show ?thesis by (subst trial.simps) auto
  qed
qed

lemma trial_prime:
  assumes "2 \<le> m"
  shows "trial m 2 \<longleftrightarrow> is_prime m"
proof -
  have "(\<exists>k. 2 \<le> k \<and> k * k \<le> m \<and> k dvd m) \<longleftrightarrow> (\<exists>k. 2 \<le> k \<and> k < m \<and> k dvd m)"
  proof
    assume "\<exists>k. 2 \<le> k \<and> k * k \<le> m \<and> k dvd m"
    then obtain k where k: "2 \<le> k" "k * k \<le> m" "k dvd m" by blast
    have "k < 2 * k" "2 * k \<le> k * k" using k(1) by simp_all
    with k show "\<exists>k. 2 \<le> k \<and> k < m \<and> k dvd m" by (intro exI [of _ k]) linarith
  next
    assume "\<exists>k. 2 \<le> k \<and> k < m \<and> k dvd m"
    then obtain k j where k: "2 \<le> k" "k < m" "m = k * j" by (auto elim: dvdE)
    then have j: "2 \<le> j" "j dvd m" by (cases "j = 0 \<or> j = 1"; auto)+
    show "\<exists>k. 2 \<le> k \<and> k * k \<le> m \<and> k dvd m"
    proof (cases "k \<le> j")
      case True
      then show ?thesis using k by (intro exI [of _ k]) simp
    next
      case False
      then show ?thesis using k j by (intro exI [of _ j]) simp
    qed
  qed
  then show ?thesis using assms by (auto simp: trial_iff is_prime_def)
qed

section \<open>The pipeline\<close>

lemma of_char_byte: "(of_char (char_of (unat w)) :: u8) = w" for w :: u8
proof -
  have "(of_char (char_of (unat w)) :: u8) = of_nat (of_char (char_of (unat w)))" by (simp only: of_nat_of_char)
  also have "\<dots> = of_nat (unat w mod 256)" by simp
  also have "unat w mod 256 = unat w" using unsigned_less [of w, where 'a = nat] by simp
  finally show ?thesis by simp
qed

lemma as_bytes_le32: "ld32 (as_bytes (le32 v)) 0 = v"
proof -
  have "ld32 (as_bytes (le32 v)) 0 = ld32 (st32 (\<lambda>_. 0) 0 v) 0"
    by (rule ld32_cong)
      (auto simp: as_bytes_def le32_def st32_def numeral_eq_Suc less_Suc_eq drop_bit_drop_bit of_char_byte
        simp del: of_char_of)
  then show ?thesis by simp
qed

lemma length_le32 [simp]: "length (le32 v) = 4"
  by (simp add: le32_def)

text \<open>The other calls of the two processes: \<open>fork\<close> answers \<open>pid\<close>, \<open>pipe\<close> stores the bytes \<open>m\<close>.\<close>

definition pkernel :: "u64 \<Rightarrow> string \<Rightarrow> sysc \<Rightarrow> answer" where
  "pkernel pid m c = (case c of Sys_fork \<Rightarrow> Ans pid [] | Sys_pipe \<Rightarrow> Ans 0 m | _ \<Rightarrow> Ans 0 [])"

lemma ustream_other [simp]:
  "ustream other e Sys_fork = (other Sys_fork, e)" "ustream other e Sys_pipe = (other Sys_pipe, e)"
  "ustream other e (Sys_close fd) = (other (Sys_close fd), e)" "ustream other e Sys_wait = (other Sys_wait, e)"
  by (simp_all add: ustream_def)

lemma primes_sent:
  "urun (ustream other) (ufor ms (primes_send p)) e =
    (Returned (), e\<lparr>uout := uout e @ map (\<lambda>m. (snd p, le32 (of_nat m))) (filter (\<lambda>m. trial m 2) ms)\<rparr>)"
  by (induction ms arbitrary: e) (simp_all add: primes_send_def urun_simps)

lemma primes_received:
  assumes "uin e (fst p) = map (\<lambda>m. le32 (of_nat m)) ms" "length ms < fuel"
  shows "\<exists>e'. urun (ustream other) (uloop fuel (primes_receive p) ()) e = (Returned (), e') \<and>
    written 1 (uout e') = written 1 (uout e) @ concat (map (\<lambda>m. ''prime '' @ printint (of_nat m) 10 True @ nl) ms)"
  using assms
proof (induction ms arbitrary: e fuel)
  case Nil
  then obtain n where "fuel = Suc n" by (cases fuel) auto
  moreover have "next_piece (nat 4) (uin e (fst p)) = ([], [])" using Nil by (simp add: next_piece_def)
  ultimately show ?case using urun_ustream_read [of 4 e "fst p" "[]" "[]" other]
    by (simp add: primes_receive_def urun_simps)
next
  case (Cons m ms)
  then obtain n where n: "fuel = Suc n" "length ms < n" by (cases fuel) auto
  let ?ps = "map (\<lambda>m. le32 (of_nat m)) ms"
  have np: "next_piece (nat 4) (uin e (fst p)) = (le32 (of_nat m), ?ps)" using Cons.prems(1) by (simp add: next_piece_def)
  let ?t = "''prime '' @ printint (of_nat m) 10 True @ nl"
  let ?e = "e\<lparr>uin := (uin e)(fst p := ?ps), uout := uout e @ map (\<lambda>c. (1, [c])) ?t\<rparr>"
  have "urun (ustream other) (uloop fuel (primes_receive p) ()) e = urun (ustream other) (uloop n (primes_receive p) ()) ?e"
    using urun_ustream_read [OF np]
    by (simp add: n(1) primes_receive_def urun_simps convert_def out_num_def as_bytes_le32)
  moreover from Cons.IH [of ?e n] n(2) obtain e' where "urun (ustream other) (uloop n (primes_receive p) ()) ?e = (Returned (), e')"
    "written 1 (uout e') = written 1 (uout ?e) @ concat (map (\<lambda>m. ''prime '' @ printint (of_nat m) 10 True @ nl) ms)"
    by auto
  ultimately show ?case by simp
qed

text \<open>The primes below 36.\<close>

definition primes35 :: "nat list" where
  "primes35 = filter is_prime [0..<36]"

lemma primes35_trial: "primes35 = filter (\<lambda>m. trial m 2) [2..<36]"
proof -
  have "[0..<36] = [0..<2] @ [2..<36]" using upt_add_eq_append [of 0 2 34] by (simp del: upt_rec_numeral)
  then have "primes35 = filter is_prime [0..<2] @ filter is_prime [2..<36]"
    unfolding primes35_def by (simp only: filter_append)
  also have "filter is_prime [0..<2] = []" by (auto simp: filter_empty_conv is_prime_def)
  also have "filter is_prime [2..<36] = filter (\<lambda>m. trial m 2) [2..<36]"
    by (intro filter_cong) (auto simp: trial_prime simp del: upt_rec_numeral)
  finally show ?thesis by (simp only: append_Nil)
qed

lemma primes35_length: "length primes35 \<le> 34"
  unfolding primes35_trial by (rule order_trans [OF length_filter_le]) (simp del: upt_rec_numeral)

text \<open>
  C22. \<open>primes\<close> prints the primes up to 35, each once and in order: the parent sends exactly
  these numbers, and the child, given what the parent sent, prints one line for each.
\<close>

theorem primes_prints_primes:
  assumes "0 < a_int (Ans pid [])" "35 < fuel" "uin e (fst (pipe_fds m)) = map (\<lambda>p. le32 (of_nat p)) primes35"
  shows "(\<exists>e'. urun (ustream (pkernel pid m)) (primes_main fuel) e = (Exited 0, e') \<and>
      uout e' = uout e @ map (\<lambda>p. (snd (pipe_fds m), le32 (of_nat p))) primes35) \<and>
    (\<exists>e'. urun (ustream (pkernel 0 m)) (primes_main fuel) e = (Exited 0, e') \<and>
      written 1 (uout e') = written 1 (uout e) @
        concat (map (\<lambda>p. ''prime '' @ printint (of_nat p) 10 True @ nl) primes35))"
proof
  show "\<exists>e'. urun (ustream (pkernel pid m)) (primes_main fuel) e = (Exited 0, e') \<and>
      uout e' = uout e @ map (\<lambda>p. (snd (pipe_fds m), le32 (of_nat p))) primes35"
    using assms(1) by (simp add: primes_main_def urun_simps pkernel_def Let_def primes_sent primes35_trial
        del: upt_rec_numeral)
  have l: "length primes35 < fuel" using assms(2) primes35_length by linarith
  have z: "a_int (Ans 0 []) = 0" by (simp add: a_int_def)
  from primes_received [OF assms(3) l, of "pkernel 0 m"] show "\<exists>e'. urun (ustream (pkernel 0 m)) (primes_main fuel) e = (Exited 0, e') \<and>
      written 1 (uout e') = written 1 (uout e) @
        concat (map (\<lambda>p. ''prime '' @ printint (of_nat p) 10 True @ nl) primes35)"
    by (elim exE conjE) (simp add: primes_main_def urun_simps pkernel_def Let_def z del: upt_rec_numeral)
qed

theorem primes_prints_primes_witness:
  "\<exists>e'. urun (ustream (pkernel 0 (le32 3 @ le32 4))) (primes_main 36)
      \<lparr>uin = (\<lambda>_. map (\<lambda>p. le32 (of_nat p)) primes35), uout = []\<rparr> = (Exited 0, e') \<and>
     written 1 (uout e') = concat (map (\<lambda>p. ''prime '' @ printint (of_nat p) 10 True @ nl) primes35)"
  using primes_prints_primes [of 7 36 "\<lparr>uin = (\<lambda>_. map (\<lambda>p. le32 (of_nat p)) primes35), uout = []\<rparr>" "le32 3 @ le32 4"]
  by (simp add: a_int_def)

end
