(* ===== verification/Sh.thy ===== *)
theory Sh
  imports Uprintf Coreutils
begin

text \<open>
  The shell, \<^verbatim>\<open>user/sh.c\<close>: the parser, the pass that ends the words in the line buffer with NULs, and the
  interpreter. A pointer into the line is the part of the line that starts there, so the end of the
  line, \<^verbatim>\<open>es\<close>, is the empty list. The parser stops with a message where the source calls
  \<open>panic\<close>; \<open>malloc\<close> is taken to succeed.
\<close>

section \<open>Commands\<close>

type_synonym ptr = string

datatype cmd =
    EXEC "(ptr \<times> ptr) list"
  | REDIR cmd ptr ptr i32 int
  | PIPE cmd cmd
  | LIST cmd cmd
  | BACK cmd

abbreviation MAXARGS :: nat where
  "MAXARGS \<equiv> 10"

section \<open>Tokens\<close>

definition whitespace :: string where
  "whitespace = [CHR '' '', CHR 0x09, CHR 0x0D, CHR 0x0A, CHR 0x0B]"

definition symbols :: string where
  "symbols = ''<|>&;()''"

primrec skip :: "ptr \<Rightarrow> ptr" where
  "skip [] = []"
| "skip (c # s) = (if strchr whitespace c \<noteq> None then skip s else c # s)"

primrec word_end :: "ptr \<Rightarrow> ptr" where
  "word_end [] = []"
| "word_end (c # s) =
     (if strchr whitespace c = None \<and> strchr symbols c = None then word_end s else c # s)"

text \<open>The token at the first character that is no white space, and where it ends.\<close>

definition token_at :: "ptr \<Rightarrow> char \<times> ptr" where
  "token_at q = (case q of
     [] \<Rightarrow> (NUL, [])
   | c # r \<Rightarrow>
       if c \<in> set ''|();&<'' then (c, r)
       else if c = CHR ''>'' then
         (if r \<noteq> [] \<and> hd r = CHR ''>'' then (CHR ''+'', tl r) else (c, r))
       else (CHR ''a'', word_end q))"

definition gettoken :: "ptr \<Rightarrow> char \<times> ptr \<times> ptr \<times> ptr" where
  "gettoken ps =
     (let q = skip ps; (ret, eq) = token_at q
      in (ret, q, eq, skip eq))"

definition peek :: "ptr \<Rightarrow> string \<Rightarrow> bool \<times> ptr" where
  "peek ps toks = (let s = skip ps in (s \<noteq> [] \<and> strchr toks (hd s) \<noteq> None, s))"

section \<open>The parser\<close>

datatype 'a pres = POk 'a | PPanic string | PFuel

primrec pbind :: "'a pres \<Rightarrow> ('a \<Rightarrow> 'b pres) \<Rightarrow> 'b pres" where
  "pbind (POk a) f = f a"
| "pbind (PPanic m) f = PPanic m"
| "pbind PFuel f = PFuel"

type_synonym redir = "ptr \<times> ptr \<times> i32 \<times> int"

definition add_redirs :: "redir list \<Rightarrow> cmd \<Rightarrow> cmd" where
  "add_redirs rs c = fold (\<lambda>(q, eq, mode, fd) c. REDIR c q eq mode fd) rs c"

text \<open>
  \<open>parseredirs\<close> gives the redirections it reads; the caller puts them around its command. In
  \<open>parseexec\<close> the arguments are stored into the innermost command meanwhile.
\<close>

primrec parseredirs :: "nat \<Rightarrow> redir list \<Rightarrow> ptr \<Rightarrow> (redir list \<times> ptr) pres" where
  "parseredirs 0 rs ps = PFuel"
| "parseredirs (Suc n) rs ps =
     (case peek ps ''<>'' of (b, ps) \<Rightarrow>
      if \<not> b then POk (rs, ps) else
      case gettoken ps of (tok, _, _, ps) \<Rightarrow>
      case gettoken ps of (t, q, eq, ps) \<Rightarrow>
      if t \<noteq> CHR ''a'' then PPanic ''missing file for redirection''
      else parseredirs n
        (rs @ (if tok = CHR ''<'' then [(q, eq, 0, 0)]
               else if tok = CHR ''>'' then [(q, eq, 0x601, 1)]
               else if tok = CHR ''+'' then [(q, eq, 0x201, 1)] else []))
        ps)"

primrec parseargs :: "nat \<Rightarrow> (ptr \<times> ptr) list \<Rightarrow> redir list \<Rightarrow> ptr \<Rightarrow> (cmd \<times> ptr) pres" where
  "parseargs 0 args rs ps = PFuel"
| "parseargs (Suc n) args rs ps =
     (case peek ps ''|)&;'' of (b, ps) \<Rightarrow>
      if b then POk (add_redirs rs (EXEC args), ps) else
      case gettoken ps of (tok, q, eq, ps) \<Rightarrow>
      if tok = NUL then POk (add_redirs rs (EXEC args), ps)
      else if tok \<noteq> CHR ''a'' then PPanic ''syntax''
      else if length args + 1 \<ge> MAXARGS then PPanic ''too many args''
      else pbind (parseredirs n rs ps) (\<lambda>(rs, ps). parseargs n (args @ [(q, eq)]) rs ps))"

primrec parseamps :: "nat \<Rightarrow> cmd \<Rightarrow> ptr \<Rightarrow> (cmd \<times> ptr) pres" where
  "parseamps 0 c ps = PFuel"
| "parseamps (Suc n) c ps =
     (case peek ps ''&'' of (b, ps) \<Rightarrow>
      if \<not> b then POk (c, ps) else
      case gettoken ps of (_, _, _, ps) \<Rightarrow> parseamps n (BACK c) ps)"

fun parseline :: "nat \<Rightarrow> ptr \<Rightarrow> (cmd \<times> ptr) pres"
  and parsepipe :: "nat \<Rightarrow> ptr \<Rightarrow> (cmd \<times> ptr) pres"
  and parseblock :: "nat \<Rightarrow> ptr \<Rightarrow> (cmd \<times> ptr) pres"
  and parseexec :: "nat \<Rightarrow> ptr \<Rightarrow> (cmd \<times> ptr) pres" where
  "parseline 0 ps = PFuel"
| "parseline (Suc n) ps =
     pbind (parsepipe n ps) (\<lambda>(c, ps).
     pbind (parseamps n c ps) (\<lambda>(c, ps).
     case peek ps '';'' of (b, ps) \<Rightarrow>
     if \<not> b then POk (c, ps) else
     case gettoken ps of (_, _, _, ps) \<Rightarrow>
     pbind (parseline n ps) (\<lambda>(r, ps). POk (LIST c r, ps))))"
| "parsepipe 0 ps = PFuel"
| "parsepipe (Suc n) ps =
     pbind (parseexec n ps) (\<lambda>(c, ps).
     case peek ps ''|'' of (b, ps) \<Rightarrow>
     if \<not> b then POk (c, ps) else
     case gettoken ps of (_, _, _, ps) \<Rightarrow>
     pbind (parsepipe n ps) (\<lambda>(r, ps). POk (PIPE c r, ps)))"
| "parseblock 0 ps = PFuel"
| "parseblock (Suc n) ps =
     (case peek ps ''('' of (b, ps) \<Rightarrow>
      if \<not> b then PPanic ''parseblock'' else
      case gettoken ps of (_, _, _, ps) \<Rightarrow>
      pbind (parseline n ps) (\<lambda>(c, ps).
      case peek ps '')'' of (b, ps) \<Rightarrow>
      if \<not> b then PPanic ''syntax - missing )'' else
      case gettoken ps of (_, _, _, ps) \<Rightarrow>
      pbind (parseredirs n [] ps) (\<lambda>(rs, ps). POk (add_redirs rs c, ps))))"
| "parseexec 0 ps = PFuel"
| "parseexec (Suc n) ps =
     (case peek ps ''('' of (b, ps) \<Rightarrow>
      if b then parseblock n ps
      else pbind (parseredirs n [] ps) (\<lambda>(rs, ps). parseargs n [] rs ps))"

text \<open>The message for left-over input is printed before \<open>panic\<close>; it is part of the result here.\<close>

definition parsecmd :: "nat \<Rightarrow> string \<Rightarrow> cmd pres" where
  "parsecmd fuel s =
     pbind (parseline fuel s) (\<lambda>(c, ps).
     case peek ps [] of (_, ps) \<Rightarrow>
     if ps \<noteq> [] then PPanic ''syntax'' else POk c)"

section \<open>Ending the words\<close>

text \<open>\<open>buf\<close> is the line with its NUL, \<open>n\<close> its length without; a word ends where \<^verbatim>\<open>eq\<close> points.\<close>

definition put_nul :: "nat \<Rightarrow> ptr \<Rightarrow> string \<Rightarrow> string" where
  "put_nul n eq buf = buf[n - length eq := NUL]"

primrec nulterminate :: "nat \<Rightarrow> cmd \<Rightarrow> string \<Rightarrow> string" where
  "nulterminate n (EXEC args) buf = fold (\<lambda>(q, eq). put_nul n eq) args buf"
| "nulterminate n (REDIR c q eq mode fd) buf = put_nul n eq (nulterminate n c buf)"
| "nulterminate n (PIPE l r) buf = nulterminate n r (nulterminate n l buf)"
| "nulterminate n (LIST l r) buf = nulterminate n r (nulterminate n l buf)"
| "nulterminate n (BACK c) buf = nulterminate n c buf"

text \<open>The C string a pointer into the line denotes.\<close>

definition deref :: "nat \<Rightarrow> string \<Rightarrow> ptr \<Rightarrow> string" where
  "deref n buf q = cstring (drop (n - length q) buf)"

section \<open>The interpreter\<close>

definition sh_panic :: "string \<Rightarrow> 'a uop" where
  "sh_panic s = useq (fprintf 2 (''%s'' @ nl) [V_s s]) (UExit 1)"

definition fork1 :: "int uop" where
  "fork1 = ubnd (sys Sys_fork) (\<lambda>pid. if pid = -1 then sh_panic ''fork'' else URet pid)"

text \<open>\<open>rd\<close> reads the string at a pointer. The program never returns from \<open>runcmd\<close>.\<close>

primrec runcmd :: "(ptr \<Rightarrow> string) \<Rightarrow> cmd \<Rightarrow> unit uop" where
  "runcmd rd (EXEC args) =
     (if args = [] then UExit 1 else
      let argv = map (\<lambda>(q, eq). rd q) args in
      ustmts
       [sysu (Sys_exec (hd argv) argv),
        fprintf 2 (''exec %s failed'' @ nl) [V_s (hd argv)],
        UExit 0])"
| "runcmd rd (REDIR c q eq mode fd) =
     useq (sysu (Sys_close fd))
     (ubnd (sys (Sys_open (rd q) mode)) (\<lambda>r.
      if r < 0 then useq (fprintf 2 (''open %s failed'' @ nl) [V_s (rd q)]) (UExit 1)
      else useq (runcmd rd c) (UExit 0)))"
| "runcmd rd (LIST l r) =
     ubnd fork1 (\<lambda>pid.
     ustmts
      [uwhen (pid = 0) (runcmd rd l),
       sysu Sys_wait,
       runcmd rd r,
       UExit 0])"
| "runcmd rd (PIPE l r) =
     ubnd (sysm Sys_pipe) (\<lambda>(x, m).
     if x < 0 then sh_panic ''pipe'' else
     let p = pipe_fds m in
     ubnd fork1 (\<lambda>pid.
     useq (uwhen (pid = 0)
       (ustmts
         [sysu (Sys_close 1), sysu (Sys_dup (snd p)), sysu (Sys_close (fst p)), sysu (Sys_close (snd p)),
          runcmd rd l]))
     (ubnd fork1 (\<lambda>pid.
     ustmts
      [uwhen (pid = 0)
        (ustmts
          [sysu (Sys_close 0), sysu (Sys_dup (fst p)), sysu (Sys_close (fst p)), sysu (Sys_close (snd p)),
           runcmd rd r]),
       sysu (Sys_close (fst p)),
       sysu (Sys_close (snd p)),
       sysu Sys_wait,
       sysu Sys_wait,
       UExit 0]))))"
| "runcmd rd (BACK c) =
     ubnd fork1 (\<lambda>pid. useq (uwhen (pid = 0) (runcmd rd c)) (UExit 0))"

definition getcmd :: "(int \<times> string) uop" where
  "getcmd =
     useq (sysu (Sys_write 2 ''$ ''))
     (ubnd (gets 100) (\<lambda>buf.
      URet (if cstring buf = [] then -1 else 0, cstring buf)))"

text \<open>
  The child of the main loop: parse the line and run it. The stray input is printed before the
  message of \<open>panic\<close>.
\<close>

definition sh_run_line :: "string \<Rightarrow> unit uop" where
  "sh_run_line s = (case parsecmd (4 * length s + 10) s of
     PFuel \<Rightarrow> UFuel
   | PPanic m \<Rightarrow>
       useq (case parseline (4 * length s + 10) s of
               POk (_, ps) \<Rightarrow> fprintf 2 (''leftovers: %s'' @ nl) [V_s (skip ps)]
             | _ \<Rightarrow> URet ())
       (sh_panic m)
   | POk c \<Rightarrow> runcmd (deref (length s) (nulterminate (length s) c (s @ [NUL]))) c)"

definition sh_step :: "unit \<Rightarrow> (unit + unit) uop" where
  "sh_step _ =
     ubnd getcmd (\<lambda>(r, buf).
     if r < 0 then URet (Inr ())
     else if take 3 buf = ''cd '' then
       let dir = drop 3 (butlast buf) in
       ubnd (sys (Sys_chdir dir)) (\<lambda>r.
       useq (uwhen (r < 0) (fprintf 2 (''cannot cd %s'' @ nl) [V_s dir]))
       (URet (Inl ())))
     else
       ubnd fork1 (\<lambda>pid.
       useq (ustmts [uwhen (pid = 0) (sh_run_line buf), sysu Sys_wait]) (URet (Inl ()))))"


definition sh_console :: "unit \<Rightarrow> (unit + unit) uop" where
  "sh_console _ =
     ubnd (sys (Sys_open ''console'' 2)) (\<lambda>fd.
     if \<not> fd \<ge> 0 then URet (Inr ())
     else if fd \<ge> 3 then useq (sysu (Sys_close fd)) (URet (Inr ()))
     else URet (Inl ()))"

definition sh_main :: "nat \<Rightarrow> unit uop" where
  "sh_main fuel = ustmts [uloop fuel sh_console (), uloop fuel sh_step (), UExit 0]"

section \<open>The parser returns\<close>

lemma skip_length: "length (skip s) \<le> length s"
  by (induction s) auto

lemma word_end_length: "length (word_end s) \<le> length s"
  by (induction s) auto

lemma skip_skip [simp]: "skip (skip s) = skip s"
  by (induction s) auto

lemma skip_hd: "skip s = c # r \<Longrightarrow> strchr whitespace c = None"
  by (induction s) (auto split: if_splits)

lemma token_at_length: "skip s \<noteq> [] \<Longrightarrow> length (snd (token_at (skip s))) < length (skip s)"
proof -
  assume "skip s \<noteq> []"
  then obtain c r where q: "skip s = c # r" by (cases "skip s") auto
  show ?thesis
    using skip_hd [OF q] word_end_length [of r] by (auto simp: q token_at_def symbols_def less_Suc_eq_le)
qed

lemma gettoken_length:
  assumes "gettoken ps = (t, q, eq, ps')"
  shows "length ps' \<le> length ps" "skip ps \<noteq> [] \<Longrightarrow> length ps' < length ps" "t \<noteq> NUL \<Longrightarrow> length ps' < length ps"
proof -
  have g: "q = skip ps" "eq = snd (token_at q)" "t = fst (token_at q)" "ps' = skip eq"
    using assms by (auto simp: gettoken_def Let_def split: prod.splits)
  show lt: "length ps' < length ps" if "skip ps \<noteq> []"
    using that token_at_length [of ps] skip_length [of ps] skip_length [of eq] by (simp add: g)
  show "length ps' \<le> length ps"
    using lt by (cases "skip ps = []") (simp_all add: g token_at_def)
  show "t \<noteq> NUL \<Longrightarrow> length ps' < length ps"
    using lt by (cases "skip ps = []") (simp_all add: g token_at_def)
qed

lemma peek_length:
  assumes "peek ps toks = (b, ps')"
  shows "length ps' \<le> length ps" "b \<Longrightarrow> skip ps' \<noteq> []" "ps' = skip ps"
  using assms skip_length [of ps] by (auto simp: peek_def Let_def)

text \<open>What a parser with enough fuel does: it returns, and not behind where it started.\<close>

definition returns :: "('a \<times> ptr) pres \<Rightarrow> ptr \<Rightarrow> bool" where
  "returns r ps = (case r of POk (_, ps') \<Rightarrow> length ps' \<le> length ps | PPanic _ \<Rightarrow> True | PFuel \<Rightarrow> False)"

lemma returns_simps [simp]:
  "returns (POk (a, ps')) ps = (length ps' \<le> length ps)" "returns (PPanic m) ps" "\<not> returns PFuel ps"
  by (simp_all add: returns_def)

lemma returns_le: "returns r ps' \<Longrightarrow> length ps' \<le> length ps \<Longrightarrow> returns r ps"
  by (auto simp: returns_def split: pres.splits)

lemma returns_bind:
  assumes "returns r ps'" "length ps' \<le> length ps" "\<And>a ps''. length ps'' \<le> length ps' \<Longrightarrow> returns (f a ps'') ps"
  shows "returns (pbind r (\<lambda>(a, ps). f a ps)) ps"
proof (cases r)
  case (POk a)
  then show ?thesis using assms by (cases a) simp
qed (use assms in simp_all)

lemma returns_token:
  assumes "\<And>ps1. length ps1 \<le> length ps \<Longrightarrow> returns (N ps1) ps0"
    and "\<And>ps2. length ps2 < length ps \<Longrightarrow> returns (Y ps2) ps0"
  shows "returns (case peek ps toks of (b, ps1) \<Rightarrow> if \<not> b then N ps1 else
     case gettoken ps1 of (_, _, _, ps2) \<Rightarrow> Y ps2) ps0"
proof -
  obtain b ps1 where p: "peek ps toks = (b, ps1)" by fastforce
  obtain t q e ps2 where g: "gettoken ps1 = (t, q, e, ps2)" by (cases "gettoken ps1")
  note l = peek_length [OF p] gettoken_length [OF g]
  show ?thesis
  proof (cases b)
    case True
    then have "length ps2 < length ps" using l(1) l(5) [OF l(2) [OF True]] by linarith
    then show ?thesis using True assms(2) by (simp add: p g)
  next
    case False
    then show ?thesis using l(1) assms(1) by (simp add: p)
  qed
qed

lemma parseredirs_returns: "length ps < n \<Longrightarrow> returns (parseredirs n rs ps) ps"
proof (induction n arbitrary: rs ps)
  case (Suc n)
  obtain b ps1 where p: "peek ps ''<>'' = (b, ps1)" by fastforce
  obtain t1 q1 e1 ps2 where g1: "gettoken ps1 = (t1, q1, e1, ps2)" by (cases "gettoken ps1")
  obtain t2 q2 e2 ps3 where g2: "gettoken ps2 = (t2, q2, e2, ps3)" by (cases "gettoken ps2")
  note l = peek_length [OF p] gettoken_length [OF g1] gettoken_length [OF g2]
  show ?case
  proof (cases b)
    case True
    have lt: "length ps3 < length ps" using l(1) l(5) [OF l(2) [OF True]] l(7) by linarith
    then have "returns (parseredirs n r ps3) ps" for r
      using Suc.prems by (intro returns_le [OF Suc.IH]) simp_all
    then show ?thesis using True by (simp add: p g1 g2 del: not_None_eq)
  next
    case False
    then show ?thesis using l(1) by (simp add: p)
  qed
qed simp

lemma parseargs_returns: "length ps + 1 < n \<Longrightarrow> returns (parseargs n args rs ps) ps"
proof (induction n arbitrary: args rs ps)
  case (Suc n)
  obtain b ps1 where p: "peek ps ''|)&;'' = (b, ps1)" by fastforce
  obtain t q e ps2 where g: "gettoken ps1 = (t, q, e, ps2)" by (cases "gettoken ps1")
  note l = peek_length [OF p] gettoken_length [OF g]
  show ?case
  proof (cases "b \<or> t = NUL")
    case True
    then show ?thesis using l(1,4) by (auto simp: p g)
  next
    case False
    then have lt: "length ps2 < length ps" using l(1) l(6) by linarith
    have "returns (pbind (parseredirs n rs ps2) (\<lambda>(rs, ps). parseargs n (args @ [(q, e)]) rs ps)) ps"
    proof (rule returns_bind)
      show "returns (parseredirs n rs ps2) ps2" using lt Suc.prems by (intro parseredirs_returns) simp
      show "length ps2 \<le> length ps" using lt by simp
      show "length ps3 \<le> length ps2 \<Longrightarrow> returns (parseargs n (args @ [(q, e)]) a ps3) ps" for a ps3
        using lt Suc.prems by (intro returns_le [OF Suc.IH]) simp_all
    qed
    with False show ?thesis by (simp add: p g)
  qed
qed simp

lemma parseamps_returns: "length ps < n \<Longrightarrow> returns (parseamps n c ps) ps"
proof (induction n arbitrary: c ps)
  case (Suc n)
  show ?case
    unfolding parseamps.simps using Suc.prems
    by (intro returns_token) (auto intro: returns_le [OF Suc.IH])
qed simp

lemma parse_returns:
  "(4 * length ps + 6 \<le> n \<longrightarrow> returns (parseline n ps) ps) \<and>
   (4 * length ps + 5 \<le> n \<longrightarrow> returns (parsepipe n ps) ps) \<and>
   (4 * length ps + 3 \<le> n \<longrightarrow> returns (parseblock n ps) ps) \<and>
   (4 * length ps + 4 \<le> n \<longrightarrow> returns (parseexec n ps) ps)"
proof (induction n arbitrary: ps)
  case 0
  then show ?case by simp
next
  case (Suc n)
  have line: "returns (parseline n p) ps" if "4 * length p + 6 \<le> n" "length p \<le> length ps" for p
    using Suc that by (blast intro: returns_le)
  have pipe: "returns (parsepipe n p) ps" if "4 * length p + 5 \<le> n" "length p \<le> length ps" for p
    using Suc that by (blast intro: returns_le)
  have block: "returns (parseblock n p) ps" if "4 * length p + 3 \<le> n" "length p \<le> length ps" for p
    using Suc that by (blast intro: returns_le)
  have exec: "returns (parseexec n p) ps" if "4 * length p + 4 \<le> n" "length p \<le> length ps" for p
    using Suc that by (blast intro: returns_le)
  show ?case
  proof (intro conjI impI)
    assume n: "4 * length ps + 6 \<le> Suc n"
    show "returns (parseline (Suc n) ps) ps"
      unfolding parseline.simps
      by (rule returns_bind [OF pipe]; (rule returns_bind [OF parseamps_returns])?; (rule returns_token)?;
          (rule returns_bind [OF line])?; use n in simp)
  next
    assume n: "4 * length ps + 5 \<le> Suc n"
    show "returns (parsepipe (Suc n) ps) ps"
      unfolding parsepipe.simps
      by (rule returns_bind [OF exec]; (rule returns_token)?; (rule returns_bind [OF pipe])?; use n in simp)
  next
    assume n: "4 * length ps + 3 \<le> Suc n"
    show "returns (parseblock (Suc n) ps) ps"
      unfolding parseblock.simps
      by (rule returns_token; (rule returns_bind [OF line])?; (rule returns_token)?;
          (rule returns_bind [OF parseredirs_returns])?; use n in simp)
  next
    assume n: "4 * length ps + 4 \<le> Suc n"
    obtain b ps1 where p: "peek ps ''('' = (b, ps1)" by fastforce
    note l = peek_length(1) [OF p]
    have "returns (parseblock n ps1) ps" using n l by (intro block) simp_all
    moreover have "returns (pbind (parseredirs n [] ps1) (\<lambda>(rs, ps). parseargs n [] rs ps)) ps"
      using n l by (intro returns_bind [OF parseredirs_returns] returns_le [OF parseargs_returns]) simp_all
    ultimately show "returns (parseexec (Suc n) ps) ps" by (simp add: p)
  qed
qed

text \<open>
  C23. The parser of the shell returns for every line: with the fuel it is given it ends with a
  command or with a message, however the line is written.
\<close>

theorem parsecmd_returns: "parsecmd (4 * length s + 10) s \<noteq> PFuel"
proof -
  have "returns (parseline (4 * length s + 10) s) s" using parse_returns [of s "4 * length s + 10"] by simp
  then show ?thesis by (auto simp: parsecmd_def returns_def split: pres.splits prod.splits)
qed

end
