(* ===== verification/Shparse.thy ===== *)
theory Shparse
  imports Sh
begin

text \<open>
  The language of the shell: every command can be written as a line, and the parser reads that line
  as the command.
\<close>

section \<open>Commands with their words\<close>

datatype scmd =
    S_exec "string list"
  | S_redir scmd string i32 int
  | S_pipe scmd scmd
  | S_list scmd scmd
  | S_back scmd

definition word_of :: "ptr \<times> ptr \<Rightarrow> string" where
  "word_of w = take (length (fst w) - length (snd w)) (fst w)"

primrec shape :: "cmd \<Rightarrow> scmd" where
  "shape (EXEC args) = S_exec (map word_of args)"
| "shape (REDIR c q eq mode fd) = S_redir (shape c) (word_of (q, eq)) mode fd"
| "shape (PIPE l r) = S_pipe (shape l) (shape r)"
| "shape (LIST l r) = S_list (shape l) (shape r)"
| "shape (BACK c) = S_back (shape c)"

definition plain :: "char \<Rightarrow> bool" where
  "plain c \<longleftrightarrow> c \<noteq> NUL \<and> strchr whitespace c = None \<and> strchr symbols c = None"

definition word :: "string \<Rightarrow> bool" where
  "word w \<longleftrightarrow> w \<noteq> [] \<and> list_all plain w"

definition redir_sign :: "i32 \<Rightarrow> int \<Rightarrow> string option" where
  "redir_sign mode fd =
     (if mode = 0 \<and> fd = 0 then Some ''<''
      else if mode = 0x601 \<and> fd = 1 then Some ''>''
      else if mode = 0x201 \<and> fd = 1 then Some ''>>'' else None)"

primrec well_formed :: "scmd \<Rightarrow> bool" where
  "well_formed (S_exec ws) \<longleftrightarrow> list_all word ws \<and> length ws < MAXARGS"
| "well_formed (S_redir c f mode fd) \<longleftrightarrow> well_formed c \<and> word f \<and> redir_sign mode fd \<noteq> None"
| "well_formed (S_pipe l r) \<longleftrightarrow> well_formed l \<and> well_formed r"
| "well_formed (S_list l r) \<longleftrightarrow> well_formed l \<and> well_formed r"
| "well_formed (S_back c) \<longleftrightarrow> well_formed c"

section \<open>Writing a command as a line\<close>

text \<open>
  The level tells where the command stands: in a line (3), before an ampersand or a semicolon (2),
  in a pipeline (1) or as one of its stages (0). A command of a higher level goes into parentheses.
\<close>

definition enclose :: "bool \<Rightarrow> string \<Rightarrow> string" where
  "enclose b s = (if b then '' ('' @ s @ '' )'' else s)"

definition show_words :: "string list \<Rightarrow> string" where
  "show_words ws = concat (map (\<lambda>w. '' '' @ w) ws)"

definition show_redir :: "string \<times> i32 \<times> int \<Rightarrow> string" where
  "show_redir r = (case r of (f, mode, fd) \<Rightarrow> '' '' @ the (redir_sign mode fd) @ '' '' @ f)"

primrec show_cmd :: "scmd \<Rightarrow> nat \<Rightarrow> string" where
  "show_cmd (S_exec ws) l = show_words ws"
| "show_cmd (S_redir c f mode fd) l = show_cmd c 0 @ show_redir (f, mode, fd)"
| "show_cmd (S_pipe a b) l = enclose (l < 1) (show_cmd a 0 @ '' |'' @ show_cmd b 1)"
| "show_cmd (S_back a) l = enclose (l < 2) (show_cmd a 2 @ '' &'')"
| "show_cmd (S_list a b) l = enclose (l < 3) (show_cmd a 2 @ '' ;'' @ show_cmd b 3)"

section \<open>Tokens of a written line\<close>

text \<open>What may follow: nothing, or a blank and then a character of \<open>cs\<close>.\<close>

definition follow :: "string \<Rightarrow> string \<Rightarrow> bool" where
  "follow cs rest \<longleftrightarrow> (rest = [] \<or> hd rest = CHR '' '') \<and> (skip rest = [] \<or> hd (skip rest) \<in> set cs)"

lemma skip_blank [simp]: "skip (CHR '' '' # s) = skip s"
  by (simp add: whitespace_def)

lemma skip_symbol [simp]: "c \<in> set symbols \<Longrightarrow> skip (c # s) = c # s"
  by (auto simp: symbols_def whitespace_def)

lemma skip_word [simp]: "word w \<Longrightarrow> skip (w @ s) = w @ s"
  by (cases w) (auto simp: word_def plain_def)

declare skip.simps(2) [simp del]

lemma word_end_append: "list_all plain w \<Longrightarrow> rest = [] \<or> hd rest = CHR '' '' \<Longrightarrow> word_end (w @ rest) = rest"
proof (induction w)
  case Nil
  then show ?case by (cases rest) (simp_all add: whitespace_def)
next
  case (Cons c w)
  then show ?case by (simp add: plain_def)
qed

lemma plain_not_symbol: "plain c \<Longrightarrow> c \<notin> set symbols"
  by (simp add: plain_def strchr_None)

lemma gettoken_word:
  assumes "word w" "rest = [] \<or> hd rest = CHR '' ''"
  shows "gettoken (CHR '' '' # w @ rest) = (CHR ''a'', w @ rest, rest, skip rest)"
    "gettoken (w @ rest) = (CHR ''a'', w @ rest, rest, skip rest)"
proof -
  obtain c v where w: "w = c # v" "plain c" using assms(1) by (cases w) (auto simp: word_def)
  have "c \<notin> set ''|();&<''" "c \<noteq> CHR ''>''" using plain_not_symbol [OF w(2)] by (auto simp: symbols_def)
  moreover have "word_end (w @ rest) = rest" using assms by (intro word_end_append) (simp_all add: word_def)
  ultimately have "token_at (w @ rest) = (CHR ''a'', rest)" by (auto simp: token_at_def w(1))
  then show "gettoken (CHR '' '' # w @ rest) = (CHR ''a'', w @ rest, rest, skip rest)"
    "gettoken (w @ rest) = (CHR ''a'', w @ rest, rest, skip rest)"
    using assms(1) by (simp_all add: gettoken_def)
qed

lemma word_of_append [simp]: "word_of (w @ rest, rest) = w"
  by (simp add: word_of_def)

lemma gettoken_symbol:
  assumes "c \<in> set ''|();&''"
  shows "gettoken (c # rest) = (c, c # rest, rest, skip rest)"
proof -
  have "token_at (c # rest) = (c, rest)" using assms by (auto simp: token_at_def)
  moreover have "skip (c # rest) = c # rest" using assms by (intro skip_symbol) (auto simp: symbols_def)
  ultimately show ?thesis by (simp add: gettoken_def)
qed

lemma peek_iff: "peek ps toks = (skip ps \<noteq> [] \<and> hd (skip ps) \<in> set toks, skip ps)"
  by (simp add: peek_def Let_def strchr_None)

section \<open>Redirections and arguments\<close>

definition shape_redir :: "redir \<Rightarrow> string \<times> i32 \<times> int" where
  "shape_redir r = (case r of (q, eq, mode, fd) \<Rightarrow> (word_of (q, eq), mode, fd))"

definition redir_ok :: "string \<times> i32 \<times> int \<Rightarrow> bool" where
  "redir_ok r = (case r of (f, mode, fd) \<Rightarrow> word f \<and> redir_sign mode fd \<noteq> None)"

definition blank :: "string \<Rightarrow> bool" where
  "blank rest \<longleftrightarrow> rest = [] \<or> hd rest = CHR '' ''"

definition show_redirs :: "(string \<times> i32 \<times> int) list \<Rightarrow> string" where
  "show_redirs rs = concat (map show_redir rs)"

lemma blank_redirs: "blank rest \<Longrightarrow> blank (show_redirs rs @ rest)"
  by (cases rs) (auto simp: blank_def show_redirs_def show_redir_def split: prod.splits)

lemma blank_words: "blank rest \<Longrightarrow> blank (show_words ws @ rest)"
  by (cases ws) (auto simp: blank_def show_words_def)

lemma gettoken_sign:
  "gettoken (CHR ''<'' # s) = (CHR ''<'', CHR ''<'' # s, s, skip s)"
  "gettoken (CHR ''>'' # CHR '' '' # s) = (CHR ''>'', CHR ''>'' # CHR '' '' # s, CHR '' '' # s, skip s)"
  "gettoken (CHR ''>'' # CHR ''>'' # s) = (CHR ''+'', CHR ''>'' # CHR ''>'' # s, s, skip s)"
  by (simp_all add: gettoken_def token_at_def symbols_def)

text \<open>One redirection of a written line.\<close>

lemma parseredirs_one:
  assumes "redir_ok r" "blank rest"
  shows "\<exists>r'. shape_redir r' = r \<and> parseredirs (Suc n) acc (show_redir r @ rest) = parseredirs n (acc @ [r']) (skip rest)"
proof -
  obtain f mode fd where r: "r = (f, mode, fd)" by (cases r)
  then have f: "word f" and sg: "redir_sign mode fd \<noteq> None" using assms(1) by (auto simp: redir_ok_def)
  note w = gettoken_word [OF f, of rest, OF assms(2) [unfolded blank_def]]
  consider "mode = 0" "fd = 0" | "mode = 0x601" "fd = 1" | "mode = 0x201" "fd = 1"
    using sg by (auto simp: redir_sign_def split: if_splits)
  then have "parseredirs (Suc n) acc (show_redir r @ rest) = parseredirs n (acc @ [(f @ rest, rest, mode, fd)]) (skip rest)"
    by cases (simp_all add: r show_redir_def redir_sign_def peek_iff symbols_def gettoken_sign w f)
  then show ?thesis by (intro exI [of _ "(f @ rest, rest, mode, fd)"]) (simp add: shape_redir_def r)
qed

lemma parseredirs_none:
  assumes "skip ps = [] \<or> hd (skip ps) \<notin> set ''<>''"
  shows "parseredirs (Suc n) acc ps = POk (acc, skip ps)"
  using assms by (auto simp: peek_iff)

text \<open>The parsers begin by skipping white space.\<close>

lemma parse_skip [simp]:
  "parseredirs n acc (skip ps) = parseredirs n acc ps" "parseargs n args rs (skip ps) = parseargs n args rs ps"
  "parseamps n c (skip ps) = parseamps n c ps" "parseexec n (skip ps) = parseexec n ps"
  by (cases n; simp add: peek_iff)+

lemma parse_skip_line [simp]: "parsepipe n (skip ps) = parsepipe n ps" "parseline n (skip ps) = parseline n ps"
proof -
  show p: "parsepipe n (skip ps) = parsepipe n ps" for n by (cases n) simp_all
  show "parseline n (skip ps) = parseline n ps" by (cases n) (simp_all add: p)
qed

lemma parseredirs_all:
  assumes "list_all redir_ok rs" "blank rest" "skip rest = [] \<or> hd (skip rest) \<notin> set ''<>''" "length rs < n"
  shows "\<exists>rs'. map shape_redir rs' = rs \<and> parseredirs n acc (show_redirs rs @ rest) = POk (acc @ rs', skip rest)"
  using assms(1,4)
proof (induction rs arbitrary: n acc)
  case Nil
  then obtain k where "n = Suc k" by (cases n) auto
  then show ?case using parseredirs_none [OF assms(3)] by (simp add: show_redirs_def)
next
  case (Cons r rs)
  then obtain k where k: "n = Suc k" "length rs < k" by (cases n) auto
  have b: "blank (show_redirs rs @ rest)" by (rule blank_redirs [OF assms(2)])
  from Cons.prems(1) have "redir_ok r" by simp
  from parseredirs_one [OF this b, of k acc] obtain r' where r': "shape_redir r' = r"
    "parseredirs n acc (show_redirs (r # rs) @ rest) = parseredirs k (acc @ [r']) (show_redirs rs @ rest)"
    unfolding k(1) by (auto simp: show_redirs_def simp del: parseredirs.simps)
  from Cons.IH [of k "acc @ [r']"] Cons.prems(1) k(2) obtain rs' where "map shape_redir rs' = rs"
    "parseredirs k (acc @ [r']) (show_redirs rs @ rest) = POk (acc @ r' # rs', skip rest)" by auto
  with r' show ?case by (intro exI [of _ "r' # rs'"]) simp
qed

text \<open>The arguments of a command, and the redirections behind the last one.\<close>

lemma parseargs_end:
  assumes "skip ps = [] \<or> hd (skip ps) \<in> set ''|)&;''"
  shows "parseargs (Suc n) args rs ps = POk (add_redirs rs (EXEC args), skip ps)"
proof (cases "skip ps = []")
  case True
  then show ?thesis by (simp add: peek_iff gettoken_def token_at_def)
next
  case False
  then show ?thesis using assms by (simp add: peek_iff)
qed

lemma parseargs_word:
  assumes "word w" "blank rest" "length args + 1 < MAXARGS"
  shows "parseargs (Suc n) args rs (CHR '' '' # w @ rest) =
    pbind (parseredirs n rs rest) (\<lambda>(rs, ps). parseargs n (args @ [(w @ rest, rest)]) rs ps)"
proof -
  have c: "hd w \<notin> set ''|)&;''" "w \<noteq> []" using assms(1) plain_not_symbol [of "hd w"]
    by (auto simp: word_def symbols_def neq_Nil_conv)
  then show ?thesis
    using gettoken_word(2) [OF assms(1), of rest] assms by (simp add: peek_iff blank_def)
qed

lemma parseargs_all:
  assumes "list_all word ws" "ws \<noteq> []" "list_all redir_ok rs" "follow ''|)&;'' rest"
    "length args + length ws < MAXARGS" "length ws + length rs + 1 < n"
  shows "\<exists>as rs'. map word_of as = ws \<and> map shape_redir rs' = rs \<and>
    parseargs n args acc (show_words ws @ show_redirs rs @ rest) = POk (add_redirs (acc @ rs') (EXEC (args @ as)), skip rest)"
  using assms(1,2,5,6)
proof (induction ws arbitrary: n args)
  case (Cons w ws)
  then obtain k where k: "n = Suc k" "length ws + length rs + 1 < k" by (cases n) auto
  have fb: "blank rest" "skip rest = [] \<or> hd (skip rest) \<in> set ''|)&;''"
    using assms(4) by (simp_all add: follow_def blank_def)
  have nr: "skip rest = [] \<or> hd (skip rest) \<notin> set ''<>''" using fb(2) by auto
  let ?t = "show_words ws @ show_redirs rs @ rest"
  have bt: "blank ?t" by (intro blank_words blank_redirs fb)
  have st: "parseargs n args acc (show_words (w # ws) @ show_redirs rs @ rest) =
      pbind (parseredirs k acc ?t) (\<lambda>(rs, ps). parseargs k (args @ [(w @ ?t, ?t)]) rs ps)"
    unfolding k(1) using parseargs_word [of w ?t args k acc] Cons.prems bt by (simp add: show_words_def)
  show ?case
  proof (cases "ws = []")
    case True
    from parseredirs_all [OF assms(3) fb(1) nr, of k acc] k(2) obtain rs' where rs': "map shape_redir rs' = rs"
      "parseredirs k acc (show_redirs rs @ rest) = POk (acc @ rs', skip rest)" by auto
    obtain j where "k = Suc j" using k(2) by (cases k) auto
    then have "parseargs k (args @ [(w @ ?t, ?t)]) (acc @ rs') rest =
        POk (add_redirs (acc @ rs') (EXEC (args @ [(w @ ?t, ?t)])), skip rest)"
      using parseargs_end [OF fb(2)] by simp
    then show ?thesis using rs' True unfolding st
      by (intro exI [of _ "[(w @ ?t, ?t)]"] exI [of _ rs']) (simp add: show_words_def)
  next
    case False
    obtain v vs where v: "ws = v # vs" using False by (cases ws) auto
    have "word v" using Cons.prems(1) v by simp
    then have "skip ?t \<noteq> []" "hd (skip ?t) \<notin> set ''<>''"
      using plain_not_symbol [of "hd v"] by (auto simp: v show_words_def word_def symbols_def neq_Nil_conv)
    then have "parseredirs k acc ?t = POk (acc, skip ?t)" using parseredirs_none [of ?t] k(2) by (cases k) auto
    then have st2: "parseargs n args acc (show_words (w # ws) @ show_redirs rs @ rest) =
        parseargs k (args @ [(w @ ?t, ?t)]) acc ?t" unfolding st by simp
    from Cons.IH [of "args @ [(w @ ?t, ?t)]" k] Cons.prems False k(2) obtain as rs' where
      "map word_of as = ws" "map shape_redir rs' = rs"
      "parseargs k (args @ [(w @ ?t, ?t)]) acc ?t = POk (add_redirs (acc @ rs') (EXEC ((args @ [(w @ ?t, ?t)]) @ as)), skip rest)"
      by auto
    then show ?thesis unfolding st2 by (intro exI [of _ "(w @ ?t, ?t) # as"] exI [of _ rs']) simp
  qed
qed simp

section \<open>Lines\<close>

text \<open>A parser reads the text \<open>t\<close> as the command \<open>c\<close>, whatever of \<open>cs\<close> follows.\<close>

definition reads :: "(nat \<Rightarrow> ptr \<Rightarrow> (cmd \<times> ptr) pres) \<Rightarrow> nat \<Rightarrow> string \<Rightarrow> string \<Rightarrow> scmd \<Rightarrow> bool" where
  "reads p k cs t c \<longleftrightarrow> (\<forall>rest n. follow cs rest \<longrightarrow> 4 * length (t @ rest) + k \<le> n \<longrightarrow>
     (\<exists>c'. shape c' = c \<and> p n (t @ rest) = POk (c', skip rest)))"

lemma readsD:
  assumes "reads p k cs t c" "follow cs rest" "4 * length (t @ rest) + k \<le> n"
  obtains c' where "shape c' = c" "p n (t @ rest) = POk (c', skip rest)"
  using assms unfolding reads_def by blast

definition s_redirs :: "(string \<times> i32 \<times> int) list \<Rightarrow> scmd \<Rightarrow> scmd" where
  "s_redirs rs c = fold (\<lambda>(f, mode, fd) c. S_redir c f mode fd) rs c"

lemma shape_add_redirs: "shape (add_redirs rs c) = s_redirs (map shape_redir rs) (shape c)"
  by (induction rs arbitrary: c) (auto simp: add_redirs_def s_redirs_def shape_redir_def)

lemma show_redirs_length: "length rs \<le> length (show_redirs rs)"
  by (induction rs) (auto simp: show_redirs_def show_redir_def split: prod.splits)

lemma show_words_length: "length ws \<le> length (show_words ws)"
  by (induction ws) (auto simp: show_words_def)

lemma follow_iff: "follow cs rest \<longleftrightarrow> blank rest \<and> (skip rest = [] \<or> hd (skip rest) \<in> set cs)"
  by (simp add: follow_def blank_def)

lemma no_paren:
  assumes "list_all word ws" "follow ''|)&;'' rest" "list_all redir_ok rs"
  shows "skip (show_words ws @ show_redirs rs @ rest) = [] \<or> hd (skip (show_words ws @ show_redirs rs @ rest)) \<noteq> CHR ''(''"
proof (cases ws)
  case Nil
  show ?thesis
  proof (cases rs)
    case Nil
    then show ?thesis using assms(2) \<open>ws = []\<close> by (auto simp: follow_def show_words_def show_redirs_def)
  next
    case (Cons r rs')
    obtain f mode fd where r: "r = (f, mode, fd)" by (cases r)
    have "redir_sign mode fd \<noteq> None" using assms(3) by (simp add: Cons r redir_ok_def)
    then have "hd (the (redir_sign mode fd)) \<in> set ''<>'' \<and> the (redir_sign mode fd) \<noteq> []"
      by (auto simp: redir_sign_def split: if_splits)
    then obtain c cs where "the (redir_sign mode fd) = c # cs" "c \<in> set ''<>''" by (cases "the (redir_sign mode fd)") auto
    moreover from this have "skip (c # x) = c # x" for x by (intro skip_symbol) (auto simp: symbols_def)
    ultimately show ?thesis by (auto simp: \<open>ws = []\<close> Cons r show_words_def show_redirs_def show_redir_def)
  qed
next
  case (Cons w ws')
  then have w: "word w" using assms(1) by simp
  then show ?thesis
    using plain_not_symbol [of "hd w"] by (auto simp: Cons show_words_def word_def symbols_def neq_Nil_conv)
qed

lemma reads_exec:
  assumes "list_all word ws" "length ws < MAXARGS" "list_all redir_ok rs"
  shows "reads parseexec 4 ''|)&;'' (show_words ws @ show_redirs rs) (s_redirs rs (S_exec ws))"
  unfolding reads_def
proof (intro allI impI)
  fix rest n assume f: "follow ''|)&;'' rest" and n: "4 * length ((show_words ws @ show_redirs rs) @ rest) + 4 \<le> n"
  let ?t = "show_words ws @ show_redirs rs @ rest"
  obtain k where k: "n = Suc (Suc k)" using n by (cases n; cases "n - 1") auto
  have lr: "length rs + length ws + 1 < Suc k" using n k show_redirs_length [of rs] show_words_length [of ws] by simp
  have fb: "blank rest" "skip rest = [] \<or> hd (skip rest) \<in> set ''|)&;''" using f by (simp_all add: follow_iff)
  have nr: "skip rest = [] \<or> hd (skip rest) \<notin> set ''<>''" using fb(2) by auto
  have px: "parseexec n ?t = pbind (parseredirs (Suc k) [] ?t) (\<lambda>(rs, ps). parseargs (Suc k) [] rs ps)"
    using no_paren [OF assms(1) f assms(3)] by (auto simp: k peek_iff simp del: parseredirs.simps parseargs.simps)
  have "\<exists>c'. shape c' = s_redirs rs (S_exec ws) \<and> parseexec n ?t = POk (c', skip rest)"
  proof (cases "ws = []")
    case True
    from parseredirs_all [OF assms(3) fb(1) nr, of "Suc k" "[]"] lr obtain rs' where
      "map shape_redir rs' = rs" "parseredirs (Suc k) [] (show_redirs rs @ rest) = POk (rs', skip rest)" by auto
    with True show ?thesis
      unfolding px using parseargs_end [OF fb(2), of k "[]" rs']
      by (intro exI [of _ "add_redirs rs' (EXEC [])"])
        (simp add: shape_add_redirs show_words_def del: parseredirs.simps parseargs.simps)
  next
    case False
    then obtain v vs where v: "ws = v # vs" by (cases ws) auto
    then have "word v" using assms(1) by simp
    then have "skip ?t \<noteq> []" "hd (skip ?t) \<notin> set ''<>''"
      using plain_not_symbol [of "hd v"] by (auto simp: v show_words_def word_def symbols_def neq_Nil_conv)
    then have "parseredirs (Suc k) [] ?t = POk ([], skip ?t)" using parseredirs_none [of ?t] by auto
    then have px2: "parseexec n ?t = parseargs (Suc k) [] [] ?t" unfolding px by (simp del: parseargs.simps)
    from parseargs_all [OF assms(1) False assms(3) f, of "[]" "Suc k" "[]"] assms(2) lr obtain as rs' where
      "map word_of as = ws" "map shape_redir rs' = rs" "parseargs (Suc k) [] [] ?t = POk (add_redirs rs' (EXEC as), skip rest)"
      by (auto simp del: parseargs.simps)
    then show ?thesis unfolding px2 by (intro exI [of _ "add_redirs rs' (EXEC as)"]) (simp add: shape_add_redirs)
  qed
  then show "\<exists>c'. shape c' = s_redirs rs (S_exec ws) \<and> parseexec n ((show_words ws @ show_redirs rs) @ rest) = POk (c', skip rest)"
    by simp
qed

lemma follow_symbol: "c \<in> set cs \<Longrightarrow> c \<in> set symbols \<Longrightarrow> follow cs (CHR '' '' # c # t)"
  by (simp add: follow_def)

lemma reads_block:
  assumes "reads parseline 6 '')'' t b" "list_all redir_ok rs"
  shows "reads parseexec 4 ''|)&;'' ('' ('' @ t @ '' )'' @ show_redirs rs) (s_redirs rs b)"
  unfolding reads_def
proof (intro allI impI)
  fix rest n assume f: "follow ''|)&;'' rest" and n: "4 * length (('' ('' @ t @ '' )'' @ show_redirs rs) @ rest) + 4 \<le> n"
  let ?r = "show_redirs rs @ rest"
  obtain k where k: "n = Suc (Suc k)" using n by (cases n; cases "n - 1") auto
  have fb: "blank rest" "skip rest = [] \<or> hd (skip rest) \<notin> set ''<>''" using f by (auto simp: follow_iff)
  have "follow '')'' ('' )'' @ ?r)" using follow_symbol [of "CHR '')''" "'')''" ?r] by (simp add: symbols_def)
  moreover have "4 * length (t @ '' )'' @ ?r) + 6 \<le> k" using n k by simp
  ultimately obtain c' where c': "shape c' = b" "parseline k (t @ '' )'' @ ?r) = POk (c', skip ('' )'' @ ?r))"
    by (rule readsD [OF assms(1)])
  have "length rs < k" using n k show_redirs_length [of rs] by simp
  from parseredirs_all [OF assms(2) fb this, of "[]"] obtain rs' where
    rs': "map shape_redir rs' = rs" "parseredirs k [] ?r = POk (rs', skip rest)" by auto
  have "parseexec n ('' ('' @ t @ '' )'' @ ?r) = parseblock (Suc k) (CHR ''('' # t @ '' )'' @ ?r)"
    by (simp add: k peek_iff symbols_def del: parseblock.simps)
  also have "\<dots> = POk (add_redirs rs' c', skip rest)"
    using c' rs' by (simp add: peek_iff symbols_def gettoken_symbol)
  finally show "\<exists>c'. shape c' = s_redirs rs b \<and> parseexec n (('' ('' @ t @ '' )'' @ show_redirs rs) @ rest) = POk (c', skip rest)"
    using rs'(1) c'(1) by (intro exI [of _ "add_redirs rs' c'"]) (simp add: shape_add_redirs)
qed

lemma follow_mono: "follow cs rest \<Longrightarrow> set cs \<subseteq> set ds \<Longrightarrow> follow ds rest"
  by (auto simp: follow_def)

lemma reads_single:
  assumes "reads parseexec 4 ''|)&;'' t c"
  shows "reads parsepipe 5 '')&;'' t c"
  unfolding reads_def
proof (intro allI impI)
  fix rest n assume f: "follow '')&;'' rest" and n: "4 * length (t @ rest) + 5 \<le> n"
  obtain k where k: "n = Suc k" using n by (cases n) auto
  have "follow ''|)&;'' rest" using f by (rule follow_mono) auto
  moreover have "4 * length (t @ rest) + 4 \<le> k" using n k by simp
  ultimately obtain c' where "shape c' = c" "parseexec k (t @ rest) = POk (c', skip rest)" by (rule readsD [OF assms])
  then show "\<exists>c'. shape c' = c \<and> parsepipe n (t @ rest) = POk (c', skip rest)"
    using f by (auto simp: k peek_iff follow_def)
qed

lemma reads_pipe:
  assumes "reads parseexec 4 ''|)&;'' t a" "reads parsepipe 5 '')&;'' u b"
  shows "reads parsepipe 5 '')&;'' (t @ '' |'' @ u) (S_pipe a b)"
  unfolding reads_def
proof (intro allI impI)
  fix rest n assume f: "follow '')&;'' rest" and n: "4 * length ((t @ '' |'' @ u) @ rest) + 5 \<le> n"
  obtain k where k: "n = Suc k" using n by (cases n) auto
  have "follow ''|)&;'' ('' |'' @ u @ rest)" using follow_symbol [of "CHR ''|''" "''|)&;''" "u @ rest"] by (simp add: symbols_def)
  moreover have "4 * length (t @ '' |'' @ u @ rest) + 4 \<le> k" using n k by simp
  ultimately obtain a' where a': "shape a' = a" "parseexec k (t @ '' |'' @ u @ rest) = POk (a', skip ('' |'' @ u @ rest))"
    by (rule readsD [OF assms(1)])
  have "4 * length (u @ rest) + 5 \<le> k" using n k by simp
  with f obtain b' where "shape b' = b" "parsepipe k (u @ rest) = POk (b', skip rest)" by (rule readsD [OF assms(2)])
  with a' show "\<exists>c'. shape c' = S_pipe a b \<and> parsepipe n ((t @ '' |'' @ u) @ rest) = POk (c', skip rest)"
    by (intro exI [of _ "PIPE a' b'"]) (simp add: k peek_iff symbols_def gettoken_symbol)
qed

text \<open>Ampersands.\<close>

primrec show_amps :: "nat \<Rightarrow> string" where
  "show_amps 0 = []"
| "show_amps (Suc k) = show_amps k @ '' &''"

primrec s_backs :: "nat \<Rightarrow> scmd \<Rightarrow> scmd" where
  "s_backs 0 c = c"
| "s_backs (Suc k) c = S_back (s_backs k c)"

lemma show_amps_Suc: "show_amps (Suc k) = '' &'' @ show_amps k"
  by (induction k) simp_all

lemma show_amps_length: "length (show_amps k) = 2 * k"
  by (induction k) simp_all

lemma s_backs_S_back: "s_backs (Suc k) c = s_backs k (S_back c)"
  by (induction k) simp_all

lemma parseamps_all:
  assumes "skip rest = [] \<or> hd (skip rest) \<noteq> CHR ''&''" "k < n"
  shows "\<exists>c'. shape c' = s_backs k (shape c) \<and> parseamps n c (show_amps k @ rest) = POk (c', skip rest)"
  using assms(2)
proof (induction k arbitrary: n c)
  case 0
  then obtain m where "n = Suc m" by (cases n) auto
  then show ?case using assms(1) by (auto simp: peek_iff)
next
  case (Suc k)
  then obtain m where m: "n = Suc m" "k < m" by (cases n) auto
  from Suc.IH [OF m(2), of "BACK c"] obtain c' where
    "shape c' = s_backs k (S_back (shape c))" "parseamps m (BACK c) (show_amps k @ rest) = POk (c', skip rest)" by auto
  then show ?case
    by (intro exI [of _ c']) (simp add: m(1) show_amps_Suc s_backs_S_back peek_iff symbols_def gettoken_symbol
        del: show_amps.simps s_backs.simps)
qed

lemma blank_amps: "blank rest \<Longrightarrow> blank (show_amps k @ rest)"
  by (cases k) (simp_all add: show_amps_Suc blank_def del: show_amps.simps(2))

lemma follow_amps: "follow cs rest \<Longrightarrow> set cs \<subseteq> set '')&;'' \<Longrightarrow> follow '')&;'' (show_amps k @ rest)"
  by (cases k) (auto simp: show_amps_Suc follow_def symbols_def simp del: show_amps.simps(2))

text \<open>A pipeline with its ampersands, at the end of a line or before a semicolon.\<close>

lemma amps_stage:
  assumes "reads parsepipe 5 '')&;'' t b" "follow '');'' rest" "4 * length (t @ show_amps k @ rest) + 5 \<le> n"
  obtains c' where "shape c' = s_backs k b"
    "parseline (Suc n) (t @ show_amps k @ rest) =
       (case peek rest '';'' of (b, ps) \<Rightarrow> if \<not> b then POk (c', ps) else
        case gettoken ps of (_, _, _, ps) \<Rightarrow> pbind (parseline n ps) (\<lambda>(r, ps). POk (LIST c' r, ps)))"
proof -
  have "follow '')&;'' (show_amps k @ rest)" using assms(2) by (rule follow_amps) auto
  then obtain p where p: "shape p = b" "parsepipe n (t @ show_amps k @ rest) = POk (p, skip (show_amps k @ rest))"
    using assms(3) by (rule readsD [OF assms(1)])
  have "skip rest = [] \<or> hd (skip rest) \<noteq> CHR ''&''" using assms(2) by (auto simp: follow_def)
  moreover have "k < n" using assms(3) show_amps_length [of k] by simp
  ultimately obtain c' where c': "shape c' = s_backs k b" "parseamps n p (show_amps k @ rest) = POk (c', skip rest)"
    using parseamps_all p(1) by metis
  show thesis by (rule that [OF c'(1)]) (use p c'(2) in \<open>simp add: peek_iff\<close>)
qed

lemma reads_line:
  assumes "reads parsepipe 5 '')&;'' t b"
  shows "reads parseline 6 '')'' (t @ show_amps k) (s_backs k b)"
  unfolding reads_def
proof (intro allI impI)
  fix rest n assume f: "follow '')'' rest" and n: "4 * length ((t @ show_amps k) @ rest) + 6 \<le> n"
  obtain m where m: "n = Suc m" using n by (cases n) auto
  have "follow '');'' rest" using f by (rule follow_mono) auto
  moreover have "4 * length (t @ show_amps k @ rest) + 5 \<le> m" using n m by simp
  ultimately obtain c' where "shape c' = s_backs k b" "parseline (Suc m) (t @ show_amps k @ rest) =
       (case peek rest '';'' of (b, ps) \<Rightarrow> if \<not> b then POk (c', ps) else
        case gettoken ps of (_, _, _, ps) \<Rightarrow> pbind (parseline m ps) (\<lambda>(r, ps). POk (LIST c' r, ps)))"
    by (rule amps_stage [OF assms])
  then show "\<exists>c'. shape c' = s_backs k b \<and> parseline n ((t @ show_amps k) @ rest) = POk (c', skip rest)"
    using f by (auto simp: m peek_iff follow_def simp del: parseline.simps)
qed

lemma reads_list:
  assumes "reads parsepipe 5 '')&;'' t b" "reads parseline 6 '')'' u r"
  shows "reads parseline 6 '')'' (t @ show_amps k @ '' ;'' @ u) (S_list (s_backs k b) r)"
  unfolding reads_def
proof (intro allI impI)
  fix rest n assume f: "follow '')'' rest" and n: "4 * length ((t @ show_amps k @ '' ;'' @ u) @ rest) + 6 \<le> n"
  obtain m where m: "n = Suc m" using n by (cases n) auto
  let ?s = "'' ;'' @ u @ rest"
  have "follow '');'' ?s" using follow_symbol [of "CHR '';''" "'');''" "u @ rest"] by (simp add: symbols_def)
  moreover have "4 * length (t @ show_amps k @ ?s) + 5 \<le> m" using n m by simp
  ultimately obtain c' where c': "shape c' = s_backs k b"
    "parseline (Suc m) (t @ show_amps k @ ?s) =
       (case peek ?s '';'' of (b, ps) \<Rightarrow> if \<not> b then POk (c', ps) else
        case gettoken ps of (_, _, _, ps) \<Rightarrow> pbind (parseline m ps) (\<lambda>(r, ps). POk (LIST c' r, ps)))"
    by (rule amps_stage [OF assms(1)])
  have "4 * length (u @ rest) + 6 \<le> m" using n m by simp
  with f obtain r' where "shape r' = r" "parseline m (u @ rest) = POk (r', skip rest)" by (rule readsD [OF assms(2)])
  with c' show "\<exists>c'. shape c' = S_list (s_backs k b) r \<and> parseline n ((t @ show_amps k @ '' ;'' @ u) @ rest) = POk (c', skip rest)"
    by (intro exI [of _ "LIST c' r'"]) (simp add: m peek_iff symbols_def gettoken_symbol del: parseline.simps)
qed

section \<open>Every command can be read back\<close>

text \<open>Commands decompose into a base and the redirections or ampersands around it.\<close>

lemma redir_ok_tuple: "redir_ok (f, m, fd) \<longleftrightarrow> word f \<and> redir_sign m fd \<noteq> None"
  by (simp add: redir_ok_def)

fun unredir :: "scmd \<Rightarrow> scmd \<times> (string \<times> i32 \<times> int) list" where
  "unredir (S_redir c f m fd) = (fst (unredir c), snd (unredir c) @ [(f, m, fd)])"
| "unredir c = (c, [])"

fun unback :: "scmd \<Rightarrow> scmd \<times> nat" where
  "unback (S_back c) = (fst (unback c), Suc (snd (unback c)))"
| "unback c = (c, 0)"

lemma unredir_props:
  "s_redirs (snd (unredir c)) (fst (unredir c)) = c"
  "show_cmd c 0 = show_cmd (fst (unredir c)) 0 @ show_redirs (snd (unredir c))"
  "well_formed c \<Longrightarrow> well_formed (fst (unredir c)) \<and> list_all redir_ok (snd (unredir c))"
  by (induction c rule: unredir.induct) (auto simp: s_redirs_def show_redirs_def redir_ok_tuple)

lemma unredir_base: "size (fst (unredir c)) \<le> size c" "fst (unredir c) \<noteq> S_redir d f m fd"
  by (induction c rule: unredir.induct) auto

lemma unback_props:
  "s_backs (snd (unback c)) (fst (unback c)) = c"
  "show_cmd c 2 = show_cmd (fst (unback c)) 1 @ show_amps (snd (unback c))"
  "well_formed c \<Longrightarrow> well_formed (fst (unback c))" "size (fst (unback c)) \<le> size c"
  by (induction c rule: unback.induct) (auto simp: enclose_def)

fun compound :: "scmd \<Rightarrow> bool" where
  "compound (S_exec ws) = False"
| "compound (S_redir c f m fd) = False"
| "compound c = True"

lemma show_compound: "compound c \<Longrightarrow> show_cmd c 0 = '' ('' @ show_cmd c 3 @ '' )''"
  by (cases c) (simp_all add: enclose_def)

lemma show_stage: "\<forall>l r. c \<noteq> S_pipe l r \<Longrightarrow> show_cmd c 1 = show_cmd c 0"
  by (cases c) (simp_all add: enclose_def)

lemma show_line: "\<forall>l r. c \<noteq> S_list l r \<Longrightarrow> show_cmd c 3 = show_cmd c 2"
  by (cases c) (simp_all add: enclose_def)

lemma read_back:
  assumes "well_formed c"
  shows "reads parseexec 4 ''|)&;'' (show_cmd c 0) c \<and> reads parsepipe 5 '')&;'' (show_cmd c 1) c \<and>
    reads parseline 6 '')'' (show_cmd c 3) c"
  using assms
proof (induction "size c" arbitrary: c rule: less_induct)
  case less
  let ?A = "\<lambda>c. reads parseexec 4 ''|)&;'' (show_cmd c 0) c" and ?B = "\<lambda>c. reads parsepipe 5 '')&;'' (show_cmd c 1) c"
    and ?C = "\<lambda>c. reads parseline 6 '')'' (show_cmd c 3) c"
  have block: "?A c" if "?C c" "compound c"
    using reads_block [OF that(1), of "[]"] show_compound [OF that(2)] by (simp add: s_redirs_def show_redirs_def)
  have stage: "?B c" if "?A c" "\<forall>l r. c \<noteq> S_pipe l r"
    using reads_single [OF that(1)] show_stage [OF that(2)] by simp
  have base: "?B (fst (unback l))" "well_formed l" if "well_formed l" "size l < size c" for l
    using less.hyps [of "fst (unback l)"] unback_props(3,4) [of l] that by (blast intro: le_less_trans)+
  consider (simple) "\<not> compound c" | (pipe) l r where "c = S_pipe l r" | (list) l r where "c = S_list l r" | (amp) b where "c = S_back b"
    by (cases c) auto
  then show ?case
  proof cases
    case simple
    let ?b = "fst (unredir c)" and ?rs = "snd (unredir c)"
    note u = unredir_props(1,2) [of c] unredir_props(3) [OF less.prems]
    have A: "?A c"
    proof (cases "compound ?b")
      case True
      then have "?b \<noteq> c" using simple by metis
      then have "size ?b < size c" using simple True unredir_base(1) by (cases c) (auto simp: less_Suc_eq_le)
      then have "?C ?b" using u(3) less.hyps by blast
      moreover have "list_all redir_ok ?rs" using u(3) by blast
      ultimately have "reads parseexec 4 ''|)&;'' ('' ('' @ show_cmd ?b 3 @ '' )'' @ show_redirs ?rs) (s_redirs ?rs ?b)"
        by (rule reads_block)
      then show ?thesis using u(1,2) show_compound [OF True] by simp
    next
      case False
      then obtain ws where "?b = S_exec ws" using unredir_base(2) by (cases ?b) auto
      then show ?thesis using reads_exec [of ws ?rs] u by simp
    qed
    moreover from this have B: "?B c" using simple by (intro stage) auto
    moreover from reads_line [OF B, of 0] have "?C c" using simple by (cases c) simp_all
    ultimately show ?thesis by blast
  next
    case pipe
    then have "?A l" "?B r" using less.prems less.hyps [of l] less.hyps [of r] by auto
    from reads_pipe [OF this] have B: "?B c" by (simp add: pipe enclose_def)
    from reads_line [OF this, of 0] have C: "?C c" by (simp add: pipe enclose_def)
    with B block show ?thesis by (simp add: pipe)
  next
    case list
    then have "?B (fst (unback l))" "?C r" using less.prems base [of l] less.hyps [of r] by auto
    from reads_list [OF this, of "snd (unback l)"] have C: "?C c"
      using unback_props(1,2) [of l] by (simp add: list enclose_def)
    then have "?A c" using block by (simp add: list)
    with C stage show ?thesis by (simp add: list)
  next
    case amp
    then have "?B (fst (unback b))" using less.prems base [of b] by auto
    from reads_line [OF this, of "Suc (snd (unback b))"] have C: "?C c"
      using unback_props(1,2) [of b] by (simp add: amp enclose_def)
    then have "?A c" using block by (simp add: amp)
    with C stage show ?thesis by (simp add: amp)
  qed
qed

text \<open>
  C24. The parser of the shell accepts every command and reads it as what was written: for each
  well-formed command there is a line, and parsing that line succeeds and gives
  a command with the same structure, the same words and the same redirections.
\<close>

theorem parsecmd_reads_back:
  assumes "well_formed c"
  shows "\<exists>c'. parsecmd (4 * length (show_cmd c 3) + 10) (show_cmd c 3) = POk c' \<and> shape c' = c"
proof -
  have "reads parseline 6 '')'' (show_cmd c 3) c" using read_back [OF assms] by blast
  then obtain c' where "shape c' = c" "parseline (4 * length (show_cmd c 3) + 10) (show_cmd c 3 @ []) = POk (c', skip [])"
    by (rule readsD [where rest = "[]" and n = "4 * length (show_cmd c 3) + 10"]) (auto simp: follow_def)
  then show ?thesis by (auto simp: parsecmd_def peek_def)
qed

theorem parsecmd_reads_back_witness:
  "\<exists>c'. parsecmd 154 '' cat < in | ( wc ; grep x >> out ) &'' = POk c' \<and>
     shape c' = S_back (S_pipe (S_redir (S_exec [''cat'']) ''in'' 0 0)
       (S_list (S_exec [''wc'']) (S_redir (S_exec [''grep'', ''x'']) ''out'' 0x201 1)))"
proof -
  let ?c = "S_back (S_pipe (S_redir (S_exec [''cat'']) ''in'' 0 0)
       (S_list (S_exec [''wc'']) (S_redir (S_exec [''grep'', ''x'']) ''out'' 0x201 1)))"
  have "well_formed ?c" by (simp add: word_def plain_def whitespace_def symbols_def redir_sign_def)
  moreover have "show_cmd ?c 3 = '' cat < in | ( wc ; grep x >> out ) &''"
    by (simp add: enclose_def show_words_def show_redir_def redir_sign_def)
  ultimately show ?thesis using parsecmd_reads_back [of ?c] by simp
qed

end
