(* ===== verification/Shnul.thy ===== *)
theory Shnul
  imports Sh "HOL-Library.Sublist"
begin

text \<open>
  The words of a parsed command in the line buffer: \<open>nulterminate\<close> writes its NULs only at the ends of
  words, so each pointer of the command denotes exactly the word the parser saw.
\<close>

section \<open>Words of the line\<close>

definition separator :: "char \<Rightarrow> bool" where
  "separator c \<longleftrightarrow> strchr whitespace c \<noteq> None \<or> strchr symbols c \<noteq> None"

text \<open>A word of the line \<open>s\<close>: it starts at \<open>q\<close> and ends at \<open>eq\<close>.\<close>

definition line_word :: "string \<Rightarrow> ptr \<times> ptr \<Rightarrow> bool" where
  "line_word s t \<longleftrightarrow> suffix (fst t) s \<and>
     (\<exists>w. fst t = w @ snd t \<and> (\<forall>c\<in>set w. \<not> separator c) \<and> (snd t = [] \<or> separator (hd (snd t))))"

primrec words :: "cmd \<Rightarrow> (ptr \<times> ptr) list" where
  "words (EXEC args) = args"
| "words (REDIR c q eq mode fd) = words c @ [(q, eq)]"
| "words (PIPE l r) = words l @ words r"
| "words (LIST l r) = words l @ words r"
| "words (BACK c) = words c"

lemmas suffix_trans = suffix_order.trans

lemma word_end_split:
  "\<exists>w. s = w @ word_end s \<and> (\<forall>c\<in>set w. \<not> separator c) \<and> (word_end s = [] \<or> separator (hd (word_end s)))"
proof (induction s)
  case (Cons c s)
  show ?case
  proof (cases "separator c")
    case True
    then show ?thesis by (intro exI [of _ "[]"]) (auto simp: separator_def)
  next
    case False
    with Cons obtain w where "s = w @ word_end s" "\<forall>c\<in>set w. \<not> separator c" "word_end s = [] \<or> separator (hd (word_end s))" by blast
    with False show ?thesis by (intro exI [of _ "c # w"]) (auto simp: separator_def)
  qed
qed simp

lemma skip_suffix: "suffix (skip s) s"
  by (induction s) (auto intro: suffix_ConsI)

lemma word_end_suffix: "suffix (word_end s) s"
  by (induction s) (auto intro: suffix_ConsI)

lemma token_at_suffix: "suffix (snd (token_at q)) q"
proof (cases q)
  case (Cons c r)
  have "suffix r (c # r)" "suffix (tl r) (c # r)" by (simp_all add: suffix_ConsI suffix_tl)
  then show ?thesis using word_end_suffix [of q] by (auto simp: token_at_def Cons)
qed (simp add: token_at_def)

lemma gettoken_words:
  assumes "gettoken ps = (t, q, eq, ps')"
  shows "suffix ps' ps" "t = CHR ''a'' \<Longrightarrow> line_word ps (q, eq)"
proof -
  have g: "q = skip ps" "eq = snd (token_at q)" "t = fst (token_at q)" "ps' = skip eq"
    using assms by (auto simp: gettoken_def Let_def split: prod.splits)
  show "suffix ps' ps"
    unfolding g by (metis skip_suffix suffix_order.trans token_at_suffix)
  assume "t = CHR ''a''"
  then have "eq = word_end q" unfolding g(2,3) by (auto simp: token_at_def split: list.splits if_splits)
  then show "line_word ps (q, eq)"
    using word_end_split [of q] skip_suffix [of ps] by (auto simp: line_word_def g(1))
qed

lemma peek_suffix: "peek ps toks = (b, ps') \<Longrightarrow> suffix ps' ps"
  using skip_suffix by (auto simp: peek_def Let_def)

lemma line_word_suffix: "line_word ps t \<Longrightarrow> suffix ps s \<Longrightarrow> line_word s t"
  unfolding line_word_def by (meson suffix_order.trans)

section \<open>The parser only makes words of the line\<close>

definition yields :: "('a \<Rightarrow> (ptr \<times> ptr) list) \<Rightarrow> ('a \<times> ptr) pres \<Rightarrow> ptr \<Rightarrow> bool" where
  "yields f r s = (case r of POk (a, ps') \<Rightarrow> suffix ps' s \<and> list_all (line_word s) (f a) | _ \<Rightarrow> True)"

lemma yields_simps [simp]:
  "yields f (POk (a, ps')) s \<longleftrightarrow> suffix ps' s \<and> list_all (line_word s) (f a)" "yields f (PPanic m) s" "yields f PFuel s"
  by (simp_all add: yields_def)

lemma yields_bind:
  assumes "yields f r s" "\<And>a ps. suffix ps s \<Longrightarrow> list_all (line_word s) (f a) \<Longrightarrow> yields g (k a ps) s"
  shows "yields g (pbind r (\<lambda>(a, ps). k a ps)) s"
proof (cases r)
  case (POk a)
  then show ?thesis using assms by (cases a) simp
qed simp_all

lemma yields_token:
  assumes "suffix ps s" "\<And>ps1. suffix ps1 s \<Longrightarrow> yields f (N ps1) s" "\<And>ps2. suffix ps2 s \<Longrightarrow> yields f (Y ps2) s"
  shows "yields f (case peek ps toks of (b, ps1) \<Rightarrow> if \<not> b then N ps1 else
     case gettoken ps1 of (_, _, _, ps2) \<Rightarrow> Y ps2) s"
proof -
  obtain b ps1 where p: "peek ps toks = (b, ps1)" by fastforce
  obtain t q e ps2 where g: "gettoken ps1 = (t, q, e, ps2)" by (cases "gettoken ps1")
  have "suffix ps1 s" "suffix ps2 s"
    using peek_suffix [OF p] gettoken_words(1) [OF g] assms(1) by (blast intro: suffix_trans)+
  then show ?thesis using assms(2,3) by (simp add: p g)
qed

definition redir_words :: "redir list \<Rightarrow> (ptr \<times> ptr) list" where
  "redir_words rs = map (\<lambda>(q, eq, _, _). (q, eq)) rs"

lemma redir_words_simps [simp]:
  "redir_words [] = []" "redir_words [(q, eq, m, fd)] = [(q, eq)]" "redir_words (xs @ ys) = redir_words xs @ redir_words ys"
  by (simp_all add: redir_words_def)

lemma words_add_redirs: "words (add_redirs rs c) = words c @ redir_words rs"
  by (induction rs arbitrary: c) (auto simp: add_redirs_def redir_words_def)

lemma parseredirs_words:
  "suffix ps s \<Longrightarrow> list_all (line_word s) (redir_words rs) \<Longrightarrow> yields redir_words (parseredirs n rs ps) s"
proof (induction n arbitrary: rs ps)
  case (Suc n)
  obtain b ps1 where p: "peek ps ''<>'' = (b, ps1)" by fastforce
  obtain t1 q1 e1 ps2 where g1: "gettoken ps1 = (t1, q1, e1, ps2)" by (cases "gettoken ps1")
  obtain t2 q2 e2 ps3 where g2: "gettoken ps2 = (t2, q2, e2, ps3)" by (cases "gettoken ps2")
  have sf: "suffix ps1 s" "suffix ps2 s" "suffix ps3 s"
    using peek_suffix [OF p] gettoken_words(1) [OF g1] gettoken_words(1) [OF g2] Suc.prems(1)
    by (blast intro: suffix_trans)+
  show ?case
  proof (cases "b \<and> t2 = CHR ''a''")
    case True
    then have "line_word s (q2, e2)" using gettoken_words(2) [OF g2] sf(2) by (blast intro: line_word_suffix)
    with True show ?thesis
      using Suc.prems(2) sf(3) by (auto simp: p g1 g2 intro!: Suc.IH)
  next
    case False
    then show ?thesis using sf(1) Suc.prems(2) by (auto simp: p g1 g2)
  qed
qed simp

lemma parseargs_words:
  "suffix ps s \<Longrightarrow> list_all (line_word s) args \<Longrightarrow> list_all (line_word s) (redir_words rs) \<Longrightarrow>
     yields words (parseargs n args rs ps) s"
proof (induction n arbitrary: args rs ps)
  case (Suc n)
  obtain b ps1 where p: "peek ps ''|)&;'' = (b, ps1)" by fastforce
  obtain t q e ps2 where g: "gettoken ps1 = (t, q, e, ps2)" by (cases "gettoken ps1")
  have sf: "suffix ps1 s" "suffix ps2 s"
    using peek_suffix [OF p] gettoken_words(1) [OF g] Suc.prems(1) by (blast intro: suffix_trans)+
  show ?case
  proof (cases "\<not> b \<and> t = CHR ''a''")
    case True
    then have "line_word s (q, e)" using gettoken_words(2) [OF g] sf(1) by (blast intro: line_word_suffix)
    then have "yields words (pbind (parseredirs n rs ps2) (\<lambda>(rs, ps). parseargs n (args @ [(q, e)]) rs ps)) s"
      using Suc.prems sf(2) by (intro yields_bind [OF parseredirs_words] Suc.IH) simp_all
    with True show ?thesis by (simp add: p g)
  next
    case False
    then show ?thesis using sf Suc.prems by (auto simp: p g words_add_redirs)
  qed
qed simp

lemma parseamps_words:
  "suffix ps s \<Longrightarrow> list_all (line_word s) (words c) \<Longrightarrow> yields words (parseamps n c ps) s"
proof (induction n arbitrary: c ps)
  case (Suc n)
  show ?case
    unfolding parseamps.simps using Suc.prems by (intro yields_token) (auto intro: Suc.IH)
qed simp

lemma parse_words:
  "suffix ps s \<Longrightarrow> yields words (parseline n ps) s \<and> yields words (parsepipe n ps) s \<and>
     yields words (parseblock n ps) s \<and> yields words (parseexec n ps) s"
proof (induction n arbitrary: ps)
  case (Suc n)
  have line: "yields words (parseline n p) s" and pipe: "yields words (parsepipe n p) s"
    and block: "yields words (parseblock n p) s" and exec: "yields words (parseexec n p) s" if "suffix p s" for p
    using Suc.IH that by blast+
  have "yields words (parseline (Suc n) ps) s"
    unfolding parseline.simps
    by (rule yields_bind [OF pipe [OF Suc.prems]], rule yields_bind [OF parseamps_words], assumption, assumption,
        rule yields_token, assumption, simp, rule yields_bind [OF line], assumption, simp)
  moreover have "yields words (parsepipe (Suc n) ps) s"
    unfolding parsepipe.simps
    by (rule yields_bind [OF exec [OF Suc.prems]], rule yields_token, assumption, simp,
        rule yields_bind [OF pipe], assumption, simp)
  moreover have "yields words (parseblock (Suc n) ps) s"
    unfolding parseblock.simps
    by (rule yields_token [OF Suc.prems], simp, rule yields_bind [OF line], assumption,
        rule yields_token, assumption, simp, rule yields_bind [OF parseredirs_words], assumption,
        simp add: redir_words_def, simp add: words_add_redirs)
  moreover have "yields words (parseexec (Suc n) ps) s"
  proof -
    obtain b ps1 where p: "peek ps ''('' = (b, ps1)" by fastforce
    then have s1: "suffix ps1 s" using peek_suffix Suc.prems by (blast intro: suffix_order.trans)
    have "yields words (pbind (parseredirs n [] ps1) (\<lambda>(rs, ps). parseargs n [] rs ps)) s"
      using s1 by (intro yields_bind [OF parseredirs_words] parseargs_words) (simp_all add: redir_words_def)
    then show ?thesis using block [OF s1] by (simp add: p)
  qed
  ultimately show ?case by blast
qed simp

section \<open>NULs at the ends of words\<close>

lemma nulterminate_length [simp]: "length (nulterminate n c buf) = length buf"
proof (induction c arbitrary: buf)
  case (EXEC args)
  show ?case by (induction args arbitrary: buf) (auto simp: put_nul_def)
qed (auto simp: put_nul_def)

definition ends :: "nat \<Rightarrow> (ptr \<times> ptr) list \<Rightarrow> nat set" where
  "ends n ws = (\<lambda>(q, eq). n - length eq) ` set ws"

lemma ends_simps [simp]:
  "ends n [] = {}" "ends n ((q, eq) # ws) = insert (n - length eq) (ends n ws)" "ends n (vs @ ws) = ends n vs \<union> ends n ws"
  by (auto simp: ends_def)

lemma put_nul_nth: "i < length buf \<Longrightarrow> put_nul n eq buf ! i = (if i = n - length eq then NUL else buf ! i)"
  by (auto simp: put_nul_def)

lemma put_nul_length [simp]: "length (put_nul n eq buf) = length buf"
  by (simp add: put_nul_def)

lemma nulterminate_nth:
  "i < length buf \<Longrightarrow> nulterminate n c buf ! i = (if i \<in> ends n (words c) then NUL else buf ! i)"
proof (induction c arbitrary: buf)
  case (EXEC args)
  then show ?case by (induction args arbitrary: buf) (auto simp: put_nul_nth)
qed (auto simp: put_nul_nth)

text \<open>
  C25. The pass that ends the words in the line is sound: for every line the parser accepts,
  after \<open>nulterminate\<close> each word and file name of the command, read as a C string from the
  buffer, is exactly the text the parser took it from, although all of them share one buffer.
\<close>

theorem nulterminate_words:
  assumes "parsecmd fuel s = POk c" "NUL \<notin> set s" "(q, eq) \<in> set (words c)"
  shows "deref (length s) (nulterminate (length s) c (s @ [NUL])) q = take (length q - length eq) q"
proof -
  let ?n = "length s" and ?b = "nulterminate (length s) c (s @ [NUL])"
  obtain ps where "parseline fuel s = POk (c, ps)"
    using assms(1) by (cases "parseline fuel s") (auto simp: parsecmd_def split: prod.splits if_splits)
  moreover have "yields words (parseline fuel s) s" using parse_words [of s s fuel] by simp
  ultimately have lw: "list_all (line_word s) (words c)" by simp
  then have "line_word s (q, eq)" using assms(3) by (auto simp: list_all_iff)
  then obtain w p where w: "q = w @ eq" "\<forall>c\<in>set w. \<not> separator c" "s = p @ q" by (auto simp: line_word_def suffix_def)
  have at_end: "s ! (?n - length e) \<in> Collect separator" if "(q', e) \<in> set (words c)" "?n - length e < ?n" for q' e
  proof -
    have "line_word s (q', e)" using lw that(1) by (auto simp: list_all_iff)
    then obtain v u where "s = v @ u @ e" "e = [] \<or> separator (hd e)" by (auto simp: line_word_def suffix_def)
    with that(2) show ?thesis by (cases e) (auto simp: nth_append)
  qed
  have keep: "?b ! (length p + i) = w ! i" if "i < length w" for i
  proof -
    have "s ! (length p + i) = w ! i" using that by (simp add: w nth_append)
    moreover have "\<not> separator (w ! i)" using w(2) that by simp
    moreover have "length p + i < ?n" using that by (simp add: w(1,3))
    ultimately have "length p + i \<notin> ends ?n (words c)"
      using at_end by (fastforce simp: ends_def)
    then show ?thesis using that by (auto simp: nulterminate_nth nth_append w(1,3))
  qed
  have nul: "?b ! (length p + length w) = NUL"
  proof -
    have "length p + length w \<in> ends ?n (words c)"
      unfolding ends_def by (rule image_eqI [OF _ assms(3)]) (simp add: w(1,3))
    then show ?thesis by (subst nulterminate_nth) (simp_all add: w(1,3))
  qed
  have "drop (length p) ?b = w @ NUL # drop (Suc (length p + length w)) ?b"
  proof (rule nth_equalityI)
    show "length (drop (length p) ?b) = length (w @ NUL # drop (Suc (length p + length w)) ?b)" by (simp add: w(1,3))
    fix i assume "i < length (drop (length p) ?b)"
    then show "drop (length p) ?b ! i = (w @ NUL # drop (Suc (length p + length w)) ?b) ! i"
      using keep [of i] nul by (cases "i < length w"; cases "i = length w") (auto simp: nth_append nth_Cons')
  qed
  moreover have "NUL \<notin> set w" using assms(2) by (simp add: w(1,3))
  moreover have "takeWhile (\<lambda>c. c \<noteq> NUL) (w @ NUL # r) = w" if "NUL \<notin> set w" for r
    using that by (induction w) auto
  ultimately show ?thesis by (simp add: deref_def cstring_def w(1,3))
qed

theorem nulterminate_words_witness:
  "deref 6 (nulterminate 6 (REDIR (EXEC [(''ls>a b'', ''>a b''), (''b'', [])]) ''a b'' '' b'' 0x601 1) (''ls>a b'' @ [NUL])) ''a b'' = ''a''"
proof -
  have "parsecmd 34 ''ls>a b'' = POk (REDIR (EXEC [(''ls>a b'', ''>a b''), (''b'', [])]) ''a b'' '' b'' 0x601 1)"
    by code_simp
  from nulterminate_words [OF this, of "''a b''" "'' b''"] show ?thesis by (simp add: eval_nat_numeral)
qed

end
