(* ===== verification/Umalloc.thy ===== *)
theory Umalloc
  imports Usys
begin

text \<open>
  The allocator of the user library, \<^verbatim>\<open>user/umalloc.c\<close>: a circular list of free blocks in order of
  address, threaded through the blocks themselves. Addresses and sizes count headers of 16
  bytes; the heap of a process is far below \<open>2 ^ 32\<close> of them, so the sums of sizes are exact.
\<close>

section \<open>The allocator\<close>

text \<open>The headers by address, and \<open>freep\<close>, where \<open>None\<close> is the null pointer.\<close>

record malloc_st =
  m_ptr :: "nat \<Rightarrow> nat"
  m_size :: "nat \<Rightarrow> nat"
  freep :: "nat option"

text \<open>The search of \<open>free\<close> for the place of \<open>bp\<close>; \<open>None\<close> if it has not ended after \<open>fuel\<close> steps.\<close>

primrec free_place :: "nat \<Rightarrow> malloc_st \<Rightarrow> nat \<Rightarrow> nat \<Rightarrow> nat option" where
  "free_place 0 s bp p = None"
| "free_place (Suc n) s bp p =
     (if bp > p \<and> bp < m_ptr s p then Some p
      else if p \<ge> m_ptr s p \<and> (bp > p \<or> bp < m_ptr s p) then Some p
      else free_place n s bp (m_ptr s p))"

definition free_link :: "nat \<Rightarrow> nat \<Rightarrow> malloc_st \<Rightarrow> malloc_st" where
  "free_link bp p s =
     (let nx = m_ptr s p;
          s = (if bp + m_size s bp = nx
               then s\<lparr>m_size := (m_size s)(bp := m_size s bp + m_size s nx), m_ptr := (m_ptr s)(bp := m_ptr s nx)\<rparr>
               else s\<lparr>m_ptr := (m_ptr s)(bp := nx)\<rparr>);
          s = (if p + m_size s p = bp
               then s\<lparr>m_size := (m_size s)(p := m_size s p + m_size s bp), m_ptr := (m_ptr s)(p := m_ptr s bp)\<rparr>
               else s\<lparr>m_ptr := (m_ptr s)(p := bp)\<rparr>)
      in s\<lparr>freep := Some p\<rparr>)"

definition free :: "nat \<Rightarrow> nat \<Rightarrow> malloc_st \<Rightarrow> malloc_st option" where
  "free fuel ap s =
     (let bp = ap - 1 in
      case freep s of
        None \<Rightarrow> None
      | Some f \<Rightarrow> (case free_place fuel s bp f of None \<Rightarrow> None | Some p \<Rightarrow> Some (free_link bp p s)))"

text \<open>\<open>morecore\<close>: the result \<open>None\<close> is the null pointer. An address that is no multiple of 16 is not modelled.\<close>

definition morecore :: "nat \<Rightarrow> nat \<Rightarrow> malloc_st \<Rightarrow> (nat option \<times> malloc_st) uop" where
  "morecore fuel nu s =
     (let nu = (if nu < 4096 then 4096 else nu) in
      UCall (Sys_sbrk (of_nat (nu * 16))) (\<lambda>a.
      if a_ret a = - 1 then URet (None, s)
      else if a_ret a mod 16 \<noteq> 0 then UBad
      else
        let hp = unat (a_ret a) div 16 in
        case free fuel (hp + 1) (s\<lparr>m_size := (m_size s)(hp := nu)\<rparr>) of
          None \<Rightarrow> UFuel
        | Some s \<Rightarrow> URet (freep s, s)))"

text \<open>Take \<open>nunits\<close> from the block \<open>p\<close> that follows \<open>prevp\<close>: its tail, or all of it.\<close>

definition malloc_take :: "nat \<Rightarrow> nat \<Rightarrow> nat \<Rightarrow> malloc_st \<Rightarrow> nat \<times> malloc_st" where
  "malloc_take nunits prevp p s =
     (if m_size s p = nunits
      then (p + 1, s\<lparr>m_ptr := (m_ptr s)(prevp := m_ptr s p), freep := Some prevp\<rparr>)
      else
        let s = s\<lparr>m_size := (m_size s)(p := m_size s p - nunits)\<rparr>;
            p = p + m_size s p
        in (p + 1, s\<lparr>m_size := (m_size s)(p := nunits), freep := Some prevp\<rparr>))"

definition malloc_step :: "nat \<Rightarrow> nat \<Rightarrow> nat \<times> nat \<times> malloc_st \<Rightarrow> ((nat \<times> nat \<times> malloc_st) + (nat \<times> malloc_st)) uop" where
  "malloc_step fuel nunits = (\<lambda>(prevp, p, s).
     if m_size s p \<ge> nunits then URet (Inr (malloc_take nunits prevp p s))
     else if Some p = freep s then
       ubnd (morecore fuel nunits s) (\<lambda>(q, s).
       case q of None \<Rightarrow> URet (Inr (0, s)) | Some p \<Rightarrow> URet (Inl (p, m_ptr s p, s)))
     else URet (Inl (p, m_ptr s p, s)))"

text \<open>\<open>base\<close> is the address of the static header.\<close>

definition malloc :: "nat \<Rightarrow> nat \<Rightarrow> u32 \<Rightarrow> malloc_st \<Rightarrow> (nat \<times> malloc_st) uop" where
  "malloc fuel base nbytes s =
     (let nunits = (unat nbytes + 16 - 1) div 16 + 1;
          (prevp, s) = (case freep s of
             None \<Rightarrow> (base, s\<lparr>m_ptr := (m_ptr s)(base := base), m_size := (m_size s)(base := 0), freep := Some base\<rparr>)
           | Some f \<Rightarrow> (f, s))
      in uloop fuel (malloc_step fuel nunits) (prevp, m_ptr s prevp, s))"

section \<open>The circular list\<close>

text \<open>The element that follows \<open>a\<close> in the circular order of \<open>S\<close>.\<close>

definition nxt :: "nat set \<Rightarrow> nat \<Rightarrow> nat" where
  "nxt S a = (if \<exists>y\<in>S. a < y then Min {y\<in>S. a < y} else Min S)"

text \<open>
  \<open>S\<close> are the addresses of the free blocks: \<open>base\<close> first, which is empty, and then blocks that do
  not overlap, all of them linked in the order of their addresses.
\<close>

definition heap_ok :: "nat \<Rightarrow> nat set \<Rightarrow> malloc_st \<Rightarrow> bool" where
  "heap_ok base S s \<longleftrightarrow> finite S \<and> base \<in> S \<and> (\<forall>a\<in>S. base \<le> a) \<and> m_size s base = 0 \<and>
     (\<forall>a\<in>S. a \<noteq> base \<longrightarrow> 0 < m_size s a) \<and> (\<forall>a\<in>S. m_ptr s a = nxt S a) \<and>
     (\<forall>a\<in>S. \<forall>b\<in>S. a < b \<longrightarrow> a + m_size s a \<le> b) \<and> (\<exists>f\<in>S. freep s = Some f)"

text \<open>The memory the allocator has on its list.\<close>

definition free_units :: "nat set \<Rightarrow> malloc_st \<Rightarrow> nat set" where
  "free_units S s = (\<Union>a\<in>S. {a..<a + m_size s a})"

lemma nxt_eqI:
  assumes "finite S" "y \<in> S" "a < y" "\<And>z. z \<in> S \<Longrightarrow> a < z \<Longrightarrow> y \<le> z"
  shows "nxt S a = y"
proof -
  have "Min {y\<in>S. a < y} = y" using assms by (intro Min_eqI) auto
  then show ?thesis using assms(2,3) by (auto simp: nxt_def)
qed

lemma nxt_wrap:
  assumes "finite S" "y \<in> S" "\<And>z. z \<in> S \<Longrightarrow> y \<le> z" "\<And>z. z \<in> S \<Longrightarrow> z \<le> a"
  shows "nxt S a = y"
proof -
  have "Min S = y" using assms(1-3) by (intro Min_eqI) auto
  moreover have "\<not> (\<exists>y\<in>S. a < y)" using assms(4) by (auto simp: not_less)
  ultimately show ?thesis by (simp add: nxt_def)
qed

lemma nxt_cases [consumes 2, case_names up wrap]:
  assumes "finite S" "S \<noteq> {}"
  obtains (up) "nxt S a \<in> S" "a < nxt S a" "\<And>z. z \<in> S \<Longrightarrow> a < z \<Longrightarrow> nxt S a \<le> z"
    | (wrap) "nxt S a \<in> S" "nxt S a \<le> a" "\<And>z. z \<in> S \<Longrightarrow> nxt S a \<le> z" "\<And>z. z \<in> S \<Longrightarrow> z \<le> a"
proof (cases "\<exists>y\<in>S. a < y")
  case True
  let ?T = "{y\<in>S. a < y}"
  have "finite ?T" "?T \<noteq> {}" using assms True by auto
  then have "Min ?T \<in> ?T" "\<And>z. z \<in> ?T \<Longrightarrow> Min ?T \<le> z" by (rule Min_in, simp)
  with True show thesis by (intro up) (auto simp: nxt_def)
next
  case False
  then have z: "z \<in> S \<Longrightarrow> z \<le> a" for z by (meson not_less)
  have "Min S \<in> S" "\<And>z. z \<in> S \<Longrightarrow> Min S \<le> z" using assms by simp_all
  with False z show thesis by (intro wrap) (auto simp: nxt_def)
qed

lemma nxt_in: "finite S \<Longrightarrow> S \<noteq> {} \<Longrightarrow> nxt S a \<in> S"
  by (cases rule: nxt_cases [where a = a]) auto

section \<open>Finding the place of a block\<close>

text \<open>The last free block before \<open>bp\<close>.\<close>

definition place :: "nat set \<Rightarrow> nat \<Rightarrow> nat" where
  "place S bp = Max {a\<in>S. a < bp}"

lemma place_props:
  assumes "finite S" "base \<in> S" "base < bp"
  shows "place S bp \<in> S" "place S bp < bp" "\<And>a. a \<in> S \<Longrightarrow> a < bp \<Longrightarrow> a \<le> place S bp"
proof -
  have f: "finite {a\<in>S. a < bp}" "{a\<in>S. a < bp} \<noteq> {}" using assms by auto
  from Max_in [OF f] show "place S bp \<in> S" "place S bp < bp" by (auto simp: place_def)
  show "a \<in> S \<Longrightarrow> a < bp \<Longrightarrow> a \<le> place S bp" for a unfolding place_def using f by (intro Max_ge) auto
qed


definition steps_to :: "nat set \<Rightarrow> nat \<Rightarrow> nat \<Rightarrow> nat" where
  "steps_to S t p = (if p \<le> t then card {y\<in>S. p < y \<and> y \<le> t} else card {y\<in>S. p < y} + card {y\<in>S. y \<le> t})"

lemma steps_to_Suc:
  assumes "finite S" "t \<in> S" "p \<in> S" "p \<noteq> t"
  shows "steps_to S t p = Suc (steps_to S t (nxt S p))"
proof -
  have S: "S \<noteq> {}" using assms(2) by auto
  let ?n = "nxt S p"
  from assms(1) S show ?thesis
  proof (cases rule: nxt_cases [where a = p])
    case up
    show ?thesis
    proof (cases "p < t")
      case True
      then have n: "?n \<le> t" using up assms(2) by blast
      then have "{y\<in>S. p < y \<and> y \<le> t} = insert ?n {y\<in>S. ?n < y \<and> y \<le> t}" using up by (auto intro: le_neq_implies_less)
      then show ?thesis using True n assms(1) by (simp add: steps_to_def)
    next
      case False
      have "{y\<in>S. p < y} = insert ?n {y\<in>S. ?n < y}" using up by (auto intro: le_neq_implies_less)
      then show ?thesis using False up assms(1,4) by (simp add: steps_to_def)
    qed
  next
    case wrap
    then have "t < p" "{y\<in>S. p < y} = {}" using assms(2,4) by (auto simp: not_less intro: le_neq_implies_less)
    moreover have "{y\<in>S. y \<le> t} = insert ?n {y\<in>S. ?n < y \<and> y \<le> t}" "?n \<le> t"
      using wrap assms(2) by (auto intro: le_neq_implies_less)
    ultimately show ?thesis using assms(1) by (simp add: steps_to_def)
  qed
qed

lemma steps_to_nxt:
  "finite S \<Longrightarrow> t \<in> S \<Longrightarrow> p \<in> S \<Longrightarrow> p \<noteq> t \<Longrightarrow> steps_to S t (nxt S p) < steps_to S t p"
  by (simp add: steps_to_Suc)

lemma steps_to_less:
  assumes "finite S" "p \<in> S"
  shows "steps_to S t p < card S"
proof -
  have "card ({y\<in>S. p < y} \<union> {y\<in>S. y \<le> t}) < card S" if "t < p"
    using assms that by (intro psubset_card_mono) auto
  moreover have "card {y\<in>S. p < y} + card {y\<in>S. y \<le> t} = card ({y\<in>S. p < y} \<union> {y\<in>S. y \<le> t})" if "t < p"
    using assms(1) that by (subst card_Un_disjoint) auto
  moreover have "card {y\<in>S. p < y \<and> y \<le> t} < card S" using assms by (intro psubset_card_mono) auto
  ultimately show ?thesis by (auto simp: steps_to_def)
qed

lemma steps_to_round:
  assumes "finite S" "q \<in> S"
  shows "Suc (steps_to S q (nxt S q)) = card S"
proof -
  have S: "S \<noteq> {}" using assms(2) by auto
  let ?n = "nxt S q"
  from assms(1) S show ?thesis
  proof (cases rule: nxt_cases [where a = q])
    case up
    have "S = insert ?n ({y\<in>S. ?n < y} \<union> {y\<in>S. y \<le> q})" using up by (auto simp: not_le intro: le_neq_implies_less)
    moreover have "card (insert ?n ({y\<in>S. ?n < y} \<union> {y\<in>S. y \<le> q})) = Suc (card {y\<in>S. ?n < y} + card {y\<in>S. y \<le> q})"
      using assms(1) up by (subst card_insert_disjoint, auto, subst card_Un_disjoint, auto)
    ultimately show ?thesis using up by (simp add: steps_to_def)
  next
    case wrap
    have "S = insert ?n {y\<in>S. ?n < y \<and> y \<le> q}" using wrap by (auto intro: le_neq_implies_less)
    moreover have "card (insert ?n {y\<in>S. ?n < y \<and> y \<le> q}) = Suc (card {y\<in>S. ?n < y \<and> y \<le> q})" using assms(1) by simp
    ultimately show ?thesis using wrap by (simp add: steps_to_def)
  qed
qed

lemma free_place_eq:
  assumes ok: "finite S" "base \<in> S" "\<forall>a\<in>S. base \<le> a" "\<forall>a\<in>S. m_ptr s a = nxt S a"
    and bp: "base < bp" "bp \<notin> S" and p: "p \<in> S" "steps_to S (place S bp) p < n"
  shows "free_place n s bp p = Some (place S bp)"
  using p
proof (induction n arbitrary: p)
  case (Suc n)
  let ?t = "place S bp"
  note t = place_props [OF ok(1,2) bp(1)]
  have S: "S \<noteq> {}" using ok(2) by auto
  have nx: "m_ptr s p = nxt S p" using ok(4) Suc.prems(1) by blast
  show ?case
  proof (cases "p = ?t")
    case True
    from ok(1) S have "bp < nxt S p \<or> nxt S p \<le> p"
    proof (cases rule: nxt_cases [where a = p])
      case up
      then have "\<not> nxt S p < bp" using t(3) True by (metis leD)
      then show ?thesis using up(1) bp(2) by (metis linorder_neqE_nat)
    qed simp
    then show ?thesis using t(2) True nx by auto
  next
    case False
    have go: "\<not> (bp > p \<and> bp < nxt S p)" "\<not> (p \<ge> nxt S p \<and> (bp > p \<or> bp < nxt S p))"
    proof -
      have "nxt S p \<le> ?t" if "p < ?t"
        using ok(1) S that t(1) by (cases rule: nxt_cases [where a = p]) (auto dest: leD)
      moreover have "bp < p" if "\<not> p < ?t" using that False t(3) Suc.prems(1) bp(2) by (metis linorder_neqE_nat leD)
      moreover have "nxt S p = base" if "nxt S p \<le> p"
        using ok(1) S that ok(2,3) by (cases rule: nxt_cases [where a = p]) (auto intro: antisym)
      moreover have "p < nxt S p" if "p < ?t"
        using ok(1) S that t(1) by (cases rule: nxt_cases [where a = p]) (auto dest: leD)
      ultimately show "\<not> (bp > p \<and> bp < nxt S p)" "\<not> (p \<ge> nxt S p \<and> (bp > p \<or> bp < nxt S p))"
        using t(2) bp(1) by force+
    qed
    from ok(1) S have "nxt S p \<in> S" by (cases rule: nxt_cases [where a = p]) auto
    moreover have "steps_to S ?t (nxt S p) < n"
      using steps_to_nxt [OF ok(1) t(1) Suc.prems(1) False] Suc.prems(2) by linarith
    ultimately have "free_place n s bp (nxt S p) = Some ?t" by (rule Suc.IH)
    then show ?thesis by (simp only: free_place.simps nx go if_False)
  qed
qed simp


section \<open>Linking and unlinking\<close>

lemma nxt_insert:
  assumes S: "finite S" "base \<in> S" "\<forall>a\<in>S. base \<le> a" and bp: "base < bp" "bp \<notin> S"
  shows "nxt (insert bp S) bp = nxt S (place S bp)"
    "a \<in> S \<Longrightarrow> nxt (insert bp S) a = (if a = place S bp then bp else nxt S a)"
proof -
  let ?p = "place S bp"
  note t = place_props [OF S(1,2) bp(1)]
  have ne: "S \<noteq> {}" using S(2) by auto
  have gt: "bp < z" if "z \<in> S" "?p < z" for z using that t(3) bp(2) by (metis leD linorder_neqE_nat)
  from S(1) ne show "nxt (insert bp S) bp = nxt S ?p"
  proof (cases rule: nxt_cases [where a = ?p])
    case up
    then show ?thesis using S(1) gt t(2) by (intro nxt_eqI) auto
  next
    case wrap
    have le: "z \<le> bp" if "z \<in> S" for z using wrap(4) [OF that] t(2) by simp
    show ?thesis using S(1) wrap(1,3) le by (intro nxt_wrap) auto
  qed
  assume a: "a \<in> S"
  show "nxt (insert bp S) a = (if a = ?p then bp else nxt S a)"
  proof (cases "a = ?p")
    case True
    have "nxt (insert bp S) ?p = bp" using S(1) t(2) by (intro nxt_eqI) (auto dest: gt)
    then show ?thesis using True by simp
  next
    case False
    have lt: "a < ?p" if "a < bp" using that False t(3) [OF a] by simp
    from S(1) ne have "nxt (insert bp S) a = nxt S a"
    proof (cases rule: nxt_cases [where a = a])
      case up
      then have "nxt S a \<le> bp" if "a < bp" using lt [OF that] t(1,2) by (meson le_trans less_imp_le)
      then show ?thesis using up S(1) by (intro nxt_eqI) auto
    next
      case wrap
      then have "bp \<le> a" using lt t(1) by (meson leD leI)
      moreover have "nxt S a \<le> bp" using wrap(3) [OF S(2)] bp(1) by simp
      ultimately show ?thesis using wrap S(1) by (intro nxt_wrap) auto
    qed
    then show ?thesis using False by simp
  qed
qed

lemma nxt_remove:
  assumes S: "finite S" "base \<in> S" "\<forall>a\<in>S. base \<le> a" and x: "x \<in> S" "x \<noteq> base" and a: "a \<in> S" "a \<noteq> x"
  shows "nxt (S - {x}) a = (if nxt S a = x then nxt S x else nxt S a)"
proof -
  have ne: "S \<noteq> {}" using S(2) by auto
  have bx: "base < x" using S(3) x by (metis le_neq_implies_less)
  show ?thesis
  proof (cases "nxt S a = x")
    case True
    from S(1) ne have ax: "a < x" "\<And>z. z \<in> S \<Longrightarrow> a < z \<Longrightarrow> x \<le> z"
      using True bx S(2) by (cases rule: nxt_cases [where a = a]; force)+
    from S(1) ne have "nxt (S - {x}) a = nxt S x"
    proof (cases rule: nxt_cases [where a = x])
      case up
      then show ?thesis using S(1) ax by (intro nxt_eqI) (auto dest: le_neq_implies_less)
    next
      case wrap
      then have "nxt S x \<noteq> x" using S(2) bx by force
      moreover have "z \<le> a" if "z \<in> S" "z \<noteq> x" for z
        using wrap(4) [OF that(1)] ax(2) [OF that(1)] that(2) by force
      ultimately show ?thesis using S(1) wrap by (intro nxt_wrap) auto
    qed
    then show ?thesis using True by simp
  next
    case False
    from S(1) ne have "nxt (S - {x}) a = nxt S a"
    proof (cases rule: nxt_cases [where a = a])
      case up
      then show ?thesis using S(1) False by (intro nxt_eqI) auto
    next
      case wrap
      then show ?thesis using S(1) False by (intro nxt_wrap) auto
    qed
    then show ?thesis using False by simp
  qed
qed


text \<open>A block that is not on the list and does not overlap it.\<close>

definition apart :: "nat \<Rightarrow> nat set \<Rightarrow> malloc_st \<Rightarrow> nat \<Rightarrow> nat \<Rightarrow> bool" where
  "apart base S s bp n \<longleftrightarrow> base < bp \<and> bp \<notin> S \<and> 0 < n \<and>
     (\<forall>a\<in>S. a < bp \<longrightarrow> a + m_size s a \<le> bp) \<and> (\<forall>a\<in>S. bp < a \<longrightarrow> bp + n \<le> a)"

lemma heap_insert:
  assumes ok: "heap_ok base S s" and ap: "apart base S s bp (m_size s bp)"
  shows "heap_ok base (insert bp S) (s\<lparr>m_ptr := (m_ptr s)(bp := nxt S (place S bp), place S bp := bp), freep := Some (place S bp)\<rparr>)"
proof -
  have S: "finite S" "base \<in> S" "\<forall>a\<in>S. base \<le> a" and bp: "base < bp" "bp \<notin> S"
    using ok ap by (auto simp: heap_ok_def apart_def)
  note t = place_props [OF S(1,2) bp(1)] and n = nxt_insert [OF S bp]
  have "\<forall>a\<in>insert bp S. ((m_ptr s)(bp := nxt S (place S bp), place S bp := bp)) a = nxt (insert bp S) a"
    using ok n bp(2) t(1,2) by (auto simp: heap_ok_def)
  with ok ap t(1) bp show ?thesis by (auto simp: heap_ok_def apart_def)
qed

text \<open>Two neighbours on the list that touch become one block.\<close>

definition merge :: "nat \<Rightarrow> nat \<Rightarrow> malloc_st \<Rightarrow> malloc_st" where
  "merge a x s = s\<lparr>m_size := (m_size s)(a := m_size s a + m_size s x), m_ptr := (m_ptr s)(a := m_ptr s x)\<rparr>"

lemma heap_merge:
  assumes ok: "heap_ok base S s" and a: "a \<in> S" "nxt S a = x" "a + m_size s a = x" "x \<noteq> base" "freep s \<noteq> Some x"
  shows "heap_ok base (S - {x}) (merge a x s)" "free_units (S - {x}) (merge a x s) = free_units S s"
proof -
  have S: "finite S" "base \<in> S" "\<forall>a\<in>S. base \<le> a" and sz: "\<forall>a\<in>S. a \<noteq> base \<longrightarrow> 0 < m_size s a" "m_size s base = 0"
    and sep: "\<And>a b. a \<in> S \<Longrightarrow> b \<in> S \<Longrightarrow> a < b \<Longrightarrow> a + m_size s a \<le> b" and lk: "\<forall>a\<in>S. m_ptr s a = nxt S a"
    using ok by (auto simp: heap_ok_def)
  have ne: "S \<noteq> {}" using S(2) by auto
  from S(1) ne have x: "x \<in> S" using a(2) by (cases rule: nxt_cases [where a = a]) auto
  have ab: "a \<noteq> base" using a(3,4) sz(2) by auto
  then have lt: "a < x" using a(1,3) sz(1) by auto
  then have ax: "a \<noteq> x" by simp
  have next_gt: "x \<le> z" if "z \<in> S" "a < z" for z
    using S(1) ne a(2) lt that by (cases rule: nxt_cases [where a = a]) auto
  have links: "\<forall>b\<in>S - {x}. m_ptr (merge a x s) b = nxt (S - {x}) b"
  proof
    fix b assume b: "b \<in> S - {x}"
    have "nxt (S - {x}) b = (if nxt S b = x then nxt S x else nxt S b)" using b by (intro nxt_remove [OF S x a(4)]) auto
    moreover have "nxt S b = x \<longleftrightarrow> b = a"
    proof
      assume "nxt S b = x"
      from S(1) ne this have "b < x" "\<And>z. z \<in> S \<Longrightarrow> b < z \<Longrightarrow> x \<le> z"
        using S(2,3) a(4) x by (cases rule: nxt_cases [where a = b]; force)+
      then show "b = a" using next_gt [of b] b a(1) lt by (metis DiffD1 leD linorder_neqE_nat)
    qed (simp add: a(2))
    ultimately show "m_ptr (merge a x s) b = nxt (S - {x}) b" using b lk x by (auto simp: merge_def)
  qed
  have seps: "b + m_size (merge a x s) b \<le> c" if "b \<in> S - {x}" "c \<in> S - {x}" "b < c" for b c
  proof (cases "b = a")
    case True
    then have "x < c" using next_gt [of c] that by auto
    then have "x + m_size s x \<le> c" using sep x that(2) by auto
    then show ?thesis using True a(3) by (simp add: merge_def)
  next
    case False
    then show ?thesis using sep that by (simp add: merge_def)
  qed
  show "heap_ok base (S - {x}) (merge a x s)"
    unfolding heap_ok_def using S a(4) links seps sz ab ok a(5) by (auto simp: merge_def heap_ok_def)
  have "{a..<a + m_size (merge a x s) a} = {a..<a + m_size s a} \<union> {x..<x + m_size s x}"
    using a(3) by (auto simp: merge_def)
  moreover have "S = insert a (insert x (S - {a, x}))" "S - {x} = insert a (S - {a, x})" using a(1) x ax by auto
  ultimately show "free_units (S - {x}) (merge a x s) = free_units S s"
    by (auto simp: free_units_def merge_def split: if_splits)
qed

lemma free_link_eq:
  assumes "m_ptr s p = nx" "p \<noteq> bp" "p \<noteq> bp + m_size s bp" "bp \<noteq> bp + m_size s bp"
  shows "free_link bp p s =
    (let s1 = s\<lparr>m_ptr := (m_ptr s)(bp := nx, p := bp), freep := Some p\<rparr>;
         s2 = (if bp + m_size s bp = nx then merge bp nx s1 else s1)
     in if p + m_size s p = bp then merge p bp s2 else s2)"
  using assms by (auto simp: free_link_def merge_def Let_def fun_upd_twist)


lemma free_ok:
  assumes ok: "heap_ok base S s" and ap: "apart base S s bp (m_size s bp)" and fuel: "card S < fuel"
  obtains s' S' where "free fuel (bp + 1) s = Some s'" "heap_ok base S' s'" "S' \<subseteq> insert bp S"
    "free_units S' s' = free_units S s \<union> {bp..<bp + m_size s bp}" "\<exists>a\<in>S'. m_size s bp \<le> m_size s' a"
    "\<And>a. a \<notin> insert bp S \<Longrightarrow> m_size s' a = m_size s a"
proof -
  have S: "finite S" "base \<in> S" "\<forall>a\<in>S. base \<le> a" "\<forall>a\<in>S. m_ptr s a = nxt S a" and bp: "base < bp" "bp \<notin> S" "0 < m_size s bp"
    using ok ap by (auto simp: heap_ok_def apart_def)
  define p where "p = place S bp"
  note t = place_props [OF S(1,2) bp(1), folded p_def] and nI = nxt_insert [OF S(1-3) bp(1,2), folded p_def]
  define nx where "nx = nxt S p"
  obtain f where f: "f \<in> S" "freep s = Some f" using ok by (auto simp: heap_ok_def)
  have "steps_to S (place S bp) f < fuel" using steps_to_less [OF S(1) f(1)] fuel by (rule less_trans)
  then have fr: "free fuel (bp + 1) s = Some (free_link bp p s)"
    using free_place_eq [OF S bp(1,2) f(1)] f(2) by (simp add: free_def p_def)
  let ?S1 = "insert bp S" and ?s1 = "s\<lparr>m_ptr := (m_ptr s)(bp := nx, p := bp), freep := Some p\<rparr>"
  have h1: "heap_ok base ?S1 ?s1" using heap_insert [OF ok ap] by (simp add: p_def nx_def)
  have u1: "free_units ?S1 ?s1 = free_units S s \<union> {bp..<bp + m_size s bp}" by (auto simp: free_units_def)
  define up where "up \<longleftrightarrow> bp + m_size s bp = nx"
  define S2 where "S2 = (if up then ?S1 - {nx} else ?S1)"
  define s2 where "s2 = (if up then merge bp nx ?s1 else ?s1)"
  have nxb: "nx \<noteq> base" "p \<noteq> nx" "bp \<noteq> nx" if up using that bp t(2) by (auto simp: up_def)
  have h2: "heap_ok base S2 s2 \<and> free_units S2 s2 = free_units ?S1 ?s1"
    using heap_merge [OF h1, of bp nx] nxb nI(1) h1 by (auto simp: S2_def s2_def up_def nx_def)
  have S2: "p \<in> S2" "bp \<in> S2" "S2 \<subseteq> ?S1" using t(1) nxb by (auto simp: S2_def)
  have np: "nxt S2 p = bp"
  proof (cases up)
    case True
    have "nx \<in> S" unfolding nx_def using S(1) t(1) by (intro nxt_in) auto
    moreover have "nxt ?S1 p = bp" using nI(2) [OF t(1)] by simp
    ultimately show ?thesis
      using nxt_remove [of ?S1 base nx p] S bp(1) t(1) nxb True by (auto simp: S2_def)
  next
    case False
    then show ?thesis using nI(2) [OF t(1)] by (simp add: S2_def)
  qed
  have z2: "m_size s2 p = m_size s p" "freep s2 = Some p" "m_size s bp \<le> m_size s2 bp"
    "\<And>a. a \<noteq> bp \<Longrightarrow> m_size s2 a = m_size s a" using t(2) by (auto simp: s2_def merge_def)
  define low where "low \<longleftrightarrow> p + m_size s p = bp"
  let ?S3 = "if low then S2 - {bp} else S2" and ?s3 = "if low then merge p bp s2 else s2"
  have link: "free_link bp p s = ?s3"
    using free_link_eq [of s p nx bp] S(4) t(1,2) bp(3) by (simp add: nx_def low_def s2_def up_def Let_def)
  show thesis
  proof (rule that [of "free_link bp p s" ?S3])
    show "heap_ok base ?S3 (free_link bp p s)"
      unfolding link using h2 heap_merge(1) [of base S2 s2 p bp] S2 np z2 bp(1) t(2) by (auto simp: low_def)
    show "free_units ?S3 (free_link bp p s) = free_units S s \<union> {bp..<bp + m_size s bp}"
      unfolding link using h2 u1 heap_merge(2) [of base S2 s2 p bp] S2 np z2 bp(1) t(2) by (auto simp: low_def)
    show "\<exists>a\<in>?S3. m_size s bp \<le> m_size (free_link bp p s) a"
      unfolding link using S2 z2(3) t(2) by (intro bexI [of _ "if low then p else bp"]) (auto simp: merge_def)
    show "m_size (free_link bp p s) a = m_size s a" if "a \<notin> insert bp S" for a
      unfolding link using that z2(4) t(1) by (auto simp: merge_def)
  qed (use fr S2(3) in auto)
qed


section \<open>Taking memory\<close>

lemma heap_take:
  assumes ok: "heap_ok base S s" and p: "prevp \<in> S" "p = nxt S prevp" "0 < n" "n \<le> m_size s p"
  obtains a s' S' where "malloc_take n prevp p s = (a + 1, s')" "heap_ok base S' s'" "S' \<subseteq> S"
    "{a..<a + n} \<subseteq> free_units S s" "free_units S' s' = free_units S s - {a..<a + n}" "m_size s' a = n" "base < a"
    "\<And>b. b \<notin> S \<Longrightarrow> b \<noteq> a \<Longrightarrow> m_size s' b = m_size s b" "a \<notin> S'"
proof -
  have S: "finite S" "base \<in> S" "\<forall>a\<in>S. base \<le> a" "\<forall>a\<in>S. m_ptr s a = nxt S a" and sz: "m_size s base = 0"
    and sep: "\<And>a b. a \<in> S \<Longrightarrow> b \<in> S \<Longrightarrow> a < b \<Longrightarrow> a + m_size s a \<le> b"
    using ok by (auto simp: heap_ok_def)
  have ne: "S \<noteq> {}" using S(2) by auto
  have pS: "p \<in> S" unfolding p(2) using S(1,2) by (intro nxt_in) auto
  have pb: "base < p" using pS S(3) p(3,4) sz by (metis le_neq_implies_less not_less)
  have others: "{b..<b + m_size s b} \<inter> {p..<p + m_size s p} = {}" if "b \<in> S" "b \<noteq> p" for b
    using sep [of b p] sep [of p b] that pS by (cases "b < p") auto
  show thesis
  proof (cases "m_size s p = n")
    case True
    let ?s = "s\<lparr>m_ptr := (m_ptr s)(prevp := m_ptr s p), freep := Some prevp\<rparr>"
    have pv: "prevp \<noteq> p"
    proof
      assume "prevp = p"
      from S(1) ne have "base = p" using S(2,3) p(2) \<open>prevp = p\<close> pb by (cases rule: nxt_cases [where a = p]) (auto dest: leD)
      then show False using pb by simp
    qed
    have nr: "nxt (S - {p}) b = (if nxt S b = p then nxt S p else nxt S b)" if "b \<in> S - {p}" for b
      using that pb by (intro nxt_remove [OF S(1-3) pS]) auto
    have uniq: "b = prevp" if "b \<in> S - {p}" "nxt S b = p" for b
    proof -
      have lt: "c < p \<and> (\<forall>z\<in>S. c < z \<longrightarrow> p \<le> z)" if "c \<in> S" "nxt S c = p" for c
        using S(1) ne that S(2) pb by (cases rule: nxt_cases [where a = c]) force+
      show ?thesis using lt [of b] lt [of prevp] that p(1,2) by (metis DiffD1 leD linorder_neqE_nat)
    qed
    have "\<forall>b\<in>S - {p}. m_ptr ?s b = nxt (S - {p}) b"
    proof
      fix b assume b: "b \<in> S - {p}"
      have "nxt S b = p \<longleftrightarrow> b = prevp" using uniq [OF b] p(2) by blast
      then show "m_ptr ?s b = nxt (S - {p}) b" using nr [OF b] b S(4) pS by simp
    qed
    then have "heap_ok base (S - {p}) ?s" using ok pb p(1) pv by (simp add: heap_ok_def)
    moreover have "free_units (S - {p}) ?s = free_units S s - {p..<p + n}"
    proof -
      have "free_units S s = free_units (S - {p}) ?s \<union> {p..<p + n}" using pS True by (auto simp: free_units_def)
      moreover have "free_units (S - {p}) ?s \<inter> {p..<p + n} = {}"
        unfolding free_units_def True [symmetric] Int_UN_distrib2 UN_simps using others by (auto simp del: Int_atLeastLessThan)
      ultimately show ?thesis by blast
    qed
    moreover have "{p..<p + n} \<subseteq> free_units S s" using pS True by (auto simp: free_units_def)
    moreover have "malloc_take n prevp p s = (p + 1, ?s)" using True by (simp add: malloc_take_def)
    ultimately show thesis by (intro that [of p ?s "S - {p}"]) (use True pb pS in auto)
  next
    case False
    define d where "d = m_size s p - n"
    have d: "m_size s p = d + n" "0 < d" using False p(4) by (simp_all add: d_def)
    let ?a = "p + d"
    let ?s = "s\<lparr>m_size := (m_size s)(p := d, ?a := n), freep := Some prevp\<rparr>"
    have lt: "n < m_size s p" using d by simp
    have aS: "?a \<notin> S"
    proof
      assume "?a \<in> S"
      from sep [OF pS this] show False using d p(3) by simp
    qed
    have "b + m_size ?s b \<le> c" if "b \<in> S" "c \<in> S" "b < c" for b c
      using sep [OF that] that aS d by (cases "b = p") auto
    then have "heap_ok base S ?s" using ok aS d p(1) pS pb by (auto simp: heap_ok_def)
    moreover have "free_units S ?s = free_units S s - {?a..<?a + n}"
    proof -
      have "{b..<b + m_size ?s b} = {b..<b + m_size s b} - {?a..<?a + n}" if "b \<in> S" for b
        using others [OF that] that aS d by (cases "b = p") auto
      then show ?thesis by (auto simp: free_units_def)
    qed
    moreover have "{?a..<?a + n} \<subseteq> free_units S s" unfolding free_units_def using d by (intro subset_trans [OF _ UN_upper [OF pS]]) auto
    moreover have "malloc_take n prevp p s = (?a + 1, ?s)" using False d by (simp add: malloc_take_def Let_def)
    ultimately show thesis by (intro that [of ?a ?s S]) (use aS d pb pS in auto)
  qed
qed


section \<open>The search of malloc\<close>

text \<open>The search ends at the first block that is large enough: \<open>prev\<close> is the block before it.\<close>

definition finds :: "nat \<Rightarrow> nat set \<Rightarrow> malloc_st \<Rightarrow> (nat \<times> malloc_st) uresult \<Rightarrow> bool" where
  "finds n S s r \<longleftrightarrow> (\<exists>prev\<in>S. n \<le> m_size s (nxt S prev) \<and> r = Returned (malloc_take n prev (nxt S prev) s))"

lemma search_found:
  assumes ok: "heap_ok base S s" and b: "freep s = Some q" "b \<in> S" "n \<le> m_size s b"
    and "prevp \<in> S" "steps_to S b (nxt S prevp) \<le> steps_to S q (nxt S prevp)" "steps_to S b (nxt S prevp) < k"
  shows "\<exists>r. urun h (uloop k (malloc_step fuel n) (prevp, nxt S prevp, s)) e = (r, e) \<and> finds n S s r"
  using assms(5-7)
proof (induction k arbitrary: prevp)
  case (Suc k)
  let ?p = "nxt S prevp"
  have S: "finite S" "\<forall>a\<in>S. m_ptr s a = nxt S a" and q: "q \<in> S" using ok b(1) by (auto simp: heap_ok_def)
  have p: "?p \<in> S" using S(1) Suc.prems(1) by (intro nxt_in) auto
  show ?case
  proof (cases "n \<le> m_size s ?p")
    case True
    then show ?thesis using Suc.prems(1) by (auto simp: malloc_step_def finds_def urun_simps)
  next
    case False
    then have pb: "?p \<noteq> b" using b(3) by auto
    have sb: "steps_to S b ?p = Suc (steps_to S b (nxt S ?p))" by (rule steps_to_Suc [OF S(1) b(2) p pb])
    have pq: "?p \<noteq> q"
    proof
      assume "?p = q"
      then have "steps_to S q ?p = 0" by (simp add: steps_to_def)
      with sb Suc.prems(2) show False by simp
    qed
    have "steps_to S q ?p = Suc (steps_to S q (nxt S ?p))" by (rule steps_to_Suc [OF S(1) q p pq])
    with sb Suc.prems have "\<exists>r. urun h (uloop k (malloc_step fuel n) (?p, nxt S ?p, s)) e = (r, e) \<and> finds n S s r"
      by (intro Suc.IH [OF p]) simp_all
    then show ?thesis using False pq b(1) S(2) p by (simp add: malloc_step_def urun_simps)
  qed
qed simp

definition after_morecore :: "nat \<Rightarrow> nat \<Rightarrow> nat \<Rightarrow> nat option \<times> malloc_st \<Rightarrow> (nat \<times> malloc_st) uop" where
  "after_morecore k fuel n = (\<lambda>(q, s). case q of
     None \<Rightarrow> URet (0, s) | Some p \<Rightarrow> uloop k (malloc_step fuel n) (p, m_ptr s p, s))"

lemma search_round:
  assumes ok: "heap_ok base S s" and f: "freep s = Some f" and "prevp \<in> S" "steps_to S f (nxt S prevp) < k"
  shows "(\<exists>r. urun h (uloop k (malloc_step fuel n) (prevp, nxt S prevp, s)) e = (r, e) \<and> finds n S s r) \<or>
    (\<exists>k'. k \<le> k' + Suc (steps_to S f (nxt S prevp)) \<and>
      urun h (uloop k (malloc_step fuel n) (prevp, nxt S prevp, s)) e =
      urun h (ubnd (morecore fuel n s) (after_morecore k' fuel n)) e)"
  using assms(3,4)
proof (induction k arbitrary: prevp)
  case (Suc k)
  let ?p = "nxt S prevp"
  have S: "finite S" "\<forall>a\<in>S. m_ptr s a = nxt S a" and fS: "f \<in> S" using ok f by (auto simp: heap_ok_def)
  have p: "?p \<in> S" using S(1) Suc.prems(1) by (intro nxt_in) auto
  consider (fit) "n \<le> m_size s ?p" | (more) "\<not> n \<le> m_size s ?p" "?p = f" | (walk) "\<not> n \<le> m_size s ?p" "?p \<noteq> f" by blast
  then show ?case
  proof cases
    case fit
    then show ?thesis using Suc.prems(1) by (auto simp: malloc_step_def finds_def urun_simps)
  next
    case more
    let ?c = "\<lambda>(q, s). case q of None \<Rightarrow> URet (Inr (0, s)) | Some p \<Rightarrow> URet (Inl (p, m_ptr s p, s))"
    have ms: "malloc_step fuel n (prevp, ?p, s) = ubnd (morecore fuel n s) ?c" using more f by (simp add: malloc_step_def)
    have "(\<lambda>x. ubnd (?c x) (\<lambda>r. case r of Inl y \<Rightarrow> uloop k (malloc_step fuel n) y | Inr a \<Rightarrow> URet a)) = after_morecore k fuel n"
      by (rule ext) (auto simp: after_morecore_def split: option.split)
    then have "uloop (Suc k) (malloc_step fuel n) (prevp, ?p, s) = ubnd (morecore fuel n s) (after_morecore k fuel n)"
      by (simp only: uloop.simps ms ubnd_assoc)
    then show ?thesis by (intro disjI2 exI [of _ k]) simp
  next
    case walk
    have st: "steps_to S f ?p = Suc (steps_to S f (nxt S ?p))" by (rule steps_to_Suc [OF S(1) fS p walk(2)])
    have "uloop (Suc k) (malloc_step fuel n) (prevp, ?p, s) = uloop k (malloc_step fuel n) (?p, nxt S ?p, s)"
      using walk f S(2) p by (simp add: malloc_step_def)
    moreover have "steps_to S f (nxt S ?p) < k" using st Suc.prems(2) by simp
    from Suc.IH [OF p this] show ?thesis unfolding calculation st by fastforce
  qed
qed simp


section \<open>The heap of a process\<close>

text \<open>
  A kernel that gives memory: the break \<open>e\<close>, in units of 16 bytes, moves up to \<open>lim\<close> and no further.
\<close>

definition hkernel :: "nat \<Rightarrow> nat \<Rightarrow> sysc \<Rightarrow> answer \<times> nat" where
  "hkernel lim e c = (case c of
     Sys_sbrk n \<Rightarrow>
       (if 0 \<le> sint n \<and> sint n mod 16 = 0 \<and> e + nat (sint n) div 16 \<le> lim
        then (Ans (of_nat (16 * e)) [], e + nat (sint n) div 16) else (Ans (- 1) [], e))
   | _ \<Rightarrow> (Ans 0 [], e))"

text \<open>The blocks on the list lie below the break.\<close>

definition below :: "nat \<Rightarrow> nat set \<Rightarrow> malloc_st \<Rightarrow> nat \<Rightarrow> bool" where
  "below base S s e \<longleftrightarrow> base < e \<and> (\<forall>a\<in>S. a + m_size s a \<le> e)"

lemma below_free_units: "below base S s e \<Longrightarrow> free_units S s \<subseteq> {..<e}"
  by (auto simp: below_def free_units_def)

lemma below_card:
  assumes "heap_ok base S s" "below base S s e"
  shows "card S \<le> e" "e \<notin> S"
proof -
  have "a < e" if "a \<in> S" for a
  proof (cases "a = base")
    case False
    then have "0 < m_size s a" "a + m_size s a \<le> e" using that assms by (auto simp: heap_ok_def below_def)
    then show ?thesis by linarith
  qed (use assms(2) in \<open>simp add: below_def\<close>)
  then have "S \<subseteq> {..<e}" by auto
  then show "card S \<le> e" "e \<notin> S" using card_mono [of "{..<e}" S] by auto
qed

text \<open>What \<open>malloc\<close> may rely on after \<open>morecore\<close>: the new memory is on the list.\<close>

lemma morecore_ok:
  assumes ok: "heap_ok base S s" "below base S s e" and fuel: "e < fuel"
    and n: "16 * max 4096 n < 2 ^ 31" and lim: "lim < 2 ^ 59" "e \<le> lim"
  defines "nu \<equiv> max 4096 n"
  shows "urun (hkernel lim) (morecore fuel n s) e = (Returned (None, s), e) \<and> lim < e + nu \<or>
    (\<exists>s' S'. urun (hkernel lim) (morecore fuel n s) e = (Returned (freep s', s'), e + nu) \<and> e + nu \<le> lim \<and>
      heap_ok base S' s' \<and> S' \<subseteq> insert e S \<and> free_units S' s' = free_units S s \<union> {e..<e + nu} \<and>
      (\<exists>a\<in>S'. n \<le> m_size s' a) \<and> (\<forall>a. a < e \<longrightarrow> a \<notin> S \<longrightarrow> m_size s' a = m_size s a))"
proof -
  have nu: "(if n < 4096 then 4096 else n) = nu" by (auto simp: nu_def)
  have "sint (of_nat k :: i32) = int k" if "k < 2 ^ 31" for k
    using that by (simp add: signed_of_nat signed_take_bit_int_eq_self)
  from this [of "nu * 16"] have si: "sint (of_nat (nu * 16) :: i32) = int (16 * nu)" using n by (simp add: nu_def)
  have im: "int (16 * nu) mod 16 = 0" by simp
  have "unat (of_nat k :: u64) = k" if "k < 2 ^ 64" for k using that by (simp add: unat_of_nat)
  from this [of "16 * e"] have ua: "unat (of_nat (16 * e) :: u64) = 16 * e" using lim by simp
  have m16: "(of_nat (16 * e) :: u64) mod 16 = 0"
  proof -
    have "unat ((of_nat (16 * e) :: u64) mod 16) = 16 * e mod 16" by (simp only: unat_mod_distrib ua) simp
    then show ?thesis by (simp only: mod_mult_self1_is_0 unat_eq_zero)
  qed
  have ne: "(of_nat (16 * e) :: u64) \<noteq> - 1"
  proof -
    have "(- 1 :: u64) mod 16 \<noteq> 0" by code_simp
    then show ?thesis using m16 by metis
  qed
  show ?thesis
  proof (cases "e + nu \<le> lim")
    case False
    then show ?thesis by (intro disjI1) (simp add: morecore_def nu hkernel_def si im del: of_nat_mult)
  next
    case True
    let ?s = "s\<lparr>m_size := (m_size s)(e := nu)\<rparr>"
    note c = below_card [OF ok]
    have h: "heap_ok base S ?s" using ok(1) c(2) ok(2) by (auto simp: heap_ok_def below_def)
    have a: "apart base S ?s e (m_size ?s e)"
      using ok(2) c(2) ok(1) by (auto simp: apart_def below_def nu_def heap_ok_def)
    have "card S < fuel" using c(1) fuel by linarith
    from free_ok [OF h a this] obtain s' S' where f: "free fuel (e + 1) ?s = Some s'" "heap_ok base S' s'" "S' \<subseteq> insert e S"
      "free_units S' s' = free_units S ?s \<union> {e..<e + m_size ?s e}" "\<exists>a\<in>S'. m_size ?s e \<le> m_size s' a"
      "\<And>a. a \<notin> insert e S \<Longrightarrow> m_size s' a = m_size ?s a" by metis
    have "urun (hkernel lim) (morecore fuel n s) e = (Returned (freep s', s'), e + nu)"
      using True f(1) ne m16 ua by (simp add: morecore_def nu hkernel_def si im Let_def del: of_nat_mult)
    moreover have "free_units S ?s = free_units S s" unfolding free_units_def using c(2) by (intro SUP_cong) auto
    moreover have "n \<le> nu" by (simp add: nu_def)
    ultimately show ?thesis using f True by (intro disjI2 exI [of _ s'] exI [of _ S']) (auto intro: le_trans)
  qed
qed


text \<open>
  The blocks in use, by the address of their headers: each keeps its size in its header, lies in the
  heap, and overlaps neither the free memory nor another block in use. Before the
  first call there is none, and the list has not been set up.
\<close>

definition clear_of :: "nat \<Rightarrow> nat \<Rightarrow> nat set \<Rightarrow> bool" where
  "clear_of a n F \<longleftrightarrow> {a..<a + n} \<inter> F = {}"

definition in_use :: "nat \<Rightarrow> nat set \<Rightarrow> malloc_st \<Rightarrow> nat \<Rightarrow> (nat \<rightharpoonup> nat) \<Rightarrow> bool" where
  "in_use base F s e L \<longleftrightarrow>
     (\<forall>a n. L a = Some n \<longrightarrow> base < a \<and> 0 < n \<and> m_size s a = n \<and> a + n \<le> e \<and> clear_of a n F) \<and>
     (\<forall>a n b k. L a = Some n \<longrightarrow> L b = Some k \<longrightarrow> a \<noteq> b \<longrightarrow> clear_of a n {b..<b + k})"

definition process_heap :: "nat \<Rightarrow> malloc_st \<Rightarrow> nat \<Rightarrow> (nat \<rightharpoonup> nat) \<Rightarrow> bool" where
  "process_heap base s e L \<longleftrightarrow>
     (freep s = None \<and> L = Map.empty \<and> base < e) \<or>
     (\<exists>S. heap_ok base S s \<and> below base S s e \<and> in_use base (free_units S s) s e L)"

lemma clear_of_commute: "clear_of a n {b..<b + k} = clear_of b k {a..<a + n}"
  by (simp only: clear_of_def Int_commute)

lemma in_use_mono:
  assumes "in_use base F s e L" "\<And>a n. L a = Some n \<Longrightarrow> m_size s' a = m_size s a" "e \<le> e'"
    "\<And>a n. L a = Some n \<Longrightarrow> clear_of a n F'"
  shows "in_use base F' s' e' L"
  using assms unfolding in_use_def by fastforce

lemma in_use_add:
  assumes "in_use base F s e L" "base < a" "0 < n" "m_size s a = n" "a + n \<le> e" "clear_of a n F"
    "\<And>b k. L b = Some k \<Longrightarrow> clear_of b k {a..<a + n}"
  shows "in_use base F s e (L(a \<mapsto> n))"
proof -
  have "clear_of a n {b..<b + k}" if "L b = Some k" for b k using assms(7) [OF that] by (simp only: clear_of_commute)
  then show ?thesis using assms by (auto simp: in_use_def)
qed


lemma heap_ok_setup: "heap_ok base {base} (s\<lparr>m_ptr := (m_ptr s)(base := base), m_size := (m_size s)(base := 0), freep := Some base\<rparr>)"
  by (auto simp: heap_ok_def nxt_def)

lemma free_not_header: "heap_ok base S s \<Longrightarrow> a \<in> S \<Longrightarrow> a \<noteq> base \<Longrightarrow> a \<in> free_units S s"
  by (auto simp: heap_ok_def free_units_def intro!: bexI [of _ a])

text \<open>Memory taken from the list is in use from then on.\<close>

lemma take_in_use:
  assumes ok: "heap_ok base S s" "below base S s e" "in_use base (free_units S s) s e L"
    and p: "prev \<in> S" "0 < n" "n \<le> m_size s (nxt S prev)"
  shows "\<exists>a s'. malloc_take n prev (nxt S prev) s = (a + 1, s') \<and> L a = None \<and> process_heap base s' e (L(a \<mapsto> n))"
proof -
  obtain a s' S' where t: "malloc_take n prev (nxt S prev) s = (a + 1, s')" "heap_ok base S' s'" "S' \<subseteq> S"
    "{a..<a + n} \<subseteq> free_units S s" "free_units S' s' = free_units S s - {a..<a + n}" "m_size s' a = n" "base < a"
    "\<And>b. b \<notin> S \<Longrightarrow> b \<noteq> a \<Longrightarrow> m_size s' b = m_size s b" "a \<notin> S'"
    using heap_take [OF ok(1) p(1) refl p(2,3)] by metis
  have live: "b \<notin> S \<and> b \<noteq> a \<and> clear_of b k {a..<a + n}" if "L b = Some k" for b k
  proof -
    have b: "base < b" "0 < k" "{b..<b + k} \<inter> free_units S s = {}" using ok(3) that by (auto simp: in_use_def clear_of_def)
    have "b \<in> {b..<b + k}" "a \<in> {a..<a + n}" using b(2) p(2) by auto
    then have "b \<notin> free_units S s" "a \<in> free_units S s" using b(3) t(4) by blast+
    moreover have "clear_of b k {a..<a + n}" using b(3) t(4) unfolding clear_of_def by blast
    ultimately show ?thesis using free_not_header [OF ok(1), of b] b(1) by blast
  qed
  have ae: "a + n \<le> e"
  proof -
    have "a + (n - 1) \<in> {a..<a + n}" using p(2) by auto
    then have "a + (n - 1) < e" using t(4) below_free_units [OF ok(2)] by blast
    then show ?thesis using p(2) by linarith
  qed
  have "b + m_size s' b \<le> e" if b: "b \<in> S'" for b
  proof (cases "m_size s' b = 0")
    case True
    have "b \<in> S" using b t(3) by auto
    then have "b + m_size s b \<le> e" using ok(2) by (auto simp: below_def)
    then show ?thesis using True by simp
  next
    case False
    then have "b + (m_size s' b - 1) \<in> free_units S' s'" using b by (auto simp: free_units_def intro!: bexI [of _ b])
    then have "b + (m_size s' b - 1) < e" using t(5) below_free_units [OF ok(2)] by blast
    then show ?thesis using False by linarith
  qed
  then have "below base S' s' e" using ok(2) by (auto simp: below_def)
  moreover have "in_use base (free_units S' s') s' e (L(a \<mapsto> n))"
  proof (rule in_use_add)
    have "clear_of b k (free_units S' s')" if "L b = Some k" for b k
      using ok(3) that t(5) unfolding in_use_def clear_of_def by blast
    then show "in_use base (free_units S' s') s' e L" using t(8) live by (intro in_use_mono [OF ok(3)]) auto
  qed (use t(5-7) ae p(2) live in \<open>auto simp: clear_of_def\<close>)
  ultimately have "process_heap base s' e (L(a \<mapsto> n))" using t(2) by (auto simp: process_heap_def)
  moreover have "L a = None" using live by (cases "L a") auto
  ultimately show ?thesis using t(1) by blast
qed


lemma grow_in_use:
  assumes ok: "below base S s e" "in_use base (free_units S s) s e L" "heap_ok base S s"
    and g: "S' \<subseteq> insert e S" "free_units S' s' = free_units S s \<union> {e..<e + nu}" "\<forall>a. a < e \<longrightarrow> a \<notin> S \<longrightarrow> m_size s' a = m_size s a"
  shows "below base S' s' (e + nu)" "in_use base (free_units S' s') s' (e + nu) L"
proof -
  have "b + m_size s' b \<le> e + nu" if b: "b \<in> S'" for b
  proof (cases "m_size s' b = 0")
    case True
    have "b \<in> insert e S" using b g(1) by auto
    then have "b \<le> e" using ok(1) by (auto simp: below_def)
    then show ?thesis using True by simp
  next
    case False
    then have "b + (m_size s' b - 1) \<in> free_units S' s'" using b by (auto simp: free_units_def intro!: bexI [of _ b])
    then have "b + (m_size s' b - 1) < e + nu" using g(2) below_free_units [OF ok(1)] by fastforce
    then show ?thesis using False by linarith
  qed
  then show "below base S' s' (e + nu)" using ok(1) by (auto simp: below_def)
  have l: "b < e \<and> b \<notin> S \<and> clear_of b k (free_units S' s')" if "L b = Some k" for b k
  proof -
    have b: "base < b" "0 < k" "b + k \<le> e" "clear_of b k (free_units S s)" using ok(2) that by (auto simp: in_use_def)
    have "b \<in> {b..<b + k}" using b(2) by auto
    then have "b \<notin> free_units S s" using b(4) unfolding clear_of_def by blast
    then have "b \<notin> S" using free_not_header [OF ok(3), of b] b(1) by blast
    moreover have "{b..<b + k} \<inter> {e..<e + nu} = {}" using b(3) by auto
    then have "clear_of b k (free_units S' s')" using b(4) unfolding clear_of_def g(2) by blast
    ultimately show ?thesis using b(2,3) by simp
  qed
  show "in_use base (free_units S' s') s' (e + nu) L"
    using l g(3) by (intro in_use_mono [OF ok(2)]) auto
qed

definition units_of :: "u32 \<Rightarrow> nat" where
  "units_of nbytes = (unat nbytes + 16 - 1) div 16 + 1"

lemma malloc_start:
  assumes "process_heap base s e L"
  obtains S f s1 where "heap_ok base S s1" "below base S s1 e" "in_use base (free_units S s1) s1 e L"
    "f \<in> S" "freep s1 = Some f" "malloc fuel base nbytes s = uloop fuel (malloc_step fuel (units_of nbytes)) (f, nxt S f, s1)"
proof (cases "freep s")
  case None
  let ?s = "s\<lparr>m_ptr := (m_ptr s)(base := base), m_size := (m_size s)(base := 0), freep := Some base\<rparr>"
  have *: "L = Map.empty" "base < e" using assms None by (auto simp: process_heap_def heap_ok_def)
  have "nxt {base} base = base" by (simp add: nxt_def)
  then show thesis using * None
    by (intro that [of "{base}" ?s base] heap_ok_setup)
      (auto simp: below_def in_use_def malloc_def units_of_def)
next
  case (Some f)
  then obtain S where S: "heap_ok base S s" "below base S s e" "in_use base (free_units S s) s e L"
    using assms by (auto simp: process_heap_def)
  then show thesis using Some by (intro that [of S s f]) (auto simp: heap_ok_def malloc_def units_of_def)
qed

definition gives :: "nat \<Rightarrow> nat \<Rightarrow> nat \<Rightarrow> (nat \<rightharpoonup> nat) \<Rightarrow> (nat \<times> malloc_st) uresult \<Rightarrow> bool" where
  "gives base e n L r \<longleftrightarrow> (\<exists>a s'. r = Returned (a + 1, s') \<and> L a = None \<and> process_heap base s' e (L(a \<mapsto> n)))"

lemma finds_gives:
  assumes "heap_ok base S s" "below base S s e" "in_use base (free_units S s) s e L" "0 < n" "finds n S s r"
  shows "gives base e n L r"
proof -
  obtain prev where p: "prev \<in> S" "n \<le> m_size s (nxt S prev)" "r = Returned (malloc_take n prev (nxt S prev) s)"
    using assms(5) by (auto simp: finds_def)
  from take_in_use [OF assms(1-3) p(1) assms(4) p(2)] show ?thesis using p(3) by (auto simp: gives_def)
qed


lemma search_ends:
  assumes ok: "heap_ok base S s" "below base S s e" "in_use base (free_units S s) s e L" "f \<in> S" "freep s = Some f"
    and n: "0 < n" "16 * max 4096 n < 2 ^ 31" and lim: "lim < 2 ^ 59" "e \<le> lim" and fuel: "2 * e + 2 < fuel"
  shows "\<exists>r e'. urun (hkernel lim) (uloop fuel (malloc_step fuel n) (f, nxt S f, s)) e = (r, e') \<and> e' \<le> lim \<and>
    ((\<exists>s'. r = Returned (0, s') \<and> e' = e \<and> lim < e + max 4096 n \<and> process_heap base s' e L) \<or> gives base e' n L r)"
proof -
  let ?u = "urun (hkernel lim)"
  have fS: "finite S" using ok(1) by (simp add: heap_ok_def)
  have st: "Suc (steps_to S f (nxt S f)) \<le> e" using steps_to_round [OF fS ok(4)] below_card(1) [OF ok(1,2)] by simp
  have "steps_to S f (nxt S f) < fuel" using st fuel by linarith
  from search_round [OF ok(1,5,4) this, where h = "hkernel lim" and fuel = fuel and n = n and e = e]
  consider (found) r where "?u (uloop fuel (malloc_step fuel n) (f, nxt S f, s)) e = (r, e)" "finds n S s r"
    | (more) k where "fuel \<le> k + Suc (steps_to S f (nxt S f))"
        "?u (uloop fuel (malloc_step fuel n) (f, nxt S f, s)) e = ?u (ubnd (morecore fuel n s) (after_morecore k fuel n)) e"
    by blast
  then show ?thesis
  proof cases
    case found
    then show ?thesis using finds_gives [OF ok(1-3) n(1)] lim(2) by blast
  next
    case more
    have "e < fuel" using fuel by linarith
    from morecore_ok [OF ok(1,2) this n(2) lim] show ?thesis
    proof (elim disjE exE conjE)
      assume "?u (morecore fuel n s) e = (Returned (None, s), e)" "lim < e + max 4096 n"
      then show ?thesis using more(2) ok lim(2) by (auto simp: after_morecore_def urun_simps process_heap_def)
    next
      fix s' S'
      assume m: "?u (morecore fuel n s) e = (Returned (freep s', s'), e + max 4096 n)" "e + max 4096 n \<le> lim"
        "heap_ok base S' s'" "S' \<subseteq> insert e S" "free_units S' s' = free_units S s \<union> {e..<e + max 4096 n}"
        "\<exists>a\<in>S'. n \<le> m_size s' a" "\<forall>a. a < e \<longrightarrow> a \<notin> S \<longrightarrow> m_size s' a = m_size s a"
      obtain b where b: "b \<in> S'" "n \<le> m_size s' b" using m(6) by blast
      obtain q where q: "q \<in> S'" "freep s' = Some q" "m_ptr s' q = nxt S' q" and f': "finite S'"
        using m(3) by (auto simp: heap_ok_def)
      have "nxt S' q \<in> S'" using f' q(1) by (intro nxt_in) auto
      then have sb: "steps_to S' b (nxt S' q) < card S'" using f' by (intro steps_to_less)
      have "card S' \<le> card (insert e S)" using fS m(4) by (intro card_mono) auto
      then have "card S' \<le> Suc e" using below_card(1) [OF ok(1,2)] fS by (simp add: card_insert_if split: if_splits)
      then have sk: "steps_to S' b (nxt S' q) < k" using sb more(1) st fuel by linarith
      have sq: "steps_to S' b (nxt S' q) \<le> steps_to S' q (nxt S' q)" using sb steps_to_round [OF f' q(1)] by linarith
      obtain r where "?u (uloop k (malloc_step fuel n) (q, nxt S' q, s')) (e + max 4096 n) = (r, e + max 4096 n)" "finds n S' s' r"
        using search_found [OF m(3) q(2) b q(1) sq sk, where h = "hkernel lim" and fuel = fuel and e = "e + max 4096 n"] by (elim exE conjE)
      moreover have "gives base (e + max 4096 n) n L r"
        using finds_gives [OF m(3) grow_in_use [OF ok(2,3,1) m(4,5,7)] n(1)] calculation(2) .
      ultimately show ?thesis using more(2) m(1,2) q(2,3) by (auto simp: after_morecore_def urun_simps)
    qed
  qed
qed

text \<open>
  C26. \<open>malloc\<close> always returns, given fuel for two rounds of the list. Either the kernel has no room for the
  request and the result is the null pointer, with the heap as it was; or the result is the address
  after a header at \<open>a\<close>, and the heap is that with one more block in use, of the size asked for
  and its header: in the heap of the process, and disjoint from the free memory and from every block in use.
\<close>

theorem malloc_gives_block:
  assumes "process_heap base s e L" "e \<le> lim" "lim < 2 ^ 59" "unat nbytes < 2 ^ 31 - 32" "2 * e + 2 < fuel"
  shows "\<exists>r s' e'. urun (hkernel lim) (malloc fuel base nbytes s) e = (Returned (r, s'), e') \<and> e' \<le> lim \<and>
    (r = 0 \<and> e' = e \<and> lim < e + max 4096 (units_of nbytes) \<and> process_heap base s' e L \<or>
     (\<exists>a. r = a + 1 \<and> L a = None \<and> unat nbytes + 16 \<le> 16 * units_of nbytes \<and>
        process_heap base s' e' (L(a \<mapsto> units_of nbytes))))"
proof -
  have n: "0 < units_of nbytes" "16 * max 4096 (units_of nbytes) < 2 ^ 31" "unat nbytes + 16 \<le> 16 * units_of nbytes"
    using assms(4) by (auto simp: units_of_def)
  from assms(1) obtain S f s1 where m: "heap_ok base S s1" "below base S s1 e" "in_use base (free_units S s1) s1 e L"
    "f \<in> S" "freep s1 = Some f" "malloc fuel base nbytes s = uloop fuel (malloc_step fuel (units_of nbytes)) (f, nxt S f, s1)"
    by (rule malloc_start [where fuel = fuel and nbytes = nbytes])
  from search_ends [OF m(1-5) n(1,2) assms(3,2,5)] show ?thesis unfolding m(6) gives_def using n(3) by fastforce
qed

theorem malloc_gives_block_witness:
  "\<exists>r s' e'. urun (hkernel 10000) (malloc 210 50 1000 \<lparr>m_ptr = id, m_size = (\<lambda>_. 0), freep = None\<rparr>) 100 = (Returned (r, s'), e') \<and> e' \<le> 10000 \<and>
    (r = 0 \<and> e' = 100 \<and> (10000::nat) < 100 + max 4096 (units_of 1000) \<and> process_heap 50 s' 100 Map.empty \<or>
     (\<exists>a. r = a + 1 \<and> Map.empty a = (None :: nat option) \<and> unat (1000 :: u32) + 16 \<le> 16 * units_of 1000 \<and>
        process_heap 50 s' e' ([a \<mapsto> units_of 1000])))"
  using malloc_gives_block [of 50 "\<lparr>m_ptr = id, m_size = (\<lambda>_. 0), freep = None\<rparr>" 100 Map.empty 10000 1000 210]
  by (simp add: process_heap_def)





end
