(* ===== verification/Bioops.thy ===== *)
theory Bioops
  imports Bio Procops
begin

text \<open>
  The buffer cache as its clients see it: a table of blocks, each with its content, the content on the
  disk, and the number of references held on it. The theory shows that the ring of buffers is always a
  permutation of all buffers, that the two searches of \<open>bget\<close> are searches of that list,
  and that \<open>bread\<close>, \<open>bwrite\<close>, \<open>brelse\<close>, \<open>bpin\<close> and \<open>bunpin\<close> act on the table as
  simple updates.
\<close>

section \<open>The ring of buffers\<close>

text \<open>Neighbours on the list are linked both ways.\<close>

fun linked :: "(nat \<Rightarrow> buf) \<Rightarrow> nat list \<Rightarrow> bool" where
  "linked B (x # y # ys) \<longleftrightarrow> b_next (B x) = y \<and> b_prev (B y) = x \<and> linked B (y # ys)"
| "linked B _ \<longleftrightarrow> True"

definition ring :: "(nat \<Rightarrow> buf) \<Rightarrow> nat list \<Rightarrow> bool" where
  "ring B xs \<longleftrightarrow> distinct xs \<and> set xs = {..<NBUF} \<and> linked B (bhead # xs @ [bhead])"

lemma linked_append: "linked B (xs @ y # zs) \<longleftrightarrow> linked B (xs @ [y]) \<and> linked B (y # zs)"
  by (induction B xs rule: linked.induct) simp_all

lemma linked_cong:
  assumes "\<And>x. x \<in> set (butlast xs) \<Longrightarrow> b_next (B' x) = b_next (B x)"
    "\<And>x. x \<in> set (tl xs) \<Longrightarrow> b_prev (B' x) = b_prev (B x)"
  shows "linked B' xs = linked B xs"
  using assms
proof (induction B xs rule: linked.induct)
  case (1 B x y ys)
  have "linked B' (y # ys) = linked B (y # ys)"
    using "1.prems" by (intro "1.IH") simp_all
  then show ?case using "1.prems" by simp
qed simp_all

lemma ring_links:
  assumes "\<And>b. b_next (B' b) = b_next (B b)" "\<And>b. b_prev (B' b) = b_prev (B b)"
  shows "ring B' xs = ring B xs"
  using linked_cong [of "bhead # xs @ [bhead]" B' B] assms by (simp add: ring_def)

text \<open>Taking a buffer out of the ring and putting it in front.\<close>

lemma linked_unlink:
  assumes l: "linked B (ps @ [p, b, n] @ ns)" and d: "p \<notin> set ps" "n \<notin> set (tl (ps @ [p]))" "p \<notin> set (butlast (n # ns))" "n \<notin> set ns"
  shows "linked (B(n := (B n)\<lparr>b_prev := p\<rparr>, p := ((B(n := (B n)\<lparr>b_prev := p\<rparr>)) p)\<lparr>b_next := n\<rparr>)) (ps @ [p, n] @ ns)"
    (is "linked ?B _")
proof -
  have l3: "linked B (ps @ [p])" "linked B (n # ns)"
    using l linked_append [of B ps p "[b, n] @ ns"] linked_append [of B "[p, b]" n ns] by auto
  have "linked ?B (ps @ [p]) = linked B (ps @ [p])"
    using d by (intro linked_cong) auto
  moreover have "linked ?B (n # ns) = linked B (n # ns)"
    using d by (intro linked_cong) auto
  ultimately have "linked ?B (ps @ [p])" "linked ?B (p # n # ns)" using l3 by simp_all
  then show ?thesis using linked_append [of ?B ps p "n # ns"] by simp
qed


lemma linked_link:
  assumes l: "linked B (h # f # fs)" and d: "h \<notin> set (butlast (f # fs))" "f \<notin> set fs" "b \<notin> set (f # fs)" "b \<noteq> h"
    and B': "\<And>x. b_next (B' x) = (if x = h then b else if x = b then f else b_next (B x))"
      "\<And>x. b_prev (B' x) = (if x = f then b else if x = b then h else b_prev (B x))"
  shows "linked B' (h # b # f # fs)"
proof -
  have "b \<notin> set (butlast (f # fs))" using d(3) by (meson in_set_butlastD)
  then have "linked B' (f # fs) = linked B (f # fs)"
    using d by (intro linked_cong) (auto simp: B')
  then show ?thesis using l d by (auto simp: B')
qed

definition unlink :: "nat \<Rightarrow> (nat \<Rightarrow> buf) \<Rightarrow> nat \<Rightarrow> buf" where
  "unlink b B =
     (let B = B(b_next (B b) := (B (b_next (B b)))\<lparr>b_prev := b_prev (B b)\<rparr>)
      in B(b_prev (B b) := (B (b_prev (B b)))\<lparr>b_next := b_next (B b)\<rparr>))"

definition relink :: "nat \<Rightarrow> (nat \<Rightarrow> buf) \<Rightarrow> nat \<Rightarrow> buf" where
  "relink b B =
     (let B = B(b := (B b)\<lparr>b_next := b_next (B bhead)\<rparr>);
          B = B(b := (B b)\<lparr>b_prev := bhead\<rparr>);
          B = B(b_next (B bhead) := (B (b_next (B bhead)))\<lparr>b_prev := b\<rparr>)
      in B(bhead := (B bhead)\<lparr>b_next := b\<rparr>))"

definition front :: "nat \<Rightarrow> (nat \<Rightarrow> buf) \<Rightarrow> nat \<Rightarrow> buf" where
  "front b B = relink b (unlink b B)"

lemma unlink_eq:
  assumes "b_next (B b) = n" "b_prev (B b) = p" "n \<noteq> b"
  shows "unlink b B = B(n := (B n)\<lparr>b_prev := p\<rparr>, p := ((B(n := (B n)\<lparr>b_prev := p\<rparr>)) p)\<lparr>b_next := n\<rparr>)"
  using assms by (simp add: unlink_def Let_def)

lemma relink_fields:
  assumes "b \<noteq> bhead" "b_next (B bhead) = f" "f \<noteq> b"
  shows "b_next (relink b B x) = (if x = bhead then b else if x = b then f else b_next (B x))"
    "b_prev (relink b B x) = (if x = f then b else if x = b then bhead else b_prev (B x))"
  using assms by (auto simp: relink_def Let_def)

lemma move_front_eq: "move_front b s = Ok () (s\<lparr>bufs := front b (bufs s)\<rparr>)"
  by (simp add: move_front_def get_buf_def upd_buf_def front_def unlink_def relink_def Let_def seq_def bnd_def del: fun_upd_apply)

lemma front_ring:
  assumes "ring B (us @ b # vs)"
  shows "ring (front b B) (b # us @ vs)"
proof -
  have d: "distinct (us @ b # vs)" "set (us @ b # vs) = {..<NBUF}" "linked B (bhead # us @ b # vs @ [bhead])"
    using assms by (simp_all add: ring_def)
  have m: "x < NBUF" if "x \<in> set (us @ b # vs)" for x using that unfolding d(2) by (rule lessThan_iff [THEN iffD1])
  have h: "bhead \<notin> set us" "bhead \<notin> set vs" "b \<noteq> bhead" using m [of bhead] m [of b] by auto
  obtain ps p where p: "bhead # us = ps @ [p]" by (rule that [of "butlast (bhead # us)" "last (bhead # us)"]) simp
  obtain n ns where n: "vs @ [bhead] = n # ns" by (cases "vs @ [bhead]") auto
  have us: "us = tl (ps @ [p])" unfolding p [symmetric] by simp
  have vs: "vs = butlast (n # ns)" unfolding n [symmetric] by simp
  have "linked B ((bhead # us) @ b # (vs @ [bhead]))" using d(3) by simp
  then have l: "linked B (ps @ [p, b, n] @ ns)" unfolding p n by simp
  have dp: "distinct (ps @ [p])" "distinct (n # ns)" using d(1) h unfolding p [symmetric] n [symmetric] by auto
  have "p \<in> set (bhead # us)" "n \<in> set (vs @ [bhead])" unfolding p n by simp_all
  then have pv: "p \<notin> set vs" "n \<notin> set us" "p \<noteq> b" "n \<noteq> b" using d(1) h by auto
  have B: "b_next (B b) = n" "b_prev (B b) = p"
    using l linked_append [of B ps p "[b, n] @ ns"] by auto
  define B2 where "B2 = unlink b B"
  have "linked B2 (ps @ [p, n] @ ns)"
    unfolding B2_def unlink_eq [where B = B, OF B pv(4)] using dp pv us vs by (intro linked_unlink [OF l]) auto
  then have "linked B2 ((ps @ [p]) @ (n # ns))" by simp
  then have l2: "linked B2 (bhead # us @ vs @ [bhead])" unfolding p [symmetric] n [symmetric] by simp
  obtain f fs where f: "us @ vs @ [bhead] = f # fs" by (cases "us @ vs @ [bhead]") auto
  have f2: "b_next (B2 bhead) = f" using l2 f by simp
  have df: "distinct (f # fs)" "b \<notin> set (f # fs)" using d(1) h unfolding f [symmetric] by auto
  have "butlast (f # fs) = us @ vs" unfolding f [symmetric] by (simp add: butlast_append)
  then have hb: "bhead \<notin> set (butlast (f # fs))" using h by auto
  have "linked (front b B) (bhead # b # f # fs)"
    unfolding front_def B2_def [symmetric] using l2 f hb df h(3)
    by (intro linked_link [where B = B2] relink_fields f2) auto
  moreover have "set (b # us @ vs) = set (us @ b # vs)" by simp
  ultimately show ?thesis using d(1) f unfolding ring_def d(2) [symmetric] by simp
qed

text \<open>Nothing but the links changes.\<close>

definition contents :: "buf \<Rightarrow> bool \<times> u32 \<times> u32 \<times> u32 \<times> bytes" where
  "contents b = (b_valid b, b_dev b, b_blockno b, b_refcnt b, b_data b)"

lemma contents_link [simp]: "contents (b\<lparr>b_next := x\<rparr>) = contents b" "contents (b\<lparr>b_prev := x\<rparr>) = contents b"
  by (simp_all add: contents_def)

lemma contents_upd: "contents c = contents (B a) \<Longrightarrow> contents ((B(a := c)) x) = contents (B x)"
  by simp

lemma front_contents: "contents (front b B x) = contents (B x)"
  unfolding front_def unlink_def relink_def Let_def by (simp only: contents_upd contents_link)

lemma front_fields:
  "b_valid (front b B c) = b_valid (B c)" "b_dev (front b B c) = b_dev (B c)" "b_blockno (front b B c) = b_blockno (B c)"
  "b_refcnt (front b B c) = b_refcnt (B c)" "b_data (front b B c) = b_data (B c)"
  using front_contents [of b B c] by (simp_all add: contents_def)

section \<open>The searches of bget\<close>

lemma find_SomeD: "find P xs = Some x \<Longrightarrow> x \<in> set xs \<and> P x"
  by (induction xs) (auto split: if_splits)

text \<open>A loop that walks along a list until a buffer satisfies \<open>P\<close>.\<close>

lemma walk_eq:
  assumes f: "\<And>b. b \<noteq> bhead \<Longrightarrow> f b s = (if P b then Ok (Inr (Some b)) (fin b) else Ok (Inl (nx b)) s)"
    "f bhead s = Ok (Inr None) s"
    and l: "\<And>us b vs. zs = us @ b # vs \<Longrightarrow> nx b = hd (vs @ [bhead])" "bhead \<notin> set zs" and k: "length zs < k"
  shows "kiter k f (hd (zs @ [bhead])) s = (case find P zs of None \<Rightarrow> Ok None s | Some b \<Rightarrow> Ok (Some b) (fin b))"
  using l k
proof (induction zs arbitrary: k)
  case Nil
  then obtain j where "k = Suc j" by (cases k) auto
  then show ?case by (simp add: bnd_def f(2))
next
  case (Cons z zs)
  then obtain j where j: "k = Suc j" "length zs < j" by (cases k) auto
  have z: "z \<noteq> bhead" "nx z = hd (zs @ [bhead])" using Cons.prems(1) [of "[]"] Cons.prems(2) by auto
  have "kiter j f (hd (zs @ [bhead])) s = (case find P zs of None \<Rightarrow> Ok None s | Some b \<Rightarrow> Ok (Some b) (fin b))"
    using Cons.prems(1) [of "z # us" for us] Cons.prems(2) j(2) by (intro Cons.IH) auto
  then show ?case using z by (simp add: j(1) bnd_def f(1))
qed

lemma linked_next: "linked B (us @ b # vs) \<Longrightarrow> vs \<noteq> [] \<Longrightarrow> b_next (B b) = hd vs"
  using linked_append [of B us b vs] by (cases vs) simp_all

lemma linked_prev: "linked B (us @ b # vs) \<Longrightarrow> us \<noteq> [] \<Longrightarrow> b_prev (B b) = last us"
  using linked_append [of B "butlast us" "last us" "b # vs"] by (cases us rule: rev_cases) simp_all

lemma ring_next:
  assumes "ring B xs"
  shows "b_next (B bhead) = hd (xs @ [bhead])" "xs = us @ b # vs \<Longrightarrow> b_next (B b) = hd (vs @ [bhead])"
  using assms linked_next [of B "[]" bhead "xs @ [bhead]"] linked_next [of B "bhead # us" b "vs @ [bhead]"]
  by (simp_all add: ring_def)

lemma ring_prev:
  assumes "ring B xs"
  shows "b_prev (B bhead) = hd (rev xs @ [bhead])" "rev xs = us @ b # vs \<Longrightarrow> b_prev (B b) = hd (vs @ [bhead])"
proof -
  have l: "linked B (bhead # xs @ [bhead])" using assms by (simp add: ring_def)
  show "b_prev (B bhead) = hd (rev xs @ [bhead])"
    using linked_prev [of B "bhead # xs" bhead "[]"] l by (cases xs rule: rev_cases) simp_all
  assume "rev xs = us @ b # vs"
  then have "xs = rev vs @ b # rev us" by (simp add: rev_swap)
  then show "b_prev (B b) = hd (vs @ [bhead])"
    using linked_prev [of B "bhead # rev vs" b "rev us @ [bhead]"] l by (cases vs) simp_all
qed

lemma ring_bhead: "ring B xs \<Longrightarrow> bhead \<notin> set xs" and ring_length: "ring B xs \<Longrightarrow> length xs = NBUF"
  using distinct_card [of xs] by (auto simp: ring_def)

lemma ring_mem: "ring B xs \<Longrightarrow> b \<in> set xs \<longleftrightarrow> b < NBUF"
  by (simp add: ring_def)

lemma bget_cached_eq:
  assumes "ring (bufs s) xs"
  shows "bget_cached d n s = (case find (\<lambda>b. b_dev (bufs s b) = d \<and> b_blockno (bufs s b) = n) xs of
     None \<Rightarrow> Ok None s
   | Some b \<Rightarrow> Ok (Some b) (s\<lparr>bufs := (bufs s)(b := (bufs s b)\<lparr>b_refcnt := b_refcnt (bufs s b) + 1\<rparr>)\<rparr>))"
  unfolding bget_cached_def get_buf_def bnd_gets_apply ring_next(1) [OF assms]
  by (rule walk_eq [where nx = "\<lambda>b. b_next (bufs s b)"])
    (use ring_next [OF assms] ring_bhead [OF assms] ring_length [OF assms] in \<open>simp_all add: upd_buf_def\<close>)

lemma bget_recycle_eq:
  assumes "ring (bufs s) xs"
  shows "bget_recycle d n s = (case find (\<lambda>b. b_refcnt (bufs s b) = 0) (rev xs) of
     None \<Rightarrow> Ok None s
   | Some b \<Rightarrow> Ok (Some b) (s\<lparr>bufs := (bufs s)(b := (bufs s b)\<lparr>b_dev := d, b_blockno := n, b_valid := False, b_refcnt := 1\<rparr>)\<rparr>))"
  unfolding bget_recycle_def get_buf_def bnd_gets_apply ring_prev(1) [OF assms]
  by (rule walk_eq [where nx = "\<lambda>b. b_prev (bufs s b)"])
    (use ring_prev [OF assms] ring_bhead [OF assms] ring_length [OF assms] in \<open>simp_all add: upd_buf_def\<close>)

section \<open>The cache as a table of blocks\<close>

text \<open>No lock is held, and process \<open>p\<close> runs on this CPU.\<close>

definition quiet :: "nat \<Rightarrow> 'x mach_scheme \<Rightarrow> bool" where
  "quiet p s \<longleftrightarrow> cpu_ok s \<and> c_proc (cpus s (hart s)) = Some p \<and> (\<forall>l. unlocked l s)"

text \<open>
  The table: what a reader of a block sees, what the disk has, the writes the disk has done, the buffer and the number of
  references of each block in use, and the blocks whose buffers are locked.
\<close>

record blocks =
  a_view :: "u32 \<Rightarrow> bytes"
  a_disk :: "u32 \<Rightarrow> bytes"
  a_writes :: "(u32 \<times> bytes) list"
  a_loc :: "u32 \<rightharpoonup> nat"
  a_ref :: "u32 \<Rightarrow> nat"
  a_held :: "u32 set"

text \<open>
  The table describes the buffers for device \<open>d\<close>: no block is in two of them; a block in use has a valid
  buffer; what nobody uses is as on the disk; a buffer is locked, by process \<open>p\<close>, exactly if its block is.
\<close>

definition buffers_ok :: "u32 \<Rightarrow> blocks \<Rightarrow> (nat \<Rightarrow> buf) \<Rightarrow> bool" where
  "buffers_ok d A B \<longleftrightarrow>
     (\<exists>xs. ring B xs) \<and>
     (\<forall>b<NBUF. \<forall>c<NBUF. b_dev (B b) = d \<longrightarrow> b_dev (B c) = d \<longrightarrow> b_blockno (B b) = b_blockno (B c) \<longrightarrow> b = c) \<and>
     (\<forall>n b. a_loc A n = Some b \<longrightarrow> b < NBUF \<and> b_dev (B b) = d \<and> b_blockno (B b) = n \<and> b_valid (B b) \<and>
        b_data (B b) = a_view A n \<and> unat (b_refcnt (B b)) = a_ref A n \<and> 0 < a_ref A n) \<and>
     (\<forall>b<NBUF. b_refcnt (B b) \<noteq> 0 \<longrightarrow> a_loc A (b_blockno (B b)) = Some b) \<and>
     (\<forall>b<NBUF. b_refcnt (B b) = 0 \<longrightarrow> b_dev (B b) = d \<longrightarrow> b_valid (B b) \<longrightarrow> b_data (B b) = a_disk A (b_blockno (B b))) \<and>
     (\<forall>n. a_loc A n = None \<longrightarrow> a_ref A n = 0 \<and> a_view A n = a_disk A n)"

definition sleeplocks_ok :: "u32 \<Rightarrow> blocks \<Rightarrow> (lockid \<Rightarrow> sleeplock) \<Rightarrow> bool" where
  "sleeplocks_ok pid A L \<longleftrightarrow>
     a_held A \<subseteq> dom (a_loc A) \<and>
     (\<forall>b<NBUF. sl_locked (L (L_buf b)) = (\<exists>n\<in>a_held A. a_loc A n = Some b)) \<and>
     (\<forall>b<NBUF. sl_locked (L (L_buf b)) \<longrightarrow> sl_pid (L (L_buf b)) = pid)"

definition cache :: "nat \<Rightarrow> u32 \<Rightarrow> blocks \<Rightarrow> 'x bio_st_scheme \<Rightarrow> bool" where
  "cache p d A s \<longleftrightarrow> quiet p s \<and> buffers_ok d A (bufs s) \<and> sleeplocks_ok (p_pid (procs s p)) A (slocks s) \<and>
     disk s = a_disk A \<and> dwrites s = a_writes A"

text \<open>What the operations of the cache leave alone.\<close>

definition cache_only :: "'x bio_st_scheme \<Rightarrow> 'x bio_st_scheme \<Rightarrow> bool" where
  "cache_only s s' \<longleftrightarrow> (\<exists>B L C P D W. s' = s\<lparr>cpus := C, procs := P, slocks := L, bufs := B, disk := D, dwrites := W\<rparr>)"

lemma cache_only_refl [simp]: "cache_only s s"
  unfolding cache_only_def by (intro exI [of _ "bufs s"] exI [of _ "slocks s"] exI [of _ "cpus s"] exI [of _ "procs s"]
      exI [of _ "disk s"] exI [of _ "dwrites s"]) simp

lemma cache_only_trans: "cache_only s t \<Longrightarrow> cache_only t u \<Longrightarrow> cache_only s u"
  unfolding cache_only_def by (elim exE) (simp, blast)

lemma quiet_cs: "quiet p s \<Longrightarrow> quiet p (s\<lparr>cpus := cs_cpus s\<rparr>)"
  by (simp add: quiet_def cpu_ok_def unlocked_def cs_cpus_def)

lemma quiet_cong: "hart t = hart s \<Longrightarrow> cpus t = cpus s \<Longrightarrow> csr t = csr s \<Longrightarrow> locks t = locks s \<Longrightarrow> quiet p t = quiet p s"
  by (simp add: quiet_def cpu_ok_def unlocked_def)

lemma buf_section:
  assumes "unlocked l s" "cpu_ok s"
  shows "release l ((acq l s)\<lparr>bufs := B\<rparr>) = Ok () (s\<lparr>bufs := B, cpus := cs_cpus s\<rparr>)"
proof -
  have "acq l s\<lparr>bufs := B, cpus := c, csr := csr s, locks := locks s\<rparr> = s\<lparr>bufs := B, cpus := c\<rparr>" for c
    by (simp add: acq_def)
  then show ?thesis using release_acq [OF assms, of "(acq l s)\<lparr>bufs := B\<rparr>"] by simp
qed

lemma bufs_acq [simp]: "bufs (acq l s) = bufs s"
  by (simp add: acq_def)

text \<open>\<open>bget\<close> finds the buffer of the block, or takes one that nobody uses.\<close>

definition bget_buf :: "u32 \<Rightarrow> u32 \<Rightarrow> buf \<Rightarrow> buf" where
  "bget_buf d n x = (if b_dev x = d \<and> b_blockno x = n then x\<lparr>b_refcnt := b_refcnt x + 1\<rparr>
     else x\<lparr>b_dev := d, b_blockno := n, b_valid := False, b_refcnt := 1\<rparr>)"

lemma bget_eq:
  assumes q: "quiet p s" and r: "ring (bufs s) xs"
    and b: "find (\<lambda>b. b_dev (bufs s b) = d \<and> b_blockno (bufs s b) = n) xs = Some b \<or>
      find (\<lambda>b. b_dev (bufs s b) = d \<and> b_blockno (bufs s b) = n) xs = None \<and> find (\<lambda>b. b_refcnt (bufs s b) = 0) (rev xs) = Some b"
    and l: "\<not> sl_locked (slocks s (L_buf b))"
  shows "bget d n s = Ok b (s\<lparr>bufs := (bufs s)(b := bget_buf d n (bufs s b)),
     slocks := (slocks s)(L_buf b := (slocks s (L_buf b))\<lparr>sl_locked := True, sl_pid := p_pid (procs s p)\<rparr>), cpus := cs_cpus s\<rparr>)"
proof -
  have u: "unlocked k s" and ok: "cpu_ok s" and me: "c_proc (cpus s (hart s)) = Some p" for k using q by (simp_all add: quiet_def)
  let ?t = "s\<lparr>bufs := (bufs s)(b := bget_buf d n (bufs s b)), cpus := cs_cpus s\<rparr>"
  have sec: "release L_bcache ((acq L_bcache s)\<lparr>bufs := (bufs s)(b := bget_buf d n (bufs s b))\<rparr>) = Ok () ?t"
    by (rule buf_section [OF u ok])
  have qt: "quiet p ?t" using quiet_cs [OF q] by (simp add: quiet_def cpu_ok_def unlocked_def cs_cpus_def)
  have cs: "cs_cpus ?t = cs_cpus s" by (simp add: cs_cpus_def)
  have a: "acquiresleep (L_buf b) ?t = Ok () (?t\<lparr>slocks := (slocks s)(L_buf b := (slocks s (L_buf b))\<lparr>sl_locked := True,
     sl_pid := p_pid (procs s p)\<rparr>), cpus := cs_cpus s\<rparr>)"
    using acquiresleep_eq [of "L_buf b" ?t p] qt l cs by (simp add: quiet_def)
  have ra: "ring (bufs (acq L_bcache s)) xs" using r by simp
  have "b_dev (bufs s b) = d \<and> b_blockno (bufs s b) = n"
    if "find (\<lambda>b. b_dev (bufs s b) = d \<and> b_blockno (bufs s b) = n) xs = Some b" using find_SomeD [OF that] by simp
  moreover have "\<not> (b_dev (bufs s b) = d \<and> b_blockno (bufs s b) = n)"
    if "find (\<lambda>b. b_dev (bufs s b) = d \<and> b_blockno (bufs s b) = n) xs = None" "find (\<lambda>b. b_refcnt (bufs s b) = 0) (rev xs) = Some b"
    using that(1) find_SomeD [OF that(2)] by (auto simp: find_None_iff)
  ultimately show ?thesis
    using b sec a
    by (auto simp: bget_def seq_def bnd_def acquire_unlocked [OF u] bget_cached_eq [OF ra] bget_recycle_eq [OF ra] bget_buf_def)
qed

section \<open>bread\<close>

definition buffer_for :: "u32 \<Rightarrow> blocks \<Rightarrow> (nat \<Rightarrow> buf) \<Rightarrow> u32 \<Rightarrow> nat \<Rightarrow> bool" where
  "buffer_for d A B n b \<longleftrightarrow> b < NBUF \<and>
     (a_loc A n = Some b \<or> a_loc A n = None \<and> b_refcnt (B b) = 0 \<and>
        (\<forall>c<NBUF. b_dev (B c) = d \<longrightarrow> b_blockno (B c) = n \<longrightarrow> c = b))"

lemma buffers_okD:
  assumes "buffers_ok d A B"
  shows "\<exists>xs. ring B xs"
    and "b < NBUF \<Longrightarrow> c < NBUF \<Longrightarrow> b_dev (B b) = d \<Longrightarrow> b_dev (B c) = d \<Longrightarrow> b_blockno (B b) = b_blockno (B c) \<Longrightarrow> b = c"
    and "a_loc A n = Some b \<Longrightarrow> b < NBUF \<and> b_dev (B b) = d \<and> b_blockno (B b) = n \<and> b_valid (B b) \<and>
        b_data (B b) = a_view A n \<and> unat (b_refcnt (B b)) = a_ref A n \<and> 0 < a_ref A n"
    and "b < NBUF \<Longrightarrow> b_refcnt (B b) \<noteq> 0 \<Longrightarrow> a_loc A (b_blockno (B b)) = Some b"
    and "b < NBUF \<Longrightarrow> b_refcnt (B b) = 0 \<Longrightarrow> b_dev (B b) = d \<Longrightarrow> b_valid (B b) \<Longrightarrow> b_data (B b) = a_disk A (b_blockno (B b))"
    and "a_loc A n = None \<Longrightarrow> a_ref A n = 0 \<and> a_view A n = a_disk A n"
  using assms unfolding buffers_ok_def by blast+

lemma loc_dom:
  assumes "buffers_ok d A B"
  shows "dom (a_loc A) \<subseteq> (\<lambda>b. b_blockno (B b)) ` {..<NBUF}" "finite (dom (a_loc A))"
proof -
  show *: "dom (a_loc A) \<subseteq> (\<lambda>b. b_blockno (B b)) ` {..<NBUF}"
  proof
    fix n assume "n \<in> dom (a_loc A)"
    then obtain b where "a_loc A n = Some b" by auto
    then show "n \<in> (\<lambda>b. b_blockno (B b)) ` {..<NBUF}" using buffers_okD(3) [OF assms] by (intro image_eqI [of _ _ b]) auto
  qed
  show "finite (dom (a_loc A))" using finite_subset [OF *] by blast
qed

lemma free_buffer:
  assumes ok: "buffers_ok d A B" and r: "ring B xs" and c: "card (dom (a_loc A)) < NBUF"
  obtains b where "find (\<lambda>b. b_refcnt (B b) = 0) (rev xs) = Some b" "b < NBUF" "b_refcnt (B b) = 0"
proof -
  have xs: "set (rev xs) = {..<NBUF}" using r by (simp add: ring_def)
  have "\<exists>b<NBUF. b_refcnt (B b) = 0"
  proof (rule ccontr)
    assume "\<not> ?thesis"
    then have l: "a_loc A (b_blockno (B b)) = Some b" if "b < NBUF" for b using buffers_okD(4) [OF ok that] that by blast
    then have "inj_on (\<lambda>b. b_blockno (B b)) {..<NBUF}" by (intro inj_onI) (metis lessThan_iff option.inject)
    moreover have "(\<lambda>b. b_blockno (B b)) ` {..<NBUF} \<subseteq> dom (a_loc A)" using l by auto
    ultimately have "card {..<NBUF :: nat} \<le> card (dom (a_loc A))" using loc_dom(2) [OF ok] by (rule card_inj_on_le)
    then show False using c by simp
  qed
  then obtain c where "c < NBUF" "b_refcnt (B c) = 0" by blast
  then have "find (\<lambda>b. b_refcnt (B b) = 0) (rev xs) \<noteq> None" using xs by (auto simp: find_None_iff)
  then obtain b where b: "find (\<lambda>b. b_refcnt (B b) = 0) (rev xs) = Some b" by blast
  then have "b \<in> set (rev xs)" "b_refcnt (B b) = 0" using find_SomeD by fast+
  then show thesis using that b xs by (metis lessThan_iff)
qed

lemma buffer_found:
  assumes ok: "buffers_ok d A B" and r: "ring B xs" and c: "a_loc A n \<noteq> None \<or> card (dom (a_loc A)) < NBUF"
  obtains b where "buffer_for d A B n b"
    "find (\<lambda>b. b_dev (B b) = d \<and> b_blockno (B b) = n) xs = Some b \<and> b_dev (B b) = d \<and> b_blockno (B b) = n \<or>
      find (\<lambda>b. b_dev (B b) = d \<and> b_blockno (B b) = n) xs = None \<and> find (\<lambda>b. b_refcnt (B b) = 0) (rev xs) = Some b \<and>
      a_loc A n = None \<and> \<not> (b_dev (B b) = d \<and> b_blockno (B b) = n)"
proof -
  note xs = ring_mem [OF r]
  show thesis
  proof (cases "find (\<lambda>b. b_dev (B b) = d \<and> b_blockno (B b) = n) xs")
    case None
    then have no: "\<not> (b_dev (B b) = d \<and> b_blockno (B b) = n)" if "b < NBUF" for b using that None unfolding find_None_iff xs by blast
    have l: "a_loc A n = None" using no buffers_okD(3) [OF ok] by (metis not_None_eq)
    then obtain b where "find (\<lambda>b. b_refcnt (B b) = 0) (rev xs) = Some b" "b < NBUF" "b_refcnt (B b) = 0"
      using free_buffer [OF ok r] c by blast
    then show thesis using that [of b] None no l by (auto simp: buffer_for_def)
  next
    case (Some b)
    then have b: "b < NBUF" "b_dev (B b) = d" "b_blockno (B b) = n" using find_SomeD [OF Some] unfolding xs by blast+
    have same: "c = b" if "c < NBUF" "b_dev (B c) = d" "b_blockno (B c) = n" for c
      using buffers_okD(2) [OF ok that(1) b(1) that(2) b(2)] that(3) b(3) by simp
    have "a_loc A n = Some b \<or> a_loc A n = None \<and> b_refcnt (B b) = 0"
    proof (cases "a_loc A n")
      case None
      then show ?thesis using buffers_okD(4) [OF ok b(1)] b(3) by auto
    next
      case (Some c)
      from buffers_okD(3) [OF ok Some] have "c < NBUF" "b_dev (B c) = d" "b_blockno (B c) = n" by blast+
      then have "c = b" by (rule same)
      then show ?thesis using Some by simp
    qed
    moreover have "\<forall>c<NBUF. b_dev (B c) = d \<longrightarrow> b_blockno (B c) = n \<longrightarrow> c = b" using same by blast
    ultimately have "buffer_for d A B n b" using b(1) unfolding buffer_for_def by blast
    then show thesis using Some b(2,3) by (intro that [of b]) simp_all
  qed
qed


text \<open>The buffer \<open>bread\<close> returns.\<close>

definition read_buf :: "u32 \<Rightarrow> blocks \<Rightarrow> u32 \<Rightarrow> buf \<Rightarrow> buf" where
  "read_buf d A n x = x\<lparr>b_valid := True, b_dev := d, b_blockno := n, b_refcnt := of_nat (a_ref A n + 1), b_data := a_view A n\<rparr>"

lemma read_buf_fields [simp]:
  "b_valid (read_buf d A n x)" "b_dev (read_buf d A n x) = d" "b_blockno (read_buf d A n x) = n"
  "b_refcnt (read_buf d A n x) = of_nat (a_ref A n + 1)" "b_data (read_buf d A n x) = a_view A n"
  "b_next (read_buf d A n x) = b_next x" "b_prev (read_buf d A n x) = b_prev x"
  by (simp_all add: read_buf_def)

lemma unlocked_buffer:
  assumes ok: "buffers_ok d A B" and sl: "sleeplocks_ok pid A L" and b: "buffer_for d A B n b" "n \<notin> a_held A"
  shows "\<not> sl_locked (L (L_buf b))"
proof
  assume "sl_locked (L (L_buf b))"
  then obtain m where m: "m \<in> a_held A" "a_loc A m = Some b" using sl b(1) by (auto simp: sleeplocks_ok_def buffer_for_def)
  from buffers_okD(3) [OF ok m(2)] have mb: "b_dev (B b) = d" "b_blockno (B b) = m" "b_refcnt (B b) \<noteq> 0" by auto
  then have "a_loc A n = Some b" using b(1) by (auto simp: buffer_for_def)
  from buffers_okD(3) [OF ok this] mb m(1) b(2) show False by auto
qed

lemma bread_eq:
  assumes c: "cache p d A s" and n: "n \<notin> a_held A" "a_loc A n \<noteq> None \<or> card (dom (a_loc A)) < NBUF"
  shows "\<exists>b. buffer_for d A (bufs s) n b \<and> bread d n s = Ok b (s\<lparr>bufs := (bufs s)(b := read_buf d A n (bufs s b)),
     slocks := (slocks s)(L_buf b := (slocks s (L_buf b))\<lparr>sl_locked := True, sl_pid := p_pid (procs s p)\<rparr>), cpus := cs_cpus s\<rparr>)"
proof -
  have q: "quiet p s" and ok: "buffers_ok d A (bufs s)" and sl: "sleeplocks_ok (p_pid (procs s p)) A (slocks s)"
    and dk: "disk s = a_disk A" using c by (simp_all add: cache_def)
  obtain xs where r: "ring (bufs s) xs" using buffers_okD(1) [OF ok] by blast
  obtain b where b: "buffer_for d A (bufs s) n b" and f:
    "find (\<lambda>b. b_dev (bufs s b) = d \<and> b_blockno (bufs s b) = n) xs = Some b \<and> b_dev (bufs s b) = d \<and> b_blockno (bufs s b) = n \<or>
      find (\<lambda>b. b_dev (bufs s b) = d \<and> b_blockno (bufs s b) = n) xs = None \<and> find (\<lambda>b. b_refcnt (bufs s b) = 0) (rev xs) = Some b \<and>
      a_loc A n = None \<and> \<not> (b_dev (bufs s b) = d \<and> b_blockno (bufs s b) = n)"
    by (rule buffer_found [OF ok r n(2)])
  let ?x = "bget_buf d n (bufs s b)"
  have g: "bget d n s = Ok b (s\<lparr>bufs := (bufs s)(b := ?x),
     slocks := (slocks s)(L_buf b := (slocks s (L_buf b))\<lparr>sl_locked := True, sl_pid := p_pid (procs s p)\<rparr>), cpus := cs_cpus s\<rparr>)"
    using f by (intro bget_eq [OF q r _ unlocked_buffer [OF ok sl b n(1)]]) blast
  have blt: "b < NBUF" using b by (simp add: buffer_for_def)
  have ref: "b_refcnt ?x = of_nat (a_ref A n + 1)"
  proof (cases "a_loc A n")
    case None
    then have "a_ref A n = 0" "b_refcnt (bufs s b) = 0" using buffers_okD(6) [OF ok] b by (auto simp: buffer_for_def)
    then show ?thesis by (simp add: bget_buf_def)
  next
    case (Some c)
    then have "c = b" using b by (simp add: buffer_for_def)
    with buffers_okD(3) [OF ok Some] have "unat (b_refcnt (bufs s b)) = a_ref A n" "b_refcnt ?x = b_refcnt (bufs s b) + 1"
      by (simp_all add: bget_buf_def)
    moreover have "of_nat (unat (b_refcnt (bufs s b))) = b_refcnt (bufs s b)" by simp
    ultimately show ?thesis by simp
  qed
  have vw: "b_data ?x = a_view A n" if "b_valid ?x"
  proof -
    have v: "b_dev (bufs s b) = d" "b_blockno (bufs s b) = n" "b_valid (bufs s b)" using that by (auto simp: bget_buf_def split: if_splits)
    show ?thesis
    proof (cases "a_loc A n")
      case None
      then have "b_refcnt (bufs s b) = 0" using b by (simp add: buffer_for_def)
      from buffers_okD(5) [OF ok blt this v(1,3)] buffers_okD(6) [OF ok None] v show ?thesis by (simp add: bget_buf_def)
    next
      case (Some c)
      then have "c = b" using b by (simp add: buffer_for_def)
      with buffers_okD(3) [OF ok Some] show ?thesis by (simp add: bget_buf_def)
    qed
  qed
  have dv: "b_dev ?x = d" "b_blockno ?x = n" by (simp_all add: bget_buf_def)
  have st: "disk s n = a_view A n" if "\<not> b_valid ?x"
  proof -
    have "a_loc A n = None"
    proof (rule ccontr)
      assume "a_loc A n \<noteq> None"
      then have "a_loc A n = Some b" using b by (auto simp: buffer_for_def)
      from buffers_okD(3) [OF ok this] that show False by (simp add: bget_buf_def)
    qed
    then show ?thesis using buffers_okD(6) [OF ok] dk by simp
  qed
  have e: "?x\<lparr>b_valid := True, b_data := a_view A n\<rparr> = read_buf d A n (bufs s b)"
    using ref dv by (cases "bufs s b") (auto simp: read_buf_def bget_buf_def)
  have "(if b_valid ?x then ?x else ?x\<lparr>b_data := disk s n, b_valid := True\<rparr>) = read_buf d A n (bufs s b)"
    unfolding e [symmetric] using vw st by (cases ?x) auto
  then have xx: "b_valid ?x \<Longrightarrow> ?x = read_buf d A n (bufs s b)"
    "\<not> b_valid ?x \<Longrightarrow> ?x\<lparr>b_data := disk s n, b_valid := True\<rparr> = read_buf d A n (bufs s b)" by simp_all
  have "bread d n s = Ok b (s\<lparr>bufs := (bufs s)(b := read_buf d A n (bufs s b)),
     slocks := (slocks s)(L_buf b := (slocks s (L_buf b))\<lparr>sl_locked := True, sl_pid := p_pid (procs s p)\<rparr>), cpus := cs_cpus s\<rparr>)"
    by (cases "b_valid ?x") (simp_all add: bread_def bnd_def g get_buf_def upd_buf_def disk_rw_def seq_def dv xx)
  then show ?thesis using b by blast
qed


text \<open>A table entry and its buffer change together.\<close>

lemma buffers_ok_upd:
  assumes ok: "buffers_ok d A B" and b: "buffer_for d A B n b"
    and x: "b_dev x = d" "b_blockno x = n" "b_valid x" "b_data x = a_view A' n" "b_refcnt x = of_nat (a_ref A' n)"
      "0 < a_ref A' n" "a_ref A' n < 2 ^ 32" "b_next x = b_next (B b)" "b_prev x = b_prev (B b)"
    and A: "a_loc A' = (a_loc A)(n \<mapsto> b)" "\<And>m. m \<noteq> n \<Longrightarrow> a_view A' m = a_view A m"
      "\<And>m. m \<noteq> n \<Longrightarrow> a_ref A' m = a_ref A m" "\<And>m. m \<noteq> n \<Longrightarrow> a_disk A' m = a_disk A m"
  shows "buffers_ok d A' (B(b := x))"
proof -
  have blt: "b < NBUF" using b by (simp add: buffer_for_def)
  have r: "unat (b_refcnt x) = a_ref A' n" using x(5,7) by (simp add: unat_of_nat)
  have other: "b_blockno (B c) \<noteq> n" if "c < NBUF" "c \<noteq> b" "b_dev (B c) = d" for c
  proof
    assume e: "b_blockno (B c) = n"
    show False
    proof (cases "a_loc A n")
      case None
      then show ?thesis using b that e by (auto simp: buffer_for_def)
    next
      case (Some e')
      then have "e' = b" using b by (simp add: buffer_for_def)
      with buffers_okD(3) [OF ok Some] buffers_okD(2) [OF ok that(1) blt that(3)] e that(2) show False by simp
    qed
  qed
  have loc: "c \<noteq> b" if "a_loc A m = Some c" "m \<noteq> n" for c m
  proof
    assume "c = b"
    then have "b_blockno (B b) = m" "b_refcnt (B b) \<noteq> 0" "a_loc A m = Some b" using buffers_okD(3) [OF ok that(1)] that(1) by auto
    then have "a_loc A n = Some b" using b by (auto simp: buffer_for_def)
    with buffers_okD(3) [OF ok this] that(2) \<open>b_blockno (B b) = m\<close> show False by simp
  qed
  have dev: "b_dev (B c) = d" if "c < NBUF" "b_refcnt (B c) \<noteq> 0" for c
    using buffers_okD(3) [OF ok buffers_okD(4) [OF ok that]] by simp
  show ?thesis
    unfolding buffers_ok_def
  proof (intro conjI)
    obtain xs where "ring B xs" using buffers_okD(1) [OF ok] by blast
    then have "ring (B(b := x)) xs" using ring_links [of "B(b := x)" B xs] x(8,9) by simp
    then show "\<exists>xs. ring (B(b := x)) xs" ..
    show "\<forall>c<NBUF. \<forall>e<NBUF. b_dev ((B(b := x)) c) = d \<longrightarrow> b_dev ((B(b := x)) e) = d \<longrightarrow>
        b_blockno ((B(b := x)) c) = b_blockno ((B(b := x)) e) \<longrightarrow> c = e"
    proof (intro allI impI)
      fix c e assume a: "c < NBUF" "e < NBUF" "b_dev ((B(b := x)) c) = d" "b_dev ((B(b := x)) e) = d"
        "b_blockno ((B(b := x)) c) = b_blockno ((B(b := x)) e)"
      show "c = e"
        using a other [OF a(1)] other [OF a(2)] x(2) buffers_okD(2) [OF ok a(1,2)] by (cases "c = b"; cases "e = b") simp_all
    qed
    show "\<forall>m c. a_loc A' m = Some c \<longrightarrow> c < NBUF \<and> b_dev ((B(b := x)) c) = d \<and> b_blockno ((B(b := x)) c) = m \<and>
        b_valid ((B(b := x)) c) \<and> b_data ((B(b := x)) c) = a_view A' m \<and> unat (b_refcnt ((B(b := x)) c)) = a_ref A' m \<and> 0 < a_ref A' m"
    proof (intro allI impI)
      fix m c assume "a_loc A' m = Some c"
      then show "c < NBUF \<and> b_dev ((B(b := x)) c) = d \<and> b_blockno ((B(b := x)) c) = m \<and>
        b_valid ((B(b := x)) c) \<and> b_data ((B(b := x)) c) = a_view A' m \<and> unat (b_refcnt ((B(b := x)) c)) = a_ref A' m \<and> 0 < a_ref A' m"
        using x r blt A loc [of m c] buffers_okD(3) [OF ok, of m c] by (cases "m = n") simp_all
    qed
    show "\<forall>c<NBUF. b_refcnt ((B(b := x)) c) \<noteq> 0 \<longrightarrow> a_loc A' (b_blockno ((B(b := x)) c)) = Some c"
      using x(2) A(1) other dev buffers_okD(4) [OF ok] by (simp, blast)
    show "\<forall>c<NBUF. b_refcnt ((B(b := x)) c) = 0 \<longrightarrow> b_dev ((B(b := x)) c) = d \<longrightarrow> b_valid ((B(b := x)) c) \<longrightarrow>
        b_data ((B(b := x)) c) = a_disk A' (b_blockno ((B(b := x)) c))"
      using r x(6) A(4) other buffers_okD(5) [OF ok] by auto
    show "\<forall>m. a_loc A' m = None \<longrightarrow> a_ref A' m = 0 \<and> a_view A' m = a_disk A' m"
      using A buffers_okD(6) [OF ok] by simp
  qed
qed


section \<open>The operations on the table\<close>

lemma sleeplocks_ok_lock:
  assumes sl: "sleeplocks_ok pid A L" and ok: "buffers_ok d A B" and b: "buffer_for d A B n b" "n \<notin> a_held A"
    and A: "a_loc A' = (a_loc A)(n \<mapsto> b)" "a_held A' = insert n (a_held A)"
  shows "sleeplocks_ok pid A' (L(L_buf b := (L (L_buf b))\<lparr>sl_locked := True, sl_pid := pid\<rparr>))"
proof -
  have "(\<exists>m\<in>a_held A'. a_loc A' m = Some c) = (\<exists>m\<in>a_held A. a_loc A m = Some c)" if "c \<noteq> b" for c
    using that A b(2) by auto
  then show ?thesis using sl A by (auto simp: sleeplocks_ok_def)
qed

lemma wp_bread:
  assumes c: "cache p d A s" and n: "n \<notin> a_held A" "a_loc A n \<noteq> None \<or> card (dom (a_loc A)) < NBUF" "a_ref A n + 1 < 2 ^ 32"
  shows "wp (bread d n) (\<lambda>b s'. cache_only s s' \<and> (a_loc A n \<noteq> None \<longrightarrow> a_loc A n = Some b) \<and>
    cache p d (A\<lparr>a_loc := (a_loc A)(n \<mapsto> b), a_ref := (a_ref A)(n := a_ref A n + 1), a_held := insert n (a_held A)\<rparr>) s') s"
proof -
  let ?A = "\<lambda>b. A\<lparr>a_loc := (a_loc A)(n \<mapsto> b), a_ref := (a_ref A)(n := a_ref A n + 1), a_held := insert n (a_held A)\<rparr>"
  have q: "quiet p s" and ok: "buffers_ok d A (bufs s)" and sl: "sleeplocks_ok (p_pid (procs s p)) A (slocks s)"
    and dk: "disk s = a_disk A" "dwrites s = a_writes A" using c by (simp_all add: cache_def)
  from bread_eq [OF c n(1,2)] obtain b where b: "buffer_for d A (bufs s) n b" and e: "bread d n s = Ok b (s\<lparr>bufs := (bufs s)(b := read_buf d A n (bufs s b)),
     slocks := (slocks s)(L_buf b := (slocks s (L_buf b))\<lparr>sl_locked := True, sl_pid := p_pid (procs s p)\<rparr>), cpus := cs_cpus s\<rparr>)" (is "_ = Ok b ?s") by blast
  have "buffers_ok d (?A b) (bufs ?s)" using n(3) by (simp, intro buffers_ok_upd [OF ok b]) simp_all
  moreover have "sleeplocks_ok (p_pid (procs s p)) (?A b) (slocks ?s)" by (simp, rule sleeplocks_ok_lock [OF sl ok b n(1)]) simp_all
  moreover have "quiet p ?s" using quiet_cs [OF q] by (simp add: quiet_def cpu_ok_def unlocked_def)
  ultimately have "cache p d (?A b) ?s" using dk by (simp add: cache_def)
  moreover have "cache_only s ?s"
    unfolding cache_only_def by (intro exI [of _ "bufs ?s"] exI [of _ "slocks ?s"] exI [of _ "cpus ?s"] exI [of _ "procs s"]
      exI [of _ "disk s"] exI [of _ "dwrites s"]) simp
  moreover have "a_loc A n \<noteq> None \<longrightarrow> a_loc A n = Some b" using b by (auto simp: buffer_for_def)
  ultimately show ?thesis using e by (simp add: wp_def)
qed


lemma cache_loc:
  assumes "cache p d A s" "a_loc A n = Some b"
  shows "buffer_for d A (bufs s) n b" "b_data (bufs s b) = a_view A n" "b_blockno (bufs s b) = n" "b < NBUF"
    "b_dev (bufs s b) = d" "b_valid (bufs s b)" "unat (b_refcnt (bufs s b)) = a_ref A n" "0 < a_ref A n"
    "b_refcnt (bufs s b) = of_nat (a_ref A n)" "a_ref A n < 2 ^ 32"
proof -
  have ok: "buffers_ok d A (bufs s)" using assms(1) by (simp add: cache_def)
  show b: "b_data (bufs s b) = a_view A n" "b_blockno (bufs s b) = n" "b < NBUF" "b_dev (bufs s b) = d" "b_valid (bufs s b)"
    and r: "unat (b_refcnt (bufs s b)) = a_ref A n" and "0 < a_ref A n"
    using buffers_okD(3) [OF ok assms(2)] by blast+
  show "buffer_for d A (bufs s) n b" using b(3) assms(2) by (simp add: buffer_for_def)
  show "b_refcnt (bufs s b) = of_nat (a_ref A n)" unfolding r [symmetric] by simp
  show "a_ref A n < 2 ^ 32" unfolding r [symmetric] using unsigned_less [of "b_refcnt (bufs s b)", where 'a = nat] by simp
qed

lemma cache_only_bufs: "cache_only s (s\<lparr>bufs := B\<rparr>)"
  unfolding cache_only_def by (intro exI [of _ B] exI [of _ "slocks s"] exI [of _ "cpus s"] exI [of _ "procs s"]
      exI [of _ "disk s"] exI [of _ "dwrites s"]) simp

lemma wp_put_data:
  assumes c: "cache p d A s" and n: "a_loc A n = Some b" and f: "f (bufs s b) = (bufs s b)\<lparr>b_data := v\<rparr>"
  shows "wp (upd_buf b f) (\<lambda>_ s'. cache_only s s' \<and> cache p d (A\<lparr>a_view := (a_view A)(n := v)\<rparr>) s') s"
proof -
  note l = cache_loc [OF c n]
  have ok: "buffers_ok d A (bufs s)" using c by (simp add: cache_def)
  have "buffers_ok d (A\<lparr>a_view := (a_view A)(n := v)\<rparr>) ((bufs s)(b := f (bufs s b)))"
    using l n unfolding f by (intro buffers_ok_upd [OF ok l(1)]) (simp_all add: map_upd_triv)
  moreover have "sleeplocks_ok (p_pid (procs s p)) (A\<lparr>a_view := (a_view A)(n := v)\<rparr>) (slocks s)"
    using c by (simp add: cache_def sleeplocks_ok_def)
  ultimately have "cache p d (A\<lparr>a_view := (a_view A)(n := v)\<rparr>) (s\<lparr>bufs := (bufs s)(b := f (bufs s b))\<rparr>)"
    using c by (simp add: cache_def quiet_cong [of "s\<lparr>bufs := B\<rparr>" s for B])
  then show ?thesis by (simp add: upd_buf_def wp_modify cache_only_bufs)
qed

lemma holding_buf:
  assumes c: "cache p d A s" and n: "a_loc A n = Some b" "n \<in> a_held A"
  shows "holdingsleep (L_buf b) s = Ok True (s\<lparr>cpus := cs_cpus s\<rparr>)"
proof -
  have q: "quiet p s" and sl: "sleeplocks_ok (p_pid (procs s p)) A (slocks s)" using c by (simp_all add: cache_def)
  have "sl_locked (slocks s (L_buf b))" "sl_pid (slocks s (L_buf b)) = p_pid (procs s p)"
    using sl n cache_loc(4) [OF c n(1)] by (auto simp: sleeplocks_ok_def)
  then show ?thesis using holdingsleep_eq [of "L_buf b" s p] q by (simp add: quiet_def)
qed

lemma cache_only_step: "cache_only s (s\<lparr>bufs := B, slocks := L, procs := P, cpus := C\<rparr>)"
  "cache_only s (s\<lparr>bufs := B, cpus := C\<rparr>)" "cache_only s (s\<lparr>cpus := C, disk := D, dwrites := W\<rparr>)"
  unfolding cache_only_def by (intro exI [of _ B] exI [of _ L] exI [of _ C] exI [of _ P]
      exI [of _ "disk s"] exI [of _ "dwrites s"], simp)
    (intro exI [of _ B] exI [of _ "slocks s"] exI [of _ C] exI [of _ "procs s"] exI [of _ "disk s"] exI [of _ "dwrites s"], simp,
     intro exI [of _ "bufs s"] exI [of _ "slocks s"] exI [of _ C] exI [of _ "procs s"] exI [of _ D] exI [of _ W], simp)

lemma wp_bwrite:
  assumes c: "cache p d A s" and n: "a_loc A n = Some b" "n \<in> a_held A"
  shows "wp (bwrite b) (\<lambda>_ s'. cache_only s s' \<and>
    cache p d (A\<lparr>a_disk := (a_disk A)(n := a_view A n), a_writes := a_writes A @ [(n, a_view A n)]\<rparr>) s') s"
proof -
  note l = cache_loc [OF c n(1)]
  let ?A = "A\<lparr>a_disk := (a_disk A)(n := a_view A n), a_writes := a_writes A @ [(n, a_view A n)]\<rparr>"
  let ?s = "s\<lparr>cpus := cs_cpus s, disk := (disk s)(n := a_view A n), dwrites := dwrites s @ [(n, a_view A n)]\<rparr>"
  have q: "quiet p s" and ok: "buffers_ok d A (bufs s)" using c by (simp_all add: cache_def)
  have "buffers_ok d ?A ((bufs s)(b := bufs s b))"
    using l n(1) by (intro buffers_ok_upd [OF ok l(1)]) (simp_all add: map_upd_triv)
  moreover have "quiet p ?s" using quiet_cs [OF q] by (simp add: quiet_def cpu_ok_def unlocked_def)
  ultimately have "cache p d ?A ?s" using c by (simp add: cache_def sleeplocks_ok_def)
  moreover have "bwrite b s = Ok () ?s"
    using l by (simp add: bwrite_def bnd_def holding_buf [OF c n] disk_rw_def get_buf_def)
  ultimately show ?thesis by (simp add: wp_def cache_only_step)
qed

lemma wp_pin:
  assumes c: "cache p d A s" and n: "a_loc A n = Some b" and k: "0 < k" "k < 2 ^ 32"
    and f: "f (bufs s b) = (bufs s b)\<lparr>b_refcnt := of_nat k\<rparr>"
  shows "wp (stmts [acquire L_bcache, upd_buf b f, release L_bcache])
    (\<lambda>_ s'. cache_only s s' \<and> cache p d (A\<lparr>a_ref := (a_ref A)(n := k)\<rparr>) s') s"
proof -
  note l = cache_loc [OF c n]
  have q: "quiet p s" and ok: "buffers_ok d A (bufs s)" using c by (simp_all add: cache_def)
  then have u: "unlocked L_bcache s" "cpu_ok s" by (simp_all add: quiet_def)
  let ?A = "A\<lparr>a_ref := (a_ref A)(n := k)\<rparr>" and ?s = "s\<lparr>bufs := (bufs s)(b := f (bufs s b)), cpus := cs_cpus s\<rparr>"
  have "buffers_ok d ?A ((bufs s)(b := f (bufs s b)))"
    using l n k unfolding f by (intro buffers_ok_upd [OF ok l(1)]) (simp_all add: map_upd_triv)
  then have "cache p d ?A ?s"
    using c quiet_cs [OF q] by (simp add: cache_def sleeplocks_ok_def quiet_cong [of ?s "s\<lparr>cpus := cs_cpus s\<rparr>"])
  moreover have "stmts [acquire L_bcache, upd_buf b f, release L_bcache] s = Ok () ?s"
    by (simp add: seq_def bnd_def acquire_unlocked [OF u(1)] upd_buf_def buf_section [OF u])
  ultimately show ?thesis by (simp add: wp_def cache_only_step)
qed

lemma wp_bpin:
  assumes c: "cache p d A s" and n: "a_loc A n = Some b" and k: "a_ref A n + 1 < 2 ^ 32"
  shows "wp (bpin b) (\<lambda>_ s'. cache_only s s' \<and> cache p d (A\<lparr>a_ref := (a_ref A)(n := a_ref A n + 1)\<rparr>) s') s"
  unfolding bpin_def using k cache_loc(9) [OF c n] by (intro wp_pin [OF c n]) simp_all

lemma wp_bunpin:
  assumes c: "cache p d A s" and n: "a_loc A n = Some b" and k: "1 < a_ref A n"
  shows "wp (bunpin b) (\<lambda>_ s'. cache_only s s' \<and> cache p d (A\<lparr>a_ref := (a_ref A)(n := a_ref A n - 1)\<rparr>) s') s"
  unfolding bunpin_def using k cache_loc(9,10) [OF c n] by (intro wp_pin [OF c n]) (simp_all add: of_nat_diff)


text \<open>Giving a buffer back. The last reference may go only when the disk has the content.\<close>

definition drop_ref :: "u32 \<Rightarrow> blocks \<Rightarrow> blocks" where
  "drop_ref n A = A\<lparr>a_ref := (a_ref A)(n := a_ref A n - 1), a_held := a_held A - {n},
     a_loc := (if a_ref A n = 1 then (a_loc A)(n := None) else a_loc A)\<rparr>"

lemma buffers_ok_contents:
  assumes "buffers_ok d A B" "\<And>b. contents (B' b) = contents (B b)" "\<exists>xs. ring B' xs"
  shows "buffers_ok d A B'"
proof -
  have "b_valid (B' b) = b_valid (B b)" "b_dev (B' b) = b_dev (B b)" "b_blockno (B' b) = b_blockno (B b)"
    "b_refcnt (B' b) = b_refcnt (B b)" "b_data (B' b) = b_data (B b)" for b
    using assms(2) [of b] by (simp_all add: contents_def)
  note eqs = this
  show ?thesis
    unfolding buffers_ok_def eqs by (rule conjI [OF assms(3) conjunct2 [OF assms(1) [unfolded buffers_ok_def]]])
qed

lemma buffers_ok_drop:
  assumes ok: "buffers_ok d A B" and n: "a_loc A n = Some b" "a_ref A n = 1" "a_view A n = a_disk A n"
  shows "buffers_ok d (drop_ref n A) (B(b := (B b)\<lparr>b_refcnt := 0\<rparr>))"
proof -
  note b = buffers_okD(3) [OF ok n(1)]
  have loc: "c \<noteq> b" if "a_loc A m = Some c" "m \<noteq> n" for c m
    using buffers_okD(3) [OF ok that(1)] b that(2) by auto
  have fs: "b_dev ((B(b := (B b)\<lparr>b_refcnt := 0\<rparr>)) c) = b_dev (B c)" "b_blockno ((B(b := (B b)\<lparr>b_refcnt := 0\<rparr>)) c) = b_blockno (B c)" for c
    by simp_all
  show ?thesis
    unfolding buffers_ok_def
  proof (intro conjI)
    obtain xs where "ring B xs" using buffers_okD(1) [OF ok] by blast
    then have "ring (B(b := (B b)\<lparr>b_refcnt := 0\<rparr>)) xs" using ring_links [of "B(b := (B b)\<lparr>b_refcnt := 0\<rparr>)" B xs] by simp
    then show "\<exists>xs. ring (B(b := (B b)\<lparr>b_refcnt := 0\<rparr>)) xs" ..
    show "\<forall>m c. a_loc (drop_ref n A) m = Some c \<longrightarrow> c < NBUF \<and> b_dev ((B(b := (B b)\<lparr>b_refcnt := 0\<rparr>)) c) = d \<and>
        b_blockno ((B(b := (B b)\<lparr>b_refcnt := 0\<rparr>)) c) = m \<and> b_valid ((B(b := (B b)\<lparr>b_refcnt := 0\<rparr>)) c) \<and>
        b_data ((B(b := (B b)\<lparr>b_refcnt := 0\<rparr>)) c) = a_view (drop_ref n A) m \<and>
        unat (b_refcnt ((B(b := (B b)\<lparr>b_refcnt := 0\<rparr>)) c)) = a_ref (drop_ref n A) m \<and> 0 < a_ref (drop_ref n A) m"
      using n(2) loc buffers_okD(3) [OF ok] by (simp add: drop_ref_def)
    show "\<forall>c<NBUF. \<forall>e<NBUF. b_dev ((B(b := (B b)\<lparr>b_refcnt := 0\<rparr>)) c) = d \<longrightarrow> b_dev ((B(b := (B b)\<lparr>b_refcnt := 0\<rparr>)) e) = d \<longrightarrow>
        b_blockno ((B(b := (B b)\<lparr>b_refcnt := 0\<rparr>)) c) = b_blockno ((B(b := (B b)\<lparr>b_refcnt := 0\<rparr>)) e) \<longrightarrow> c = e"
      unfolding fs using buffers_okD(2) [OF ok] by (intro allI impI)
    show "\<forall>c<NBUF. b_refcnt ((B(b := (B b)\<lparr>b_refcnt := 0\<rparr>)) c) \<noteq> 0 \<longrightarrow>
        a_loc (drop_ref n A) (b_blockno ((B(b := (B b)\<lparr>b_refcnt := 0\<rparr>)) c)) = Some c"
    proof (intro allI impI)
      fix c assume c: "c < NBUF" "b_refcnt ((B(b := (B b)\<lparr>b_refcnt := 0\<rparr>)) c) \<noteq> 0"
      then have cb: "c \<noteq> b" "b_refcnt (B c) \<noteq> 0" by (auto split: if_splits)
      from buffers_okD(4) [OF ok c(1) cb(2)] have "a_loc A (b_blockno (B c)) = Some c" .
      moreover have "b_blockno (B c) \<noteq> n" using calculation n(1) cb(1) by auto
      ultimately show "a_loc (drop_ref n A) (b_blockno ((B(b := (B b)\<lparr>b_refcnt := 0\<rparr>)) c)) = Some c"
        using cb(1) by (simp add: drop_ref_def)
    qed
    show "\<forall>c<NBUF. b_refcnt ((B(b := (B b)\<lparr>b_refcnt := 0\<rparr>)) c) = 0 \<longrightarrow> b_dev ((B(b := (B b)\<lparr>b_refcnt := 0\<rparr>)) c) = d \<longrightarrow>
        b_valid ((B(b := (B b)\<lparr>b_refcnt := 0\<rparr>)) c) \<longrightarrow>
        b_data ((B(b := (B b)\<lparr>b_refcnt := 0\<rparr>)) c) = a_disk (drop_ref n A) (b_blockno ((B(b := (B b)\<lparr>b_refcnt := 0\<rparr>)) c))"
      using b n(3) buffers_okD(5) [OF ok] by (simp add: drop_ref_def)
    show "\<forall>m. a_loc (drop_ref n A) m = None \<longrightarrow> a_ref (drop_ref n A) m = 0 \<and> a_view (drop_ref n A) m = a_disk (drop_ref n A) m"
      using n(2,3) buffers_okD(6) [OF ok] by (simp add: drop_ref_def)
  qed
qed


lemma buffers_ok_release:
  assumes ok: "buffers_ok d A B" and n: "a_loc A n = Some b" "a_ref A n = 1 \<longrightarrow> a_view A n = a_disk A n"
  defines "B1 \<equiv> B(b := (B b)\<lparr>b_refcnt := b_refcnt (B b) - 1\<rparr>)"
  shows "buffers_ok d (drop_ref n A) (if b_refcnt (B1 b) = 0 then front b B1 else B1)"
proof -
  note b = buffers_okD(3) [OF ok n(1)]
  have r: "b_refcnt (B b) = of_nat (a_ref A n)" using b by (metis word_of_nat_eq_iff unat_of_nat of_nat_unat ucast_id)
  have lt: "a_ref A n < 2 ^ 32" using b unsigned_less [of "b_refcnt (B b)", where 'a = nat] by simp
  show ?thesis
  proof (cases "a_ref A n = 1")
    case True
    then have B1: "B1 = B(b := (B b)\<lparr>b_refcnt := 0\<rparr>)" using r by (simp add: B1_def)
    then have ok1: "buffers_ok d (drop_ref n A) B1" using buffers_ok_drop [OF ok n(1) True] n(2) True by simp
    obtain xs where xs: "ring B1 xs" using buffers_okD(1) [OF ok1] by blast
    have "b \<in> set xs" using ring_mem [OF xs] b by simp
    then obtain us vs where "xs = us @ b # vs" by (meson split_list)
    then have "\<exists>xs. ring (front b B1) xs" using front_ring [of B1 us b vs] xs by blast
    then have "buffers_ok d (drop_ref n A) (front b B1)" by (intro buffers_ok_contents [OF ok1] front_contents)
    then show ?thesis using B1 by simp
  next
    case False
    then have k: "0 < a_ref A n - 1" "a_ref A n - 1 < 2 ^ 32" using b lt by linarith+
    have r1: "b_refcnt (B b) - 1 = of_nat (a_ref A n - 1)" using r b by (simp add: of_nat_diff)
    have "unat (of_nat k :: u32) = k" if "k < 2 ^ 32" for k using that by (simp add: unat_of_nat)
    from this [OF k(2)] have "unat (b_refcnt (B1 b)) = a_ref A n - 1" unfolding r1 [symmetric] by (simp add: B1_def)
    then have "b_refcnt (B1 b) \<noteq> 0" using k(1) by auto
    moreover have "buffer_for d A B n b" using b n(1) by (simp add: buffer_for_def)
    then have "buffers_ok d (drop_ref n A) B1"
      unfolding B1_def using b False n(1) r1 k by (intro buffers_ok_upd [OF ok, of n b]) (simp_all add: drop_ref_def map_upd_triv)
    ultimately show ?thesis by simp
  qed
qed

lemma sleeplocks_ok_unlock:
  assumes sl: "sleeplocks_ok pid A L" and ok: "buffers_ok d A B" and n: "a_loc A n = Some b"
  shows "sleeplocks_ok pid (drop_ref n A) (L(L_buf b := (L (L_buf b))\<lparr>sl_locked := False, sl_pid := x\<rparr>))"
proof -
  have inj: "m = n" if "a_loc A m = Some b" for m using buffers_okD(3) [OF ok that] buffers_okD(3) [OF ok n] by auto
  have "(\<exists>m\<in>a_held (drop_ref n A). a_loc (drop_ref n A) m = Some c) = (c \<noteq> b \<and> (\<exists>m\<in>a_held A. a_loc A m = Some c))"
    (is "?l c = ?r c") for c
  proof
    assume "?l c"
    then obtain m where "m \<in> a_held A" "m \<noteq> n" "a_loc A m = Some c" by (auto simp: drop_ref_def split: if_splits)
    then show "?r c" using inj by blast
  next
    assume r: "?r c"
    then obtain m where m: "m \<in> a_held A" "a_loc A m = Some c" by blast
    then have "m \<noteq> n" using n r by auto
    then show "?l c" using m by (intro bexI [of _ m]) (simp_all add: drop_ref_def)
  qed
  moreover have "a_held (drop_ref n A) \<subseteq> dom (a_loc (drop_ref n A))" using sl by (auto simp: sleeplocks_ok_def drop_ref_def)
  ultimately show ?thesis using sl by (simp add: sleeplocks_ok_def)
qed

lemma wp_brelse:
  assumes c: "cache p d A s" and n: "a_loc A n = Some b" "n \<in> a_held A" "a_ref A n = 1 \<longrightarrow> a_view A n = a_disk A n"
  shows "wp (brelse b) (\<lambda>_ s'. cache_only s s' \<and> cache p d (drop_ref n A) s') s"
proof -
  have q: "quiet p s" and ok: "buffers_ok d A (bufs s)" and sl: "sleeplocks_ok (p_pid (procs s p)) A (slocks s)"
    using c by (simp_all add: cache_def)
  let ?c = "s\<lparr>cpus := cs_cpus s\<rparr>"
  define L where "L = (slocks s)(L_buf b := (slocks s (L_buf b))\<lparr>sl_locked := False, sl_pid := 0\<rparr>)"
  define P where "P = woken (Some p) (Some (Ch_sleeplock (L_buf b))) {..<NPROC} (procs s)"
  have qc: "quiet p ?c" by (rule quiet_cs [OF q])
  have cs: "cs_cpus ?c = cs_cpus s" by (simp add: cs_cpus_def)
  have rs: "releasesleep (L_buf b) ?c = Ok () (?c\<lparr>slocks := L, procs := P\<rparr>)" (is "_ = Ok () ?t")
    using releasesleep_eq [of "L_buf b" ?c] qc cs by (simp add: quiet_def L_def P_def)
  have qt: "quiet p ?t" using qc by (simp add: quiet_def cpu_ok_def unlocked_def)
  then have u: "unlocked L_bcache ?t" "cpu_ok ?t" by (simp_all add: quiet_def)
  have cst: "cs_cpus ?t = cs_cpus s" by (simp add: cs_cpus_def)
  define B1 where "B1 = (bufs s)(b := (bufs s b)\<lparr>b_refcnt := b_refcnt (bufs s b) - 1\<rparr>)"
  define B2 where "B2 = (if b_refcnt (B1 b) = 0 then front b B1 else B1)"
  let ?a = "acq L_bcache ?t"
  have up: "upd_buf b (\<lambda>x. x\<lparr>b_refcnt := b_refcnt x - 1\<rparr>) ?a = Ok () (?a\<lparr>bufs := B1\<rparr>)"
    by (simp add: upd_buf_def B1_def)
  have mf: "bnd (get_buf b) (\<lambda>x. kwhen (b_refcnt x = 0) (move_front b)) (?a\<lparr>bufs := B1\<rparr>) = Ok () (?a\<lparr>bufs := B2\<rparr>)"
    by (simp add: get_buf_def B2_def move_front_eq kwhen_def)
  have rl: "release L_bcache (?a\<lparr>bufs := B2\<rparr>) = Ok () (s\<lparr>bufs := B2, slocks := L, procs := P, cpus := cs_cpus s\<rparr>)" (is "_ = Ok () ?s")
    using buf_section [OF u, of B2] cst by simp
  have e: "brelse b s = Ok () ?s"
    by (simp add: brelse_def bnd_Ok [where m = "holdingsleep (L_buf b)", OF holding_buf [OF c n(1,2)]]
        seq_Ok [where m = "releasesleep (L_buf b)", OF rs] seq_Ok [where m = "acquire L_bcache", OF acquire_unlocked [OF u(1)]]
        seq_Ok [where m = "upd_buf b (\<lambda>x. x\<lparr>b_refcnt := b_refcnt x - 1\<rparr>)", OF up]
        seq_Ok [where m = "bnd (get_buf b) (\<lambda>x. kwhen (b_refcnt x = 0) (move_front b))", OF mf]
        seq_Ok [where m = "release L_bcache", OF rl])
  have "p_pid (P p) = p_pid (procs s p)" by (simp add: P_def woken_def)
  moreover have "buffers_ok d (drop_ref n A) B2" unfolding B2_def B1_def by (rule buffers_ok_release [OF ok n(1,3)])
  moreover have "sleeplocks_ok (p_pid (procs s p)) (drop_ref n A) L" unfolding L_def by (rule sleeplocks_ok_unlock [OF sl ok n(1)])
  moreover have "quiet p ?s" using qt by (simp add: quiet_def cpu_ok_def unlocked_def)
  ultimately have "cache p d (drop_ref n A) ?s" using c by (simp add: cache_def drop_ref_def)
  then show ?thesis using e by (simp add: wp_def cache_only_step)
qed

end
