(* ===== verification/Logops.thy ===== *)
theory Logops
  imports Log Bioops
begin

text \<open>
  The log as a protocol on the disk: the exact sequence of block writes \<open>commit\<close> and recovery
  make, and what is on the disk if the machine stops between any two of them.
\<close>

section \<open>Between operations\<close>

text \<open>
  Between operations no buffer is locked, the blocks in \<open>P\<close> are pinned once each, and readers see \<open>V\<close>
  on a disk that has \<open>D\<close> and has done the writes \<open>W\<close>.
\<close>

definition idle :: "u32 set \<Rightarrow> (u32 \<Rightarrow> bytes) \<Rightarrow> (u32 \<Rightarrow> bytes) \<Rightarrow> (u32 \<times> bytes) list \<Rightarrow> blocks \<Rightarrow> bool" where
  "idle P V D W A \<longleftrightarrow> a_view A = V \<and> a_disk A = D \<and> a_writes A = W \<and> a_held A = {} \<and> dom (a_loc A) = P \<and>
     a_ref A = (\<lambda>n. if n \<in> P then 1 else 0)"

definition settled :: "nat \<Rightarrow> u32 \<Rightarrow> u32 set \<Rightarrow> (u32 \<Rightarrow> bytes) \<Rightarrow> (u32 \<Rightarrow> bytes) \<Rightarrow> (u32 \<times> bytes) list \<Rightarrow> 'x bio_st_scheme \<Rightarrow> bool" where
  "settled p d P V D W s \<longleftrightarrow> (\<exists>A. cache p d A s \<and> idle P V D W A)"

lemma wp_bndI: "wp m Q s \<Longrightarrow> (\<And>a t. Q a t \<Longrightarrow> wp (f a) R t) \<Longrightarrow> wp (bnd m f) R s"
  by (auto simp: wp_bnd elim: wp_mono)

lemma wp_ret_ext: "wp (ret a) Q = Q a"
  by (rule ext) (rule wp_ret)

lemma settled_clean:
  assumes "settled p d P V D W s" "n \<notin> P"
  shows "V n = D n"
proof -
  obtain A where A: "cache p d A s" "idle P V D W A" using assms(1) by (auto simp: settled_def)
  then have "a_loc A n = None" using assms(2) by (auto simp: idle_def)
  then show ?thesis using A buffers_okD(6) [of d A "bufs s" n] by (simp add: cache_def idle_def)
qed

lemma settled_disk: "settled p d P V D W s \<Longrightarrow> disk s = D \<and> dwrites s = W"
  by (auto simp: settled_def cache_def idle_def)

section \<open>Steps\<close>

text \<open>The state \<open>t\<close>, reached from \<open>s\<close> by cache operations, has the table \<open>A\<close>.\<close>

definition at :: "nat \<Rightarrow> u32 \<Rightarrow> 'x bio_st_scheme \<Rightarrow> blocks \<Rightarrow> 'x bio_st_scheme \<Rightarrow> bool" where
  "at p d s A t \<longleftrightarrow> cache_only s t \<and> cache p d A t"

lemma atI: "cache_only s t \<Longrightarrow> cache_only t u \<and> cache p d A u \<Longrightarrow> at p d s A u"
  by (auto simp: at_def intro: cache_only_trans)

lemma at_bread:
  assumes "at p d s A t" "n \<notin> a_held A" "a_loc A n \<noteq> None \<or> card (dom (a_loc A)) < NBUF" "a_ref A n + 1 < 2 ^ 32"
    "\<And>b u. at p d s (A\<lparr>a_loc := (a_loc A)(n \<mapsto> b), a_ref := (a_ref A)(n := a_ref A n + 1), a_held := insert n (a_held A)\<rparr>) u \<Longrightarrow>
      a_loc A n = None \<or> a_loc A n = Some b \<Longrightarrow> wp (f b) R u"
  shows "wp (bnd (bread d n) f) R t"
  using wp_bread [OF _ assms(2-4), of p d t] assms(1) atI [of s t]
  by (intro wp_bndI [where Q = "\<lambda>b u. cache_only t u \<and> (a_loc A n \<noteq> None \<longrightarrow> a_loc A n = Some b) \<and> cache p d (A\<lparr>a_loc := (a_loc A)(n \<mapsto> b),
      a_ref := (a_ref A)(n := a_ref A n + 1), a_held := insert n (a_held A)\<rparr>) u"] assms(5)) (auto simp: at_def)

lemma wp_seqI: "wp m (\<lambda>_. Q) t \<Longrightarrow> (\<And>u. Q u \<Longrightarrow> wp n R u) \<Longrightarrow> wp (seq m n) R t"
  by (auto simp: wp_seq elim: wp_mono)

lemma at_copy:
  assumes a: "at p d s A t" and l: "a_loc A m = Some c" "a_loc A h = Some b"
    and n: "\<And>u. at p d s (A\<lparr>a_view := (a_view A)(h := a_view A m)\<rparr>) u \<Longrightarrow> wp k R u"
  shows "wp (seq (bnd (get_buf c) (\<lambda>fb. upd_buf b (\<lambda>tb. tb\<lparr>b_data := b_data fb\<rparr>))) k) R t"
proof (rule wp_seqI [OF _ n])
  have c: "cache p d A t" and st: "cache_only s t" using a by (auto simp: at_def)
  have "b_data (bufs t c) = a_view A m" by (rule cache_loc(2) [OF c l(1)])
  then show "wp (bnd (get_buf c) (\<lambda>fb. upd_buf b (\<lambda>tb. tb\<lparr>b_data := b_data fb\<rparr>)))
      (\<lambda>_. at p d s (A\<lparr>a_view := (a_view A)(h := a_view A m)\<rparr>)) t"
    using wp_mono [OF wp_put_data [OF c l(2), of "\<lambda>tb. tb\<lparr>b_data := a_view A m\<rparr>" "a_view A m"] atI [OF st]]
    by (simp add: get_buf_def wp_bnd wp_gets)
qed

lemma at_put:
  assumes a: "at p d s A t" and l: "a_loc A h = Some b"
    and n: "\<And>u. at p d s (A\<lparr>a_view := (a_view A)(h := g (a_view A h))\<rparr>) u \<Longrightarrow> wp k R u"
  shows "wp (seq (upd_buf b (\<lambda>x. x\<lparr>b_data := g (b_data x)\<rparr>)) k) R t"
proof (rule wp_seqI [OF _ n])
  have c: "cache p d A t" and st: "cache_only s t" using a by (auto simp: at_def)
  show "wp (upd_buf b (\<lambda>x. x\<lparr>b_data := g (b_data x)\<rparr>)) (\<lambda>_. at p d s (A\<lparr>a_view := (a_view A)(h := g (a_view A h))\<rparr>)) t"
    using cache_loc(2) [OF c l] by (intro wp_mono [OF wp_put_data [OF c l] atI [OF st]]) simp_all
qed

lemma at_bwrite:
  assumes a: "at p d s A t" and l: "a_loc A n = Some b" "n \<in> a_held A"
    and n: "\<And>u. at p d s (A\<lparr>a_disk := (a_disk A)(n := a_view A n), a_writes := a_writes A @ [(n, a_view A n)]\<rparr>) u \<Longrightarrow> wp k R u"
  shows "wp (seq (bwrite b) k) R t"
  using a wp_mono [OF wp_bwrite [OF _ l] atI] by (intro wp_seqI [OF _ n]) (auto simp: at_def)

lemma at_brelse:
  assumes a: "at p d s A t" and l: "a_loc A n = Some b" "n \<in> a_held A" "a_ref A n = 1 \<longrightarrow> a_view A n = a_disk A n"
    and n: "\<And>u. at p d s (drop_ref n A) u \<Longrightarrow> wp k R u"
  shows "wp (seq (brelse b) k) R t"
  using a wp_mono [OF wp_brelse [OF _ l] atI] by (intro wp_seqI [OF _ n]) (auto simp: at_def)

lemma at_bunpin:
  assumes a: "at p d s A t" and l: "a_loc A n = Some b" "1 < a_ref A n"
    and n: "\<And>u. at p d s (A\<lparr>a_ref := (a_ref A)(n := a_ref A n - 1)\<rparr>) u \<Longrightarrow> wp k R u"
  shows "wp (seq (bunpin b) k) R t"
  using a wp_mono [OF wp_bunpin [OF _ l] atI] by (intro wp_seqI [OF _ n]) (auto simp: at_def)

lemma at_done:
  assumes "at p d s A t" "idle P V D W A"
  shows "wp (ret ()) (\<lambda>_ t. cache_only s t \<and> settled p d P V D W t) t"
  using assms by (auto simp: wp_ret at_def settled_def)


section \<open>The turns of the loops\<close>

text \<open>One turn of \<open>write_log\<close>: the pinned block \<open>m\<close> is copied to block \<open>h\<close> of the log.\<close>

lemma write_log_turn:
  assumes s: "settled p d P V D W s" and h: "h \<notin> P" "m \<in> P" "card P < NBUF"
  shows "wp (bnd (bread d h) (\<lambda>to. bnd (bread d m) (\<lambda>from.
      stmts [bnd (get_buf from) (\<lambda>fb. upd_buf to (\<lambda>tb. tb\<lparr>b_data := b_data fb\<rparr>)), bwrite to, brelse from, brelse to])))
    (\<lambda>_ t. cache_only s t \<and> settled p d P (V(h := V m)) (D(h := V m)) (W @ [(h, V m)]) t) s"
proof -
  obtain A where A: "cache p d A s" and i: "idle P V D W A" using s by (auto simp: settled_def)
  have mh: "m \<noteq> h" "h \<noteq> m" "{m, h} - {h} = {m}" using h by auto
  have f: "a_view A = V" "a_disk A = D" "a_writes A = W" "a_held A = {}" "a_ref A h = 0" "a_ref A m = 1" "a_loc A h = None"
    "dom (a_loc A) = P" using i h(1,2) by (auto simp: idle_def)
  obtain c where c: "a_loc A m = Some c" using i h(2) by (auto simp: idle_def dom_def)
  have 0: "at p d s A s" using A by (simp add: at_def)
  have fin: "idle P (V(h := V m)) (D(h := V m)) (W @ [(h, V m)]) A'"
    if "a_view A' = V(h := V m)" "a_disk A' = D(h := V m)" "a_writes A' = W @ [(h, V m)]" "a_held A' = {}"
      "a_loc A' = (a_loc A)(h := None)" "a_ref A' = (a_ref A)(h := 0, m := 1)" for A'
  proof -
    have "dom (a_loc A') = P" "\<And>n. a_ref A' n = (if n \<in> P then 1 else 0)" using that(5,6) f(8) h i by (auto simp: idle_def)
    then show ?thesis using that(1-4) by (auto simp: idle_def)
  qed
  show ?thesis
    unfolding stmts.simps
    apply (rule at_bread [OF 0, of h]; (simp add: f h)?)
    apply (rule at_bread [where n = m], assumption; (simp add: f h mh c)?)
    apply (rule at_copy [where m = m and h = h], assumption; (simp add: f h mh c)?)
    apply (rule at_bwrite [where n = h], assumption; (simp add: f h mh c)?)
    apply (rule at_brelse [where n = m], assumption; (simp add: f h mh c)?)
    apply (rule at_brelse [where n = h], assumption; (simp add: f h mh c drop_ref_def)?)
    apply (erule at_done)
    apply (rule fin; simp add: f h mh c drop_ref_def fun_eq_iff)
    done
qed


text \<open>
  One turn of \<open>install_trans\<close>: block \<open>h\<close> of the log is copied to its home \<open>m\<close>, which is pinned in a commit
  and not in use in recovery.
\<close>

lemma install_turn:
  assumes s: "settled p d P V D W s" and h: "h \<notin> P" "h \<noteq> m" and r: "if r then m \<notin> P \<and> card P + 1 < NBUF else m \<in> P \<and> card P < NBUF"
  shows "wp (bnd (bread d h) (\<lambda>lbuf. bnd (bread d m) (\<lambda>dbuf.
      stmts [bnd (get_buf lbuf) (\<lambda>lb. upd_buf dbuf (\<lambda>db. db\<lparr>b_data := b_data lb\<rparr>)), bwrite dbuf,
        kwhen (\<not> r) (bunpin dbuf), brelse lbuf, brelse dbuf])))
    (\<lambda>_ t. cache_only s t \<and> settled p d (P - {m}) (V(m := V h)) (D(m := V h)) (W @ [(m, V h)]) t) s"
proof -
  obtain A where A: "cache p d A s" and i: "idle P V D W A" using s by (auto simp: settled_def)
  have mh: "m \<noteq> h" "h \<noteq> m" "{m, h} - {h} = {m}" using h by auto
  have f: "a_view A = V" "a_disk A = D" "a_writes A = W" "a_held A = {}" "a_ref A h = 0" "a_loc A h = None" "dom (a_loc A) = P"
    using i h(1) by (auto simp: idle_def)
  have vd: "D h = V h" by (rule settled_clean [OF s h(1), symmetric])
  have 0: "at p d s A s" using A by (simp add: at_def)
  have fP: "finite P" using loc_dom(2) [of d A "bufs s"] A f(7) by (simp add: cache_def)
  have fin: "idle (P - {m}) (V(m := V h)) (D(m := V h)) (W @ [(m, V h)]) A'"
    if "a_view A' = V(m := V h)" "a_disk A' = D(m := V h)" "a_writes A' = W @ [(m, V h)]" "a_held A' = {}"
      "a_loc A' = (a_loc A)(h := None, m := None)" "a_ref A' = (a_ref A)(h := 0, m := 0)" for A'
  proof -
    have "dom (a_loc A') = P - {m}" "\<And>n. a_ref A' n = (if n \<in> P - {m} then 1 else 0)" using that(5,6) f(7) h i by (auto simp: idle_def)
    then show ?thesis using that(1-4) by (auto simp: idle_def)
  qed
  show ?thesis
  proof (cases r)
    case True
    then have m: "m \<notin> P" "Suc (card P) < NBUF" "a_loc A m = None" "a_ref A m = 0" using r i by (auto simp: idle_def)
    have Pm: "P - {m} = P" using m(1) by auto
    show ?thesis
      unfolding stmts.simps
      apply (rule at_bread [OF 0, of h]; (use m in \<open>simp add: f h\<close>)?)
      apply (rule at_bread [where n = m], assumption; (simp add: f h mh m fP)?)
      apply (rule at_copy [where m = h and h = m], assumption; (simp add: f h mh)?)
      apply (rule at_bwrite [where n = m], assumption; (simp add: f h mh)?)
      apply (simp add: True)
      apply (rule at_brelse [where n = h], assumption; (simp add: f h mh m vd)?)
      apply (rule at_brelse [where n = m], assumption; (simp add: f h mh m drop_ref_def)?)
      apply (erule at_done)
      apply (rule fin [unfolded Pm]; simp add: f h mh m drop_ref_def fun_eq_iff)
      done
  next
    case False
    then have m: "m \<in> P" "card P < NBUF" "a_ref A m = 1" using r i by (auto simp: idle_def)
    obtain c where c: "a_loc A m = Some c" using i m(1) by (auto simp: idle_def dom_def)
    show ?thesis
      unfolding stmts.simps
      apply (rule at_bread [OF 0, of h]; (use m in \<open>simp add: f h\<close>)?)
      apply (rule at_bread [where n = m], assumption; (simp add: f h mh m c)?)
      apply (rule at_copy [where m = h and h = m], assumption; (simp add: f h mh c)?)
      apply (rule at_bwrite [where n = m], assumption; (simp add: f h mh c)?)
      apply (simp add: False)
      apply (rule at_bunpin [where n = m], assumption; (simp add: f h mh c m)?)
      apply (rule at_brelse [where n = h], assumption; (simp add: f h mh c m vd)?)
      apply (rule at_brelse [where n = m], assumption; (simp add: f h mh c m drop_ref_def)?)
      apply (erule at_done)
      apply (rule fin; simp add: f h mh c m drop_ref_def fun_eq_iff)
      done
  qed
qed


section \<open>Sequences of writes\<close>

definition apply_writes :: "(u32 \<Rightarrow> bytes) \<Rightarrow> (u32 \<times> bytes) list \<Rightarrow> u32 \<Rightarrow> bytes" where
  "apply_writes D ws = foldl (\<lambda>D (n, v). D(n := v)) D ws"

lemma apply_writes_Nil [simp]: "apply_writes D [] = D"
  by (simp add: apply_writes_def)

lemma apply_writes_append [simp]: "apply_writes D (ws @ vs) = apply_writes (apply_writes D ws) vs"
  by (simp add: apply_writes_def)

lemma apply_writes_Cons [simp]: "apply_writes D ((n, v) # ws) = apply_writes (D(n := v)) ws"
  by (simp add: apply_writes_def)

lemma apply_writes_other: "n \<notin> fst ` set ws \<Longrightarrow> apply_writes D ws n = D n"
  by (induction ws rule: rev_induct) auto

lemma apply_writes_map:
  assumes "inj_on f (set xs)" "i \<in> set xs"
  shows "apply_writes D (map (\<lambda>i. (f i, g i)) xs) (f i) = g i"
  using assms
proof (induction xs rule: rev_induct)
  case (snoc x xs)
  show ?case
  proof (cases "f i = f x")
    case True
    then have "i = x" using inj_onD [OF snoc.prems(1) True] snoc.prems(2) by simp
    then show ?thesis by simp
  next
    case False
    then have "i \<in> set xs" using snoc.prems(2) by auto
    then show ?thesis using snoc.IH snoc.prems(1) False by (auto simp: inj_on_def)
  qed
qed simp

text \<open>The blocks of the log: the header and the slots after it.\<close>

definition log_area :: "u32 \<Rightarrow> u32 set" where
  "log_area st = (\<lambda>k. st + of_nat k) ` {..<LOGSIZE}"

definition slot :: "u32 \<Rightarrow> nat \<Rightarrow> u32" where
  "slot st i = st + of_nat i + 1"

lemma of_nat_u32: "i < 2 ^ 32 \<Longrightarrow> j < 2 ^ 32 \<Longrightarrow> (of_nat i :: u32) = of_nat j \<longleftrightarrow> i = j"
  by (auto simp: word_of_nat_eq_iff take_bit_eq_mod)

lemma header_area: "st \<in> log_area st"
  unfolding log_area_def by (rule image_eqI [of _ _ 0]) simp_all

lemma slot_area: "i + 1 < LOGSIZE \<Longrightarrow> slot st i \<in> log_area st"
  unfolding log_area_def slot_def by (rule image_eqI [of _ _ "i + 1"]) (simp_all add: ac_simps)

lemma slot_inj: "i < LOGSIZE \<Longrightarrow> j < LOGSIZE \<Longrightarrow> slot st i = slot st j \<longleftrightarrow> i = j"
  using of_nat_u32 [of i j] by (simp add: slot_def)

lemma slot_header: "i < LOGSIZE \<Longrightarrow> slot st i \<noteq> st"
proof
  assume i: "i < LOGSIZE" and "slot st i = st"
  then have "st + (of_nat (i + 1)) = st + of_nat 0" by (simp add: slot_def ac_simps)
  then have "(of_nat (i + 1) :: u32) = of_nat 0" by (simp only: add_left_cancel)
  then show False using i of_nat_u32 [of "i + 1" 0] by simp
qed

text \<open>A transaction of \<open>n\<close> blocks \<open>bs\<close>: different blocks, none of the log, and fewer than its slots.\<close>

definition transaction :: "u32 \<Rightarrow> nat \<Rightarrow> (nat \<Rightarrow> u32) \<Rightarrow> bool" where
  "transaction st n bs \<longleftrightarrow> n < LOGSIZE \<and> inj_on bs {..<n} \<and> (\<forall>i<n. bs i \<notin> log_area st)"

lemma transactionD:
  assumes "transaction st n bs" "i < n"
  shows "bs i \<noteq> st" "j < n \<Longrightarrow> bs i \<noteq> slot st j" "j < n \<Longrightarrow> bs i = bs j \<longleftrightarrow> i = j"
proof -
  have i: "bs i \<notin> log_area st" and n: "n < LOGSIZE" using assms by (simp_all add: transaction_def)
  show "bs i \<noteq> st" using i header_area by metis
  show "j < n \<Longrightarrow> bs i \<noteq> slot st j" using i slot_area [of j st] n by auto
  show "j < n \<Longrightarrow> bs i = bs j \<longleftrightarrow> i = j" using assms by (auto simp: transaction_def inj_on_def)
qed

definition log_writes :: "u32 \<Rightarrow> (nat \<Rightarrow> u32) \<Rightarrow> (u32 \<Rightarrow> bytes) \<Rightarrow> nat list \<Rightarrow> (u32 \<times> bytes) list" where
  "log_writes st bs V is = map (\<lambda>i. (slot st i, V (bs i))) is"

definition home_writes :: "u32 \<Rightarrow> (nat \<Rightarrow> u32) \<Rightarrow> (u32 \<Rightarrow> bytes) \<Rightarrow> nat list \<Rightarrow> (u32 \<times> bytes) list" where
  "home_writes st bs V is = map (\<lambda>i. (bs i, V (slot st i))) is"

lemma writes_other:
  "x \<notin> slot st ` set is \<Longrightarrow> apply_writes D (log_writes st bs V is) x = D x"
  "x \<notin> bs ` set is \<Longrightarrow> apply_writes D (home_writes st bs V is) x = D x"
  by (auto simp: log_writes_def home_writes_def intro!: apply_writes_other)

lemma log_writes_at:
  "set is \<subseteq> {..<n} \<Longrightarrow> n < LOGSIZE \<Longrightarrow> i \<in> set is \<Longrightarrow> apply_writes D (log_writes st bs V is) (slot st i) = V (bs i)"
  unfolding log_writes_def
proof (rule apply_writes_map, rule inj_onI)
  fix x y assume a: "set is \<subseteq> {..<n}" "n < LOGSIZE" "x \<in> set is" "y \<in> set is" "slot st x = slot st y"
  then have "x < LOGSIZE" "y < LOGSIZE" by auto
  then show "x = y" using a(5) by (simp add: slot_inj)
qed

lemma home_writes_at:
  "transaction st n bs \<Longrightarrow> set is \<subseteq> {..<n} \<Longrightarrow> i \<in> set is \<Longrightarrow> apply_writes D (home_writes st bs V is) (bs i) = V (slot st i)"
  unfolding home_writes_def by (rule apply_writes_map) (auto simp: transaction_def intro: inj_on_subset)


section \<open>The parts of commit and recovery\<close>

lemma cache_only_klog: "cache_only s t \<Longrightarrow> klog t = klog s"
  by (auto simp: cache_only_def)

lemma wp_write_log:
  assumes s: "settled p d P V D W s" and l: "l_dev (klog s) = d" "l_start (klog s) = st" "nat (lh_n (l_lh (klog s))) = n"
      "lh_block (l_lh (klog s)) = bs"
    and t: "transaction st n bs" and P: "P = bs ` {..<n}"
  shows "wp write_log (\<lambda>_ u. cache_only s u \<and> settled p d P (apply_writes V (log_writes st bs V [0..<n]))
    (apply_writes D (log_writes st bs V [0..<n])) (W @ log_writes st bs V [0..<n]) u) s"
proof -
  let ?w = "log_writes st bs V"
  have cP: "card P < NBUF" using card_image_le [of "{..<n}" bs] t by (simp add: P transaction_def)
  let ?f = "\<lambda>i. bnd (bread d (slot st i)) (\<lambda>to. bnd (bread d (bs i)) (\<lambda>from.
      stmts [bnd (get_buf from) (\<lambda>fb. upd_buf to (\<lambda>tb. tb\<lparr>b_data := b_data fb\<rparr>)), bwrite to, brelse from, brelse to]))"
  let ?I = "\<lambda>ys u. cache_only s u \<and> settled p d P (apply_writes V (?w ys)) (apply_writes D (?w ys)) (W @ ?w ys) u"
  have body: "wp (?f i) (\<lambda>_. ?I (ys @ [i])) t'" if x: "[0..<n] = ys @ i # zs" and I: "?I ys t'" for ys i zs t'
  proof -
    have i: "i < n" "set ys \<subseteq> {..<n}" using arg_cong [OF x, of set] by auto
    have "bs x \<noteq> slot st i" if "x < n" for x by (rule transactionD(2) [OF t that i(1)])
    then have h: "slot st i \<notin> P" by (fastforce simp: P)
    have v: "apply_writes V (?w ys) (bs i) = V (bs i)" using transactionD(2) [OF t i(1)] i(2) by (intro writes_other) auto
    have "?w (ys @ [i]) = ?w ys @ [(slot st i, V (bs i))]" by (simp add: log_writes_def)
    then show ?thesis
      using write_log_turn [OF conjunct2 [OF I] h _ cP, of "bs i"] i(1) I
      by (auto simp: P v elim!: wp_mono intro: cache_only_trans)
  qed
  have "wp (kfor [0..<n] ?f) (\<lambda>_ u. ?I [0..<n] u) s"
    by (rule wp_kfor [where I = ?I, OF body]) (use s in \<open>simp_all add: log_writes_def\<close>)
  then show ?thesis by (simp add: write_log_def wp_bnd wp_gets l slot_def)
qed


lemma wp_install_trans:
  assumes s: "settled p d P V D W s" and l: "l_dev (klog s) = d" "l_start (klog s) = st" "nat (lh_n (l_lh (klog s))) = n"
      "\<And>i. i < n \<Longrightarrow> lh_block (l_lh (klog s)) i = bs i"
    and t: "transaction st n bs" and P: "P = (if r then {} else bs ` {..<n})"
  shows "wp (install_trans r) (\<lambda>_ u. cache_only s u \<and> settled p d {} (apply_writes V (home_writes st bs V [0..<n]))
    (apply_writes D (home_writes st bs V [0..<n])) (W @ home_writes st bs V [0..<n]) u) s"
proof -
  let ?w = "home_writes st bs V" and ?b = "lh_block (l_lh (klog s))"
  let ?f = "\<lambda>i. bnd (bread d (slot st i)) (\<lambda>lbuf. bnd (bread d (?b i)) (\<lambda>dbuf.
      stmts [bnd (get_buf lbuf) (\<lambda>lb. upd_buf dbuf (\<lambda>db. db\<lparr>b_data := b_data lb\<rparr>)), bwrite dbuf,
        kwhen (\<not> r) (bunpin dbuf), brelse lbuf, brelse dbuf]))"
  let ?I = "\<lambda>ys u. cache_only s u \<and> settled p d (P - bs ` set ys) (apply_writes V (?w ys)) (apply_writes D (?w ys)) (W @ ?w ys) u"
  have fP: "finite P" and cP: "card P < NBUF" using card_image_le [of "{..<n}" bs] t by (simp_all add: P transaction_def)
  have body: "wp (?f i) (\<lambda>_. ?I (ys @ [i])) t'" if x: "[0..<n] = ys @ i # zs" and I: "?I ys t'" for ys i zs t'
  proof -
    have i: "i < n" "set ys \<subseteq> {..<n}" using arg_cong [OF x, of set] by auto
    have "i \<notin> set ys" using arg_cong [OF x, of distinct] by auto
    then have m: "bs i \<notin> bs ` set ys" using transactionD(3) [OF t i(1)] i(2) by auto
    have sl: "bs x \<noteq> slot st i" if "x < n" for x by (rule transactionD(2) [OF t that i(1)])
    then have h: "slot st i \<notin> P - bs ` set ys" "slot st i \<noteq> bs i" using i(1) by (fastforce simp: P split: if_splits)+
    have v: "apply_writes V (?w ys) (slot st i) = V (slot st i)" using sl i(2) by (intro writes_other) fastforce
    have c: "if r then bs i \<notin> P - bs ` set ys \<and> card (P - bs ` set ys) + 1 < NBUF
        else bs i \<in> P - bs ` set ys \<and> card (P - bs ` set ys) < NBUF"
      using m i(1) cP fP card_mono [of P "P - bs ` set ys"] by (auto simp: P)
    have "?w (ys @ [i]) = ?w ys @ [(bs i, V (slot st i))]" "P - bs ` set ys - {bs i} = P - bs ` set (ys @ [i])"
      by (auto simp: home_writes_def)
    then show ?thesis
      using install_turn [OF conjunct2 [OF I] h c] I by (auto simp: v l(4) [OF i(1)] elim!: wp_mono intro: cache_only_trans)
  qed
  have "wp (kfor [0..<n] ?f) (\<lambda>_ u. ?I [0..<n] u) s"
    by (rule wp_kfor [where I = ?I, OF body]) (use s in \<open>simp_all add: home_writes_def\<close>)
  moreover have P0: "P - bs ` set [0..<n] = {}" by (auto simp: P)
  ultimately show ?thesis by (simp only: install_trans_def wp_bnd wp_gets l(1-3) slot_def P0)
qed

lemma wp_write_head:
  assumes s: "settled p d P V D W s" and l: "l_dev (klog s) = d" "l_start (klog s) = st" and P: "st \<notin> P" "card P < NBUF"
  shows "wp write_head (\<lambda>_ u. cache_only s u \<and> settled p d P (V(st := hb_put (l_lh (klog s)) (V st)))
    (D(st := hb_put (l_lh (klog s)) (V st))) (W @ [(st, hb_put (l_lh (klog s)) (V st))]) u) s"
proof -
  obtain A where A: "cache p d A s" and i: "idle P V D W A" using s by (auto simp: settled_def)
  have f: "a_view A = V" "a_disk A = D" "a_writes A = W" "a_held A = {}" "a_ref A st = 0" "a_loc A st = None" "dom (a_loc A) = P"
    using i P(1) by (auto simp: idle_def)
  have 0: "at p d s A s" using A by (simp add: at_def)
  let ?H = "hb_put (l_lh (klog s)) (V st)"
  have fin: "idle P (V(st := ?H)) (D(st := ?H)) (W @ [(st, ?H)]) A'"
    if "a_view A' = V(st := ?H)" "a_disk A' = D(st := ?H)" "a_writes A' = W @ [(st, ?H)]" "a_held A' = {}"
      "a_loc A' = (a_loc A)(st := None)" "a_ref A' = (a_ref A)(st := 0)" for A'
  proof -
    have "dom (a_loc A') = P" "\<And>n. a_ref A' n = (if n \<in> P then 1 else 0)" using that(5,6) f(7) P i by (auto simp: idle_def)
    then show ?thesis using that(1-4) by (auto simp: idle_def)
  qed
  show ?thesis
    unfolding write_head_def wp_bnd [of "gets klog"] wp_gets stmts.simps l
    apply (rule at_bread [OF 0, of st]; (simp add: f P)?)
    apply (rule at_put [where h = st], assumption; (simp add: f)?)
    apply (rule at_bwrite [where n = st], assumption; (simp add: f)?)
    apply (rule at_brelse [where n = st], assumption; (simp add: f)?)
    apply (erule at_done)
    apply (rule fin; simp add: f drop_ref_def)
    done
qed


text \<open>Changing the log's own state does not touch the cache.\<close>

lemma cache_klog [simp]: "cache p d A (s\<lparr>klog := l\<rparr>) = cache p d A s"
  by (simp add: cache_def quiet_def cpu_ok_def unlocked_def)

lemma cache_klog_cpus: "cache p d A (s\<lparr>bufs := B, klog := l, cpus := c\<rparr>) = cache p d A (s\<lparr>bufs := B, cpus := c\<rparr>)"
  "cache p d A (s\<lparr>klog := l, cpus := c\<rparr>) = cache p d A (s\<lparr>cpus := c\<rparr>)"
  by (simp_all add: cache_def quiet_def cpu_ok_def unlocked_def)

lemma settled_klog [simp]: "settled p d P V D W (s\<lparr>klog := l\<rparr>) = settled p d P V D W s"
  by (simp add: settled_def)

lemma upd_lh_apply: "upd_lh f s = Ok () (s\<lparr>klog := (klog s)\<lparr>l_lh := f (l_lh (klog s))\<rparr>\<rparr>)"
  by (simp add: upd_lh_def upd_log_def)

lemma kfor_upd_lh:
  "kfor xs (\<lambda>i. upd_lh (\<lambda>lh. lh\<lparr>lh_block := (lh_block lh)(i := g i)\<rparr>)) s =
     Ok () (s\<lparr>klog := (klog s)\<lparr>l_lh := (l_lh (klog s))\<lparr>lh_block := (\<lambda>i. if i \<in> set xs then g i else lh_block (l_lh (klog s)) i)\<rparr>\<rparr>\<rparr>)"
proof (induction xs arbitrary: s)
  case (Cons x xs)
  have "(\<lambda>i. if i = x \<or> i \<in> set xs then g i else lh_block (l_lh (klog s)) i) =
      (\<lambda>i. if i \<in> set xs then g i else ((lh_block (l_lh (klog s)))(x := g x)) i)" by auto
  then show ?case using Cons.IH by (simp add: seq_def bnd_def upd_lh_apply cong: if_cong)
qed simp

lemma wp_read_head:
  assumes s: "settled p d P V D W s" and l: "l_dev (klog s) = d" "l_start (klog s) = st" and P: "st \<notin> P" "card P < NBUF"
    and n: "nat (lh_n (hb_get (D st))) = n"
  shows "wp read_head (\<lambda>_ u. settled p d P V D W u \<and> l_dev (klog u) = d \<and> l_start (klog u) = st \<and>
    lh_n (l_lh (klog u)) = lh_n (hb_get (D st)) \<and> (\<forall>i<n. lh_block (l_lh (klog u)) i = lh_block (hb_get (D st)) i)) s"
proof -
  obtain A where A: "cache p d A s" and i: "idle P V D W A" using s by (auto simp: settled_def)
  have f: "a_view A = V" "a_disk A = D" "a_writes A = W" "a_held A = {}" "a_ref A st = 0" "a_loc A st = None" "dom (a_loc A) = P"
    using i P(1) by (auto simp: idle_def)
  have vd: "V st = D st" by (rule settled_clean [OF s P(1)])
  have 0: "at p d s A s" using A by (simp add: at_def)
  show ?thesis
    unfolding read_head_def wp_bnd [of "gets klog"] wp_gets l
  proof (rule at_bread [OF 0, of st])
    fix b t assume a: "at p d s (A\<lparr>a_loc := (a_loc A)(st \<mapsto> b), a_ref := (a_ref A)(st := a_ref A st + 1), a_held := insert st (a_held A)\<rparr>) t"
    let ?A1 = "A\<lparr>a_loc := (a_loc A)(st \<mapsto> b), a_ref := (a_ref A)(st := 1), a_held := {st}\<rparr>"
    have A1: "cache p d ?A1 t" and kt: "klog t = klog s" using a f by (auto simp: at_def cache_only_klog)
    have x: "b_data (bufs t b) = D st" using cache_loc(2) [OF A1, of st b] f vd by simp
    define k where "k = (klog s)\<lparr>l_lh := (l_lh (klog s))\<lparr>lh_n := lh_n (hb_get (D st)),
        lh_block := (\<lambda>i. if i < n then lh_block (hb_get (D st)) i else lh_block (l_lh (klog s)) i)\<rparr>\<rparr>"
    have "wp (brelse b) (\<lambda>_ u. cache_only (t\<lparr>klog := k\<rparr>) u \<and> cache p d (drop_ref st ?A1) u) (t\<lparr>klog := k\<rparr>)"
      using A1 f vd by (intro wp_brelse) simp_all
    moreover have "idle P V D W (drop_ref st ?A1)" using i P(1) by (auto simp: idle_def drop_ref_def fun_eq_iff)
    ultimately have "wp (brelse b) (\<lambda>_ u. settled p d P V D W u \<and> klog u = k) (t\<lparr>klog := k\<rparr>)"
      by (auto elim!: wp_mono simp: settled_def cache_only_klog)
    then have "wp (brelse b) (\<lambda>_ u. settled p d P V D W u \<and> l_dev (klog u) = d \<and> l_start (klog u) = st \<and>
      lh_n (l_lh (klog u)) = lh_n (hb_get (D st)) \<and> (\<forall>i<n. lh_block (l_lh (klog u)) i = lh_block (hb_get (D st)) i)) (t\<lparr>klog := k\<rparr>)"
      using l by (auto elim!: wp_mono simp: k_def)
    then show "wp (bnd (get_buf b) (\<lambda>x. stmts [upd_lh (\<lambda>lh. lh\<lparr>lh_n := lh_n (hb_get (b_data x))\<rparr>),
       bnd (gets klog) (\<lambda>l. kfor [0..<nat (lh_n (l_lh l))] (\<lambda>i.
         upd_lh (\<lambda>lh. lh\<lparr>lh_block := (lh_block lh)(i := lh_block (hb_get (b_data x)) i)\<rparr>))), brelse b]))
       (\<lambda>_ u. settled p d P V D W u \<and> l_dev (klog u) = d \<and> l_start (klog u) = st \<and>
         lh_n (l_lh (klog u)) = lh_n (hb_get (D st)) \<and> (\<forall>i<n. lh_block (l_lh (klog u)) i = lh_block (hb_get (D st)) i)) t"
      by (simp add: wp_def get_buf_def seq_def bnd_def kfor_upd_lh x kt k_def n upd_lh_apply cong: if_cong split: outcome.splits)
  qed (use f P in simp_all)
qed


section \<open>Headers\<close>

lemma hb_put_blocks_other: "b + 4 \<le> 4 + 4 * k \<Longrightarrow> b + 4 \<le> 4 \<Longrightarrow> ld32 (hb_put_blocks k bs d) b = ld32 d b"
  by (induction k) (simp_all add: ld32_st32_other)

lemma hb_put_blocks_at: "i < k \<Longrightarrow> ld32 (hb_put_blocks k bs d) (4 + 4 * i) = bs i"
proof (induction k)
  case (Suc k)
  show ?case
  proof (cases "i = k")
    case False
    then show ?thesis using Suc by (simp add: ld32_st32_other)
  qed simp
qed simp

lemma sint_small: "0 \<le> i \<Longrightarrow> i < 2 ^ 31 \<Longrightarrow> sint (of_int i :: 32 word) = i"
  by (simp add: signed_of_int signed_take_bit_int_eq_self)

text \<open>A header reads back as it was written.\<close>

lemma hb_get_put:
  assumes "0 \<le> lh_n lh" "lh_n lh < 2 ^ 31"
  shows "lh_n (hb_get (hb_put lh d)) = lh_n lh" "i < nat (lh_n lh) \<Longrightarrow> lh_block (hb_get (hb_put lh d)) i = lh_block lh i"
  using assms hb_put_blocks_other [of 0 "nat (lh_n lh)"] hb_put_blocks_at [of i "nat (lh_n lh)"]
  by (simp_all add: hb_get_def hb_put_def sint_small)

section \<open>commit and recovery\<close>

definition header :: "nat \<Rightarrow> (nat \<Rightarrow> u32) \<Rightarrow> logheader" where
  "header n bs = \<lparr>lh_n = int n, lh_block = bs\<rparr>"

definition clear_header :: "bytes \<Rightarrow> bytes" where
  "clear_header d = st32 d 0 0"

lemma hb_put_empty: "lh_n lh = 0 \<Longrightarrow> hb_put lh d = clear_header d"
  by (simp add: hb_put_def clear_header_def)

lemma hb_get_clear: "lh_n (hb_get (clear_header d)) = 0"
  by (simp add: hb_get_def clear_header_def)

text \<open>The writes of a commit: the log, the header, the home blocks, the empty header.\<close>

definition commit_writes :: "u32 \<Rightarrow> nat \<Rightarrow> (nat \<Rightarrow> u32) \<Rightarrow> (u32 \<Rightarrow> bytes) \<Rightarrow> (u32 \<times> bytes) list" where
  "commit_writes st n bs V =
     log_writes st bs V [0..<n] @ [(st, hb_put (header n bs) (V st))] @
     map (\<lambda>i. (bs i, V (bs i))) [0..<n] @ [(st, clear_header (hb_put (header n bs) (V st)))]"

text \<open>The writes of recovery from the disk \<open>D\<close>, whose header is that of a transaction.\<close>

definition recovery_writes :: "u32 \<Rightarrow> nat \<Rightarrow> (nat \<Rightarrow> u32) \<Rightarrow> (u32 \<Rightarrow> bytes) \<Rightarrow> (u32 \<times> bytes) list" where
  "recovery_writes st n bs D = home_writes st bs D [0..<n] @ [(st, clear_header (D st))]"


lemma home_writes_eq: "(\<And>i. i \<in> set is \<Longrightarrow> V (slot st i) = f i) \<Longrightarrow> home_writes st bs V is = map (\<lambda>i. (bs i, f i)) is"
  by (simp add: home_writes_def)

lemma wp_commit:
  assumes s: "settled p d (bs ` {..<n}) V D W s" and l: "l_dev (klog s) = d" "l_start (klog s) = st" "l_lh (klog s) = header n bs"
    and t: "transaction st n bs" and n: "0 < n"
  shows "wp commit (\<lambda>_ u. settled p d {} (apply_writes V (commit_writes st n bs V)) (apply_writes D (commit_writes st n bs V))
    (W @ commit_writes st n bs V) u \<and> klog u = (klog s)\<lparr>l_lh := header 0 bs\<rparr>) s"
proof -
  let ?P = "bs ` {..<n}" and ?L = "log_writes st bs V [0..<n]" and ?H = "hb_put (header n bs) (V st)"
  let ?I = "map (\<lambda>i. (bs i, V (bs i))) [0..<n]" and ?C = "clear_header (hb_put (header n bs) (V st))"
  have nl: "n < LOGSIZE" using t by (simp add: transaction_def)
  have cP: "card ?P < NBUF" using card_image_le [of "{..<n}" bs] nl by simp
  have stP: "st \<notin> ?P" using transactionD(1) [OF t] by fastforce
  have "st \<notin> slot st ` set [0..<n]"
  proof
    assume "st \<in> slot st ` set [0..<n]"
    then obtain i where "i < n" "st = slot st i" by auto
    then show False using slot_header [of i st] nl by simp
  qed
  then have v1: "apply_writes V ?L st = V st" by (rule writes_other)
  have v2: "((apply_writes V ?L)(st := ?H)) (slot st i) = V (bs i)" if "i \<in> set [0..<n]" for i
    using that slot_header [of i st] nl log_writes_at [of "[0..<n]" n i V st bs V] by (auto simp: atLeast0LessThan)
  have hw: "home_writes st bs ((apply_writes V ?L)(st := ?H)) [0..<n] = ?I" by (rule home_writes_eq) (rule v2)
  have "st \<notin> fst ` set ?I" using stP by auto
  then have v3: "apply_writes ((apply_writes V ?L)(st := ?H)) ?I st = ?H" by (simp add: apply_writes_other)
  have ln: "nat (lh_n (l_lh (klog s))) = n" "lh_block (l_lh (klog s)) = bs" "lh_n (l_lh (klog s)) > 0"
    using l(3) n by (simp_all add: header_def)
  have 1: "wp write_log (\<lambda>_ u. settled p d ?P (apply_writes V ?L) (apply_writes D ?L) (W @ ?L) u \<and> klog u = klog s) s"
    by (rule wp_mono [OF wp_write_log [OF s l(1,2) ln(1,2) t refl]]) (simp add: cache_only_klog)
  have 2: "wp write_head (\<lambda>_ u. settled p d ?P ((apply_writes V ?L)(st := ?H)) ((apply_writes D ?L)(st := ?H)) ((W @ ?L) @ [(st, ?H)]) u \<and> klog u = klog s) u"
    if u: "settled p d ?P (apply_writes V ?L) (apply_writes D ?L) (W @ ?L) u \<and> klog u = klog s" for u
    using wp_write_head [OF conjunct1 [OF u], of st] l stP cP u v1 by (auto elim!: wp_mono simp: cache_only_klog)
  have 3: "wp (install_trans False) (\<lambda>_ u. settled p d {} (apply_writes ((apply_writes V ?L)(st := ?H)) ?I) (apply_writes ((apply_writes D ?L)(st := ?H)) ?I)
      (((W @ ?L) @ [(st, ?H)]) @ ?I) u \<and> klog u = klog s) u"
    if u: "settled p d ?P ((apply_writes V ?L)(st := ?H)) ((apply_writes D ?L)(st := ?H)) ((W @ ?L) @ [(st, ?H)]) u \<and> klog u = klog s" for u
    using wp_install_trans [OF conjunct1 [OF u], of st n bs False] l ln t u by (auto elim!: wp_mono simp: cache_only_klog hw)
  have 4: "wp write_head (\<lambda>_ u. settled p d {} ((apply_writes ((apply_writes V ?L)(st := ?H)) ?I)(st := ?C)) ((apply_writes ((apply_writes D ?L)(st := ?H)) ?I)(st := ?C))
      ((((W @ ?L) @ [(st, ?H)]) @ ?I) @ [(st, ?C)]) u \<and> klog u = (klog s)\<lparr>l_lh := header 0 bs\<rparr>) u"
    if u: "settled p d {} (apply_writes ((apply_writes V ?L)(st := ?H)) ?I) (apply_writes ((apply_writes D ?L)(st := ?H)) ?I)
      (((W @ ?L) @ [(st, ?H)]) @ ?I) u \<and> klog u = (klog s)\<lparr>l_lh := header 0 bs\<rparr>" for u
    using wp_write_head [OF conjunct1 [OF u], of st] l u v3 by (auto elim!: wp_mono simp: cache_only_klog hb_put_empty header_def)
  have lh0: "lh_n_update (\<lambda>_. 0) (header n bs) = header 0 bs" by (simp add: header_def)
  have "wp (stmts [write_log, write_head, install_trans False, upd_lh (\<lambda>lh. lh\<lparr>lh_n := 0\<rparr>), write_head])
    (\<lambda>_ u. settled p d {} (apply_writes V (commit_writes st n bs V)) (apply_writes D (commit_writes st n bs V))
    (W @ commit_writes st n bs V) u \<and> klog u = (klog s)\<lparr>l_lh := header 0 bs\<rparr>) s"
    apply (rule wp_stmts_Cons [OF 1], erule wp_stmts_Cons [OF 2], erule wp_stmts_Cons [OF 3])
    apply (simp add: wp_seq wp_def [of "upd_lh _"] upd_lh_apply l(3) lh0)
    apply (rule wp_mono [OF 4])
     apply (simp_all add: wp_ret commit_writes_def l(3))
    done
  then show ?thesis using ln by (simp add: commit_def wp_bnd wp_gets)
qed


lemma wp_recover:
  assumes s: "settled p d {} D D W s" and l: "l_dev (klog s) = d" "l_start (klog s) = st"
    and h: "lh_n (hb_get (D st)) = int n" "\<And>i. i < n \<Longrightarrow> lh_block (hb_get (D st)) i = bs i" and t: "transaction st n bs"
  shows "wp recover_from_log (\<lambda>_ u. settled p d {} (apply_writes D (recovery_writes st n bs D)) (apply_writes D (recovery_writes st n bs D))
    (W @ recovery_writes st n bs D) u) s"
proof -
  let ?I = "home_writes st bs D [0..<n]"
  have "st \<notin> bs ` set [0..<n]" using transactionD(1) [OF t] by fastforce
  then have v: "apply_writes D ?I st = D st" by (rule writes_other)
  have 1: "wp read_head (\<lambda>_ u. settled p d {} D D W u \<and> l_dev (klog u) = d \<and> l_start (klog u) = st \<and>
    lh_n (l_lh (klog u)) = int n \<and> (\<forall>i<n. lh_block (l_lh (klog u)) i = bs i)) s"
    using wp_read_head [OF s l, of n] h by (auto elim!: wp_mono)
  have 2: "wp (install_trans True) (\<lambda>_ u. settled p d {} (apply_writes D ?I) (apply_writes D ?I) (W @ ?I) u \<and>
      l_dev (klog u) = d \<and> l_start (klog u) = st) u"
    if u: "settled p d {} D D W u \<and> l_dev (klog u) = d \<and> l_start (klog u) = st \<and>
      lh_n (l_lh (klog u)) = int n \<and> (\<forall>i<n. lh_block (l_lh (klog u)) i = bs i)" for u
    using wp_install_trans [OF conjunct1 [OF u], of st n bs True] t u by (auto elim!: wp_mono simp: cache_only_klog)
  have 4: "wp write_head (\<lambda>_ u. settled p d {} ((apply_writes D ?I)(st := clear_header (D st))) ((apply_writes D ?I)(st := clear_header (D st)))
      ((W @ ?I) @ [(st, clear_header (D st))]) u) u"
    if u: "settled p d {} (apply_writes D ?I) (apply_writes D ?I) (W @ ?I) u \<and>
      l_dev (klog u) = d \<and> l_start (klog u) = st \<and> lh_n (l_lh (klog u)) = 0" for u
    using wp_write_head [OF conjunct1 [OF u], of st] u v by (auto elim!: wp_mono simp: hb_put_empty)
  show ?thesis
    unfolding recover_from_log_def
    apply (rule wp_stmts_Cons [OF 1], erule wp_stmts_Cons [OF 2])
    apply (simp add: wp_seq wp_def [of "upd_lh _"] upd_lh_apply)
    apply (rule wp_mono [OF 4])
     apply (simp_all add: wp_ret recovery_writes_def)
    done
qed

section \<open>Crashes\<close>

text \<open>
  The disk before the transaction has \<open>D\<close> and after it \<open>V\<close>, outside the log. At any moment it is in one of
  three conditions: the header is empty and the disk is as before or as after, or the header lists the transaction and the slots hold its blocks.
\<close>

definition unchanged :: "u32 \<Rightarrow> (u32 \<Rightarrow> bytes) \<Rightarrow> (u32 \<Rightarrow> bytes) \<Rightarrow> bool" where
  "unchanged st D D' \<longleftrightarrow> lh_n (hb_get (D' st)) = 0 \<and> (\<forall>x. x \<notin> log_area st \<longrightarrow> D' x = D x)"

definition committed :: "u32 \<Rightarrow> nat \<Rightarrow> (nat \<Rightarrow> u32) \<Rightarrow> (u32 \<Rightarrow> bytes) \<Rightarrow> (u32 \<Rightarrow> bytes) \<Rightarrow> bool" where
  "committed st n bs V D' \<longleftrightarrow> lh_n (hb_get (D' st)) = int n \<and> (\<forall>i<n. lh_block (hb_get (D' st)) i = bs i \<and> D' (slot st i) = V (bs i)) \<and>
     (\<forall>x. x \<notin> log_area st \<longrightarrow> x \<notin> bs ` {..<n} \<longrightarrow> D' x = V x)"


lemma take_upt_map: "take k (map f [0..<n]) = map f [0..<min k n]"
  by (simp add: take_map min_def)

lemma log_area_slot: "n < LOGSIZE \<Longrightarrow> i < n \<Longrightarrow> slot st i \<in> log_area st"
  by (rule slot_area) simp

text \<open>The writes to the log before its header leave the disk as it was.\<close>

lemma log_writes_unchanged:
  assumes D: "lh_n (hb_get (D st)) = 0" and k: "k \<le> n" "n < LOGSIZE"
  shows "unchanged st D (apply_writes D (log_writes st bs V [0..<k]))"
proof -
  have "x \<notin> slot st ` set [0..<k]" if "x \<notin> log_area st \<or> x = st" for x
  proof
    assume "x \<in> slot st ` set [0..<k]"
    then obtain i where "i < k" "x = slot st i" by auto
    then have "i < n" "x = slot st i" using k(1) by simp_all
    then show False using that slot_header [of i st] log_area_slot [OF k(2)] k(2) by auto
  qed
  then show ?thesis using D by (simp add: unchanged_def writes_other)
qed

lemma committed_home:
  assumes c: "committed st n bs V D'" and t: "transaction st n bs" and I: "set is \<subseteq> {..<n}"
  shows "committed st n bs V (apply_writes D' (map (\<lambda>i. (bs i, g i)) is))"
proof -
  have o: "apply_writes D' (map (\<lambda>i. (bs i, g i)) is) x = D' x" if "x \<notin> bs ` {..<n}" for x
    using that I by (intro apply_writes_other) auto
  have "st \<notin> bs ` {..<n}" using transactionD(1) [OF t] by fastforce
  moreover have "slot st i \<notin> bs ` {..<n}" if "i < n" for i using transactionD(2) [OF t _ that] by fastforce
  ultimately show ?thesis using c o by (simp add: committed_def)
qed

lemma committed_done:
  assumes c: "committed st n bs V D'" and t: "transaction st n bs"
  shows "unchanged st V ((apply_writes D' (map (\<lambda>i. (bs i, V (bs i))) [0..<n]))(st := clear_header x))"
proof -
  have "apply_writes D' (map (\<lambda>i. (bs i, V (bs i))) [0..<n]) y = V y" if "y \<notin> log_area st" for y
  proof (cases "y \<in> bs ` {..<n}")
    case True
    then obtain i where i: "i < n" "y = bs i" by auto
    have "inj_on bs (set [0..<n])" using t by (simp add: transaction_def atLeast0LessThan)
    from apply_writes_map [OF this, of i D' "\<lambda>i. V (bs i)"] i show ?thesis by simp
  next
    case False
    then have "apply_writes D' (map (\<lambda>i. (bs i, V (bs i))) [0..<n]) y = D' y" by (intro apply_writes_other) auto
    then show ?thesis using c that False by (simp add: committed_def)
  qed
  then show ?thesis using header_area by (auto simp: unchanged_def hb_get_clear)
qed

lemma log_committed:
  assumes t: "transaction st n bs" and V: "\<And>x. x \<notin> bs ` {..<n} \<Longrightarrow> D x = V x"
  shows "committed st n bs V ((apply_writes D (log_writes st bs V [0..<n]))(st := hb_put (header n bs) x))"
proof -
  have n: "n < LOGSIZE" using t by (simp add: transaction_def)
  have "lh_n (header n bs) < 2 ^ 31" "0 \<le> lh_n (header n bs)" using n by (simp_all add: header_def)
  note h = hb_get_put [OF this(2,1)]
  have 1: "slot st i \<noteq> st" "apply_writes D (log_writes st bs V [0..<n]) (slot st i) = V (bs i)" if "i < n" for i
    using that n slot_header [of i st] log_writes_at [of "[0..<n]" n i D st bs V] by (auto simp: atLeast0LessThan)
  have 2: "apply_writes D (log_writes st bs V [0..<n]) y = V y" if "y \<notin> log_area st" "y \<notin> bs ` {..<n}" for y
  proof -
    have "y \<notin> slot st ` set [0..<n]" using that(1) log_area_slot [OF n] by auto
    then show ?thesis using V [OF that(2)] by (simp add: writes_other)
  qed
  have "y \<noteq> st" if "y \<notin> log_area st" for y using that header_area by auto
  then show ?thesis using h 1 2 by (simp add: committed_def header_def)
qed

text \<open>What is on the disk after any part of a commit.\<close>

lemma commit_prefix:
  fixes k :: nat
  assumes t: "transaction st n bs" and V: "\<And>x. x \<notin> bs ` {..<n} \<Longrightarrow> D x = V x" and D: "lh_n (hb_get (D st)) = 0"
  defines "D' \<equiv> apply_writes D (take k (commit_writes st n bs V))"
  shows "if k \<le> n then unchanged st D D' else committed st n bs V D' \<or> unchanged st V D'"
proof -
  have n: "n < LOGSIZE" using t by (simp add: transaction_def)
  let ?L = "log_writes st bs V [0..<n]" and ?I = "\<lambda>j. map (\<lambda>i. (bs i, V (bs i))) [0..<j]" and ?H = "hb_put (header n bs) (V st)"
  have len: "length ?L = n" by (simp add: log_writes_def)
  show ?thesis
  proof (cases "k \<le> n")
    case True
    then have "take k (commit_writes st n bs V) = log_writes st bs V [0..<k]"
      by (simp add: commit_writes_def len) (simp add: log_writes_def take_map)
    then show ?thesis using True log_writes_unchanged [where V = V and bs = bs and D = D and st = st, OF D True n] by (simp add: D'_def)
  next
    case False
    let ?D1 = "(apply_writes D ?L)(st := ?H)"
    have c: "committed st n bs V ?D1" by (rule log_committed [OF t V])
    obtain j where k: "k = Suc (n + j)" using False less_imp_Suc_add [of n k] by auto
    show ?thesis
    proof (cases "j \<le> n")
      case True
      then have "take k (commit_writes st n bs V) = ?L @ [(st, ?H)] @ ?I j" by (simp add: commit_writes_def len k take_map)
      then have "D' = apply_writes ?D1 (?I j)" by (simp add: D'_def)
      moreover have "set [0..<j] \<subseteq> {..<n}" using True by auto
      ultimately show ?thesis using committed_home [OF c t, of "[0..<j]" "\<lambda>i. V (bs i)"] False by simp
    next
      case False
      then have "take k (commit_writes st n bs V) = ?L @ [(st, ?H)] @ ?I n @ [(st, clear_header ?H)]"
        by (simp add: commit_writes_def len k)
      then have "D' = (apply_writes ?D1 (?I n))(st := clear_header ?H)" by (simp add: D'_def)
      then show ?thesis using committed_done [OF c t, of ?H] k by simp
    qed
  qed
qed


text \<open>What is on the disk after any part of a recovery.\<close>

lemma recovery_prefix:
  assumes t: "transaction st n bs" and c: "committed st n bs V D"
  shows "committed st n bs V (apply_writes D (take k (recovery_writes st n bs D))) \<or>
    unchanged st V (apply_writes D (take k (recovery_writes st n bs D)))"
    "unchanged st V (apply_writes D (recovery_writes st n bs D))"
proof -
  have "home_writes st bs D [0..<n] = map (\<lambda>i. (bs i, V (bs i))) [0..<n]"
    using c by (intro home_writes_eq) (simp add: committed_def)
  then have w: "recovery_writes st n bs D = map (\<lambda>i. (bs i, V (bs i))) [0..<n] @ [(st, clear_header (D st))]"
    by (simp add: recovery_writes_def)
  show full: "unchanged st V (apply_writes D (recovery_writes st n bs D))"
    using committed_done [OF c t] by (simp add: w)
  show "committed st n bs V (apply_writes D (take k (recovery_writes st n bs D))) \<or>
    unchanged st V (apply_writes D (take k (recovery_writes st n bs D)))"
  proof (cases "k \<le> n")
    case True
    then have "set [0..<k] \<subseteq> {..<n}" by auto
    from committed_home [OF c t this, of "\<lambda>i. V (bs i)"] show ?thesis using True by (simp add: w take_map)
  next
    case False
    then show ?thesis using full by (simp add: w)
  qed
qed

lemma recovery_nothing:
  assumes "unchanged st X D"
  shows "unchanged st X (apply_writes D (take k (recovery_writes st 0 bs D)))" "unchanged st X (apply_writes D (recovery_writes st 0 bs D))"
proof -
  show full: "unchanged st X (apply_writes D (recovery_writes st 0 bs D))"
    using assms header_area by (auto simp: unchanged_def recovery_writes_def home_writes_def hb_get_clear)
  show "unchanged st X (apply_writes D (take k (recovery_writes st 0 bs D)))"
    using assms full by (cases k) (simp_all add: recovery_writes_def home_writes_def)
qed

text \<open>\<open>initlog\<close> in a state with nothing in the cache.\<close>

lemma wp_initlog:
  assumes s: "settled p d {} D D W s" and st: "sb_logstart sb = st"
    and h: "lh_n (hb_get (D st)) = int n" "\<And>i. i < n \<Longrightarrow> lh_block (hb_get (D st)) i = bs i" and t: "transaction st n bs"
  shows "wp (initlog d sb) (\<lambda>_ u. disk u = apply_writes D (recovery_writes st n bs D) \<and> dwrites u = W @ recovery_writes st n bs D) s"
proof -
  define u where "u = (upd_lock L_log (\<lambda>_. \<lparr>locked = False, lname = ''log'', lcpu = None\<rparr>) s)
    \<lparr>klog := (klog s)\<lparr>l_start := st, l_size := sint (sb_nlog sb), l_dev := d\<rparr>\<rparr>"
  have "settled p d {} D D W u"
    using s by (auto simp: u_def settled_def cache_def quiet_def cpu_ok_def unlocked_def upd_lock_def)
  then have "wp recover_from_log (\<lambda>_ u. settled p d {} (apply_writes D (recovery_writes st n bs D)) (apply_writes D (recovery_writes st n bs D))
    (W @ recovery_writes st n bs D) u) u"
    by (rule wp_recover) (use h t in \<open>simp_all add: u_def\<close>)
  then have "wp recover_from_log (\<lambda>_ u. disk u = apply_writes D (recovery_writes st n bs D) \<and> dwrites u = W @ recovery_writes st n bs D) u"
    by (rule wp_mono) (simp add: settled_disk)
  then show ?thesis by (simp add: initlog_def initlock_def upd_log_def wp_seq wp_modify wp_ret_ext u_def st upd_lock_def)
qed

text \<open>A boot on the disk \<open>D\<close> that is cut off after some of its writes leaves \<open>D'\<close>.\<close>

definition boot_cut :: "nat \<Rightarrow> u32 \<Rightarrow> superblock \<Rightarrow> (u32 \<Rightarrow> bytes) \<Rightarrow> (u32 \<Rightarrow> bytes) \<Rightarrow> bool" where
  "boot_cut p d sb D D' \<longleftrightarrow> (\<exists>s u k. settled p d {} D D [] (s :: log_st) \<and> initlog d sb s = Ok () u \<and> D' = apply_writes D (take k (dwrites u)))"

lemma boots:
  assumes t: "transaction st n bs" and st: "sb_logstart sb = st"
    and D: "committed st n bs V D \<or> unchanged st X D" and s: "settled p d {} D D [] (s :: log_st)"
  shows "\<exists>u. initlog d sb s = Ok () u \<and> (\<forall>x. x \<notin> log_area st \<longrightarrow> disk u x = (if committed st n bs V D then V x else X x)) \<and>
    (let D' = apply_writes D (take k (dwrites u)) in
      if committed st n bs V D then committed st n bs V D' \<or> unchanged st V D' else unchanged st X D')"
proof (cases "committed st n bs V D")
  case True
  then have "lh_n (hb_get (D st)) = int n" "\<And>i. i < n \<Longrightarrow> lh_block (hb_get (D st)) i = bs i" by (auto simp: committed_def)
  from wp_initlog [OF s st this t] obtain u where "initlog d sb s = Ok () u"
    "disk u = apply_writes D (recovery_writes st n bs D)" "dwrites u = recovery_writes st n bs D" by (auto simp: wp_iff)
  then show ?thesis using recovery_prefix [OF t True] True by (auto simp: unchanged_def)
next
  case False
  then have u: "unchanged st X D" using D by simp
  have "transaction st 0 bs" by (simp add: transaction_def)
  moreover have "lh_n (hb_get (D st)) = int 0" using u by (simp add: unchanged_def)
  ultimately obtain u where "initlog d sb s = Ok () u"
    "disk u = apply_writes D (recovery_writes st 0 bs D)" "dwrites u = recovery_writes st 0 bs D"
    using wp_initlog [OF s st, of 0 bs] by (auto simp: wp_iff)
  then show ?thesis using recovery_nothing [OF u] False by (auto simp: unchanged_def)
qed


lemma not_committed: "unchanged st D D' \<Longrightarrow> 0 < n \<Longrightarrow> \<not> committed st n bs V D'"
  by (auto simp: unchanged_def committed_def)

text \<open>
  C28. Commits are atomic under crashes. \<open>commit\<close> of a transaction of \<open>n\<close> pinned blocks returns, having written
  the blocks to the log, the header, the blocks to their places, and the empty header, in this order. Suppose the
  machine stops after any number \<open>k\<close> of these writes, and after that any number of boots stop in the middle of
  their recovery. Then the first boot that gets through the recovery finds all blocks outside the log as before the
  transaction if the header had not been written (\<open>k \<le> n\<close>), and as after it otherwise.
\<close>

theorem commit_crash_safe:
  assumes s: "settled p d (bs ` {..<n}) V D W s" and l: "l_dev (klog s) = d" "l_start (klog s) = st" "l_lh (klog s) = header n bs"
    and t: "transaction st n bs" and n: "0 < n" and D: "lh_n (hb_get (D st)) = 0" and sb: "sb_logstart sb = st"
  shows "\<exists>u. commit s = Ok () u \<and> dwrites u = W @ commit_writes st n bs V \<and>
    (\<forall>k D' b. (boot_cut p d sb)\<^sup>*\<^sup>* (apply_writes D (take k (commit_writes st n bs V))) D' \<longrightarrow> settled p d {} D' D' [] (b :: log_st) \<longrightarrow>
      (\<exists>v. initlog d sb b = Ok () v \<and> (\<forall>x. x \<notin> log_area st \<longrightarrow> disk v x = (if k \<le> n then D x else V x))))"
proof -
  obtain u where u: "commit s = Ok () u" "dwrites u = W @ commit_writes st n bs V"
    using wp_commit [OF s l t n] by (auto simp: wp_iff dest!: settled_disk)
  have V: "D x = V x" if "x \<notin> bs ` {..<n}" for x using settled_clean [OF s that] by simp
  let ?ok = "\<lambda>k D'. if k \<le> n then unchanged st D D' else committed st n bs V D' \<or> unchanged st V D'"
  have "?ok k D'" if "(boot_cut p d sb)\<^sup>*\<^sup>* (apply_writes D (take k (commit_writes st n bs V))) D'" for k D'
    using that
  proof (induction rule: rtranclp_induct)
    case base
    show ?case using t D by (intro commit_prefix) (simp_all add: V)
  next
    case (step D1 D2)
    obtain b v j where b: "settled p d {} D1 D1 [] (b :: log_st)" "initlog d sb b = Ok () v" "D2 = apply_writes D1 (take j (dwrites v))"
      using step.hyps(2) by (auto simp: boot_cut_def)
    show ?case
      using boots [OF t sb _ b(1), where V = V and X = "if k \<le> n then D else V" and k = j] step.IH b(2,3) not_committed [OF _ n]
      by (auto simp: Let_def split: if_splits)
  qed
  moreover have "\<exists>v. initlog d sb b = Ok () v \<and> (\<forall>x. x \<notin> log_area st \<longrightarrow> disk v x = (if k \<le> n then D x else V x))"
    if "?ok k D'" "settled p d {} D' D' [] (b :: log_st)" for k D' b
    using boots [OF t sb _ that(2), where V = V and X = "if k \<le> n then D else V" and k = 0] that(1) not_committed [OF _ n]
    by (auto split: if_splits)
  ultimately show ?thesis using u by blast
qed


text \<open>A machine that has one block, 100, changed in the cache and pinned, with the log at block 2 of an empty disk.\<close>

definition log_sys :: log_st where
  "log_sys = \<lparr>hart = 0, cpus = (\<lambda>h. \<lparr>c_proc = Some h, noff = 0, intena = False\<rparr>),
     csr = (\<lambda>_. csrs0), locks = (\<lambda>_. \<lparr>locked = False, lname = [], lcpu = None\<rparr>),
     mem = (\<lambda>_. 0), kend = 0x87fff000, freelist = 0, kernel_pagetable = 0, etext = 0, trampoline = 0,
     pr_locking = True, kout = [], procs = (\<lambda>_. proc0), initproc = None, nextpid = 1,
     slocks = (\<lambda>_. \<lparr>sl_locked = False, sl_name = [], sl_pid = 0\<rparr>), forkret_addr = 0,
     bufs = (\<lambda>b. \<lparr>b_valid = (b = 0), b_disk = False, b_dev = (if b = 0 then 1 else 0), b_blockno = (if b = 0 then 100 else 0),
       b_refcnt = (if b = 0 then 1 else 0), b_prev = (if b = 0 then bhead else b - 1), b_next = (if b = bhead then 0 else b + 1),
       b_data = (\<lambda>_. 7)\<rparr>),
     disk = (\<lambda>_ _. 0), dwrites = [],
     klog = \<lparr>l_start = 2, l_size = 30, l_outstanding = 0, l_committing = True, l_dev = 1, l_lh = header 1 (\<lambda>_. 100)\<rparr>\<rparr>"

lemma log_sys_settled: "settled 0 1 {100} ((\<lambda>_ _. 0)(100 := \<lambda>_. 7)) (\<lambda>_ _. 0) [] log_sys"
proof -
  let ?A = "\<lparr>a_view = (\<lambda>_ _. 0)(100 := \<lambda>_. 7), a_disk = (\<lambda>_ _. 0), a_writes = [], a_loc = [100 \<mapsto> 0],
    a_ref = (\<lambda>n. if n = 100 then 1 else 0), a_held = {}\<rparr>"
  have "linked (bufs log_sys) (bhead # [0..<NBUF] @ [bhead])" by (simp add: log_sys_def upt_rec)
  then have "\<exists>xs. ring (bufs log_sys) xs" by (intro exI [of _ "[0..<NBUF]"]) (simp add: ring_def atLeast0LessThan del: upt_rec_numeral)
  then have "buffers_ok 1 ?A (bufs log_sys)" by (auto simp: buffers_ok_def log_sys_def split: if_splits)
  then have "cache 0 1 ?A log_sys"
    by (simp add: cache_def quiet_def cpu_ok_def unlocked_def sleeplocks_ok_def log_sys_def)
  moreover have "idle {100} ((\<lambda>_ _. 0)(100 := \<lambda>_. 7)) (\<lambda>_ _. 0) [] ?A" by (simp add: idle_def)
  ultimately show ?thesis unfolding settled_def by blast
qed

theorem commit_crash_safe_witness:
  "\<exists>u. commit log_sys = Ok () u \<and> dwrites u = [] @ commit_writes 2 1 (\<lambda>_. 100) ((\<lambda>_ _. 0)(100 := \<lambda>_. 7)) \<and>
    (\<forall>k D' b. (boot_cut 0 1 \<lparr>sb_magic = 0x10203040, sb_size = 2000, sb_nblocks = 1954, sb_ninodes = 200, sb_nlog = 30,
        sb_logstart = 2, sb_inodestart = 32, sb_bmapstart = 45\<rparr>)\<^sup>*\<^sup>*
        (apply_writes (\<lambda>_ _. 0) (take k (commit_writes 2 1 (\<lambda>_. 100) ((\<lambda>_ _. 0)(100 := \<lambda>_. 7))))) D' \<longrightarrow>
      settled 0 1 {} D' D' [] (b :: log_st) \<longrightarrow>
      (\<exists>v. initlog 1 \<lparr>sb_magic = 0x10203040, sb_size = 2000, sb_nblocks = 1954, sb_ninodes = 200, sb_nlog = 30,
        sb_logstart = 2, sb_inodestart = 32, sb_bmapstart = 45\<rparr> b = Ok () v \<and>
        (\<forall>x. x \<notin> log_area 2 \<longrightarrow> disk v x = (if k \<le> 1 then (\<lambda>_ _. 0) x else ((\<lambda>_ _. 0)(100 := \<lambda>_. 7)) x))))"
proof (rule commit_crash_safe)
  have "(\<lambda>_. 100 :: u32) ` {..<1 :: nat} = {100}" by auto
  then show "settled 0 1 ((\<lambda>_. 100) ` {..<1 :: nat}) ((\<lambda>_ _. 0)(100 := \<lambda>_. 7)) (\<lambda>_ _. 0) [] log_sys"
    using log_sys_settled by simp
  have "(100 :: u32) \<notin> log_area 2" by code_simp
  then show "transaction 2 1 (\<lambda>_. 100)" by (simp add: transaction_def inj_on_def)
  show "lh_n (hb_get ((\<lambda>_ _. 0) (2 :: u32))) = 0" by (simp add: hb_get_def ld32_def ldn_zero)
qed (simp_all add: log_sys_def)


section \<open>Building a transaction\<close>

lemma absorb_idx_range: "j \<le> absorb_idx k j bs n \<and> absorb_idx k j bs n \<le> j + k"
proof (induction k arbitrary: j)
  case (Suc k)
  show ?case using Suc.IH [of "Suc j"] by simp
qed simp

lemma absorb_idx_found:
  "(absorb_idx k j bs n < j + k \<longrightarrow> bs (absorb_idx k j bs n) = n) \<and>
   (absorb_idx k j bs n = j + k \<longrightarrow> (\<forall>i. j \<le> i \<longrightarrow> i < j + k \<longrightarrow> bs i \<noteq> n))"
proof (induction k arbitrary: j)
  case (Suc k)
  show ?case
  proof (cases "bs j = n")
    case False
    have "bs i \<noteq> n" if "absorb_idx k (Suc j) bs n = Suc (j + k)" "j \<le> i" "i < Suc (j + k)" for i
      using Suc.IH [of "Suc j"] that False by (cases "i = j") auto
    then show ?thesis using Suc.IH [of "Suc j"] False by simp
  qed simp
qed simp

lemma cache_pin:
  assumes c: "cache p d A s" and n: "a_loc A n = Some b" "a_ref A n + 1 < 2 ^ 32"
  shows "cache p d (A\<lparr>a_ref := (a_ref A)(n := a_ref A n + 1)\<rparr>)
    (s\<lparr>bufs := (bufs s)(b := (bufs s b)\<lparr>b_refcnt := b_refcnt (bufs s b) + 1\<rparr>), cpus := cs_cpus s\<rparr>)"
proof -
  have q: "quiet p s" using c by (simp add: cache_def)
  then have u: "unlocked L_bcache s" "cpu_ok s" by (simp_all add: quiet_def)
  have "bpin b s = Ok () (s\<lparr>bufs := (bufs s)(b := (bufs s b)\<lparr>b_refcnt := b_refcnt (bufs s b) + 1\<rparr>), cpus := cs_cpus s\<rparr>)"
    by (simp add: bpin_def seq_def bnd_def acquire_unlocked [OF u(1)] upd_buf_def buf_section [OF u])
  with wp_bpin [OF c n] show ?thesis by (simp add: wp_def)
qed

lemma cache_cs: "cache p d A s \<Longrightarrow> cache p d A (s\<lparr>cpus := cs_cpus s\<rparr>)"
  by (simp add: cache_def quiet_cs)

text \<open>The pin inside the critical section of the log.\<close>

lemma bpin_nested:
  assumes "unlocked L_bcache s" "nested s"
  shows "bpin b s = Ok () (s\<lparr>bufs := (bufs s)(b := (bufs s b)\<lparr>b_refcnt := b_refcnt (bufs s b) + 1\<rparr>)\<rparr>)"
proof -
  have "bpin b s = Ok () (s\<lparr>bufs := (bufs s)(b := (bufs s b)\<lparr>b_refcnt := b_refcnt (bufs s b) + 1\<rparr>), cpus := cs_cpus s\<rparr>)"
    by (simp add: bpin_def seq_def bnd_def acquire_unlocked [OF assms(1)] upd_buf_def buf_section [OF assms(1) nested_cpu_ok [OF assms(2)]])
  then show ?thesis by (simp add: nested_cs_cpus [OF assms(2)])
qed

text \<open>
  What \<open>log_write\<close> does to the transaction: a block already in it stays at its place, a new one is added at the
  end and pinned.
\<close>

definition record_block :: "u32 \<Rightarrow> nat \<Rightarrow> (nat \<Rightarrow> u32) \<Rightarrow> nat \<times> (nat \<Rightarrow> u32)" where
  "record_block n k bs = (if n \<in> bs ` {..<k} then (k, bs) else (k + 1, bs(k := n)))"

lemma transaction_record:
  assumes "transaction st k bs" "n \<notin> log_area st" "k + 1 < LOGSIZE" "record_block n k bs = (k', bs')"
  shows "transaction st k' bs'" "bs' ` {..<k'} = insert n (bs ` {..<k})"
proof -
  have "inj_on (bs(k := n)) {..<Suc k}" if "n \<notin> bs ` {..<k}"
    using assms(1) that by (auto simp: transaction_def inj_on_def lessThan_Suc)
  then show "transaction st k' bs'"
    using assms by (auto simp: record_block_def transaction_def less_Suc_eq split: if_splits)
  have "(bs(k := n)) ` {..<Suc k} = insert n (bs ` {..<k})" by (auto simp: lessThan_Suc)
  then show "bs' ` {..<k'} = insert n (bs ` {..<k})" using assms(4) by (auto simp: record_block_def split: if_splits)
qed

text \<open>What the operations of the log leave alone.\<close>

definition log_only :: "'x log_st_scheme \<Rightarrow> 'x log_st_scheme \<Rightarrow> bool" where
  "log_only s s' \<longleftrightarrow> (\<exists>B L C P D W K. s' = s\<lparr>cpus := C, procs := P, slocks := L, bufs := B, disk := D, dwrites := W, klog := K\<rparr>)"

lemma log_onlyI: "cache_only s t \<Longrightarrow> log_only s t"
  unfolding cache_only_def log_only_def
proof (elim exE)
  fix B L C P D W assume "t = s\<lparr>cpus := C, procs := P, slocks := L, bufs := B, disk := D, dwrites := W\<rparr>"
  then show "\<exists>B L C P D W K. t = s\<lparr>cpus := C, procs := P, slocks := L, bufs := B, disk := D, dwrites := W, klog := K\<rparr>"
    by (intro exI [of _ B] exI [of _ L] exI [of _ C] exI [of _ P] exI [of _ D] exI [of _ W] exI [of _ "klog s"]) simp
qed

lemma log_only_trans: "log_only s t \<Longrightarrow> log_only t u \<Longrightarrow> log_only s u"
  unfolding log_only_def by (elim exE) (simp, blast)

lemma log_only_step: "log_only s (s\<lparr>bufs := B, klog := K, cpus := C\<rparr>)"
  unfolding log_only_def
  by (intro exI [of _ B] exI [of _ "slocks s"] exI [of _ C] exI [of _ "procs s"] exI [of _ "disk s"] exI [of _ "dwrites s"] exI [of _ K]) simp

lemma log_write_eq:
  assumes c: "cache p d A s" and n: "a_loc A n = Some b" "a_ref A n + 1 < 2 ^ 32"
    and l: "l_lh (klog s) = header k bs" "int k + 1 < l_size (klog s)" "k < LOGSIZE" "1 \<le> l_outstanding (klog s)"
    and r: "record_block n k bs = (k', bs')"
  shows "\<exists>s'. log_write b s = Ok () s' \<and> cache p d (if k' = k then A else A\<lparr>a_ref := (a_ref A)(n := a_ref A n + 1)\<rparr>) s' \<and>
    klog s' = (klog s)\<lparr>l_lh := header k' bs'\<rparr> \<and> log_only s s'"
proof -
  have q: "quiet p s" using c by (simp add: cache_def)
  then have u: "unlocked L_log s" "cpu_ok s" "unlocked L_bcache s" by (simp_all add: quiet_def)
  let ?a = "acq L_log s" and ?i = "absorb_idx k 0 bs n"
  have a: "klog ?a = klog s" "bufs ?a = bufs s" "unlocked L_bcache ?a" using u by (simp_all add: acq_def unlocked_def)
  have na: "nested ?a" using u(2) by simp
  have bn: "b_blockno (bufs s b) = n" by (rule cache_loc(3) [OF c n(1)])
  have i: "?i \<le> k" "?i < k \<longrightarrow> bs ?i = n" "?i = k \<longrightarrow> (\<forall>j<k. bs j \<noteq> n)"
    using absorb_idx_range [of 0 k bs n] absorb_idx_found [of k 0 bs n] by auto
  have rel: "release L_log (?a\<lparr>bufs := B, klog := L\<rparr>) = Ok () (s\<lparr>bufs := B, klog := L, cpus := cs_cpus s\<rparr>)" for B L
  proof -
    have "?a\<lparr>bufs := B, klog := L, cpus := cs_cpus s, csr := csr s, locks := locks s\<rparr> = s\<lparr>bufs := B, klog := L, cpus := cs_cpus s\<rparr>"
      by (simp add: acq_def)
    then show ?thesis using release_acq [OF u(1,2), of "?a\<lparr>bufs := B, klog := L\<rparr>"] by simp
  qed
  have rel0: "release L_log (?a\<lparr>klog := L\<rparr>) = Ok () (s\<lparr>klog := L, cpus := cs_cpus s\<rparr>)" for L
  proof -
    have "?a\<lparr>klog := L, cpus := cs_cpus s, csr := csr s, locks := locks s\<rparr> = s\<lparr>klog := L, cpus := cs_cpus s\<rparr>"
      by (simp add: acq_def)
    then show ?thesis using release_acq [OF u(1,2), of "?a\<lparr>klog := L\<rparr>"] by simp
  qed
  show ?thesis
  proof (cases "?i = k")
    case True
    then have "n \<notin> bs ` {..<k}" using i(3) by blast
    then have e: "k' = k + 1" "bs' = bs(k := n)" using r by (auto simp: record_block_def)
    let ?B = "(bufs s)(b := (bufs s b)\<lparr>b_refcnt := b_refcnt (bufs s b) + 1\<rparr>)" and ?K = "(klog s)\<lparr>l_lh := header k' bs'\<rparr>"
    let ?t = "?a\<lparr>klog := (klog s)\<lparr>l_lh := header k bs'\<rparr>\<rparr>"
    have "unlocked L_bcache ?t" "nested ?t" using a na by (simp_all add: unlocked_def nested_def)
    note pin = bpin_nested [OF this, of b]
    have "log_write b s = Ok () (s\<lparr>bufs := ?B, klog := ?K, cpus := cs_cpus s\<rparr>)"
      using l True e pin rel [where B = ?B and L = ?K]
      by (simp add: log_write_def seq_def bnd_def acquire_unlocked [OF u(1)] a get_buf_def bn Let_def upd_lh_apply header_def ac_simps)
    moreover have "cache p d (A\<lparr>a_ref := (a_ref A)(n := a_ref A n + 1)\<rparr>) (s\<lparr>bufs := ?B, klog := ?K, cpus := cs_cpus s\<rparr>)"
      using cache_pin [OF c n] by (simp add: cache_klog_cpus)
    ultimately show ?thesis using e log_only_step [where s = s and B = ?B and K = ?K and C = "cs_cpus s"] by simp
  next
    case False
    then have ik: "?i < k" "bs ?i = n" using i by auto
    then have "n \<in> bs ` {..<k}" by (intro image_eqI [of _ _ ?i]) simp_all
    then have e: "k' = k" "bs' = bs" using r by (simp_all add: record_block_def)
    have "bs(?i := n) = bs" using ik(2) by auto
    then have "log_write b s = Ok () (s\<lparr>bufs := bufs s, klog := (klog s)\<lparr>l_lh := header k bs\<rparr>, cpus := cs_cpus s\<rparr>)"
      using l ik rel0 [where L = "(klog s)\<lparr>l_lh := header k bs\<rparr>"]
      by (simp add: log_write_def seq_def bnd_def acquire_unlocked [OF u(1)] a get_buf_def bn Let_def upd_lh_apply header_def)
    moreover have "cache p d A (s\<lparr>bufs := bufs s, klog := (klog s)\<lparr>l_lh := header k bs\<rparr>, cpus := cs_cpus s\<rparr>)"
      using cache_cs [OF c] by (simp add: cache_klog_cpus)
    ultimately show ?thesis using e log_only_step [where s = s and B = "bufs s" and K = "(klog s)\<lparr>l_lh := header k bs\<rparr>" and C = "cs_cpus s"] by simp
  qed
qed


text \<open>Block \<open>n\<close> has been read into buffer \<open>b\<close> and is locked, otherwise nothing is.\<close>

definition opened :: "nat \<Rightarrow> u32 \<Rightarrow> u32 set \<Rightarrow> (u32 \<Rightarrow> bytes) \<Rightarrow> (u32 \<Rightarrow> bytes) \<Rightarrow> (u32 \<times> bytes) list \<Rightarrow> u32 \<Rightarrow> nat \<Rightarrow> 'x bio_st_scheme \<Rightarrow> bool" where
  "opened p d P V D W n b s \<longleftrightarrow> (\<exists>A. idle P V D W A \<and> (a_loc A n = None \<or> a_loc A n = Some b) \<and>
     cache p d (A\<lparr>a_loc := (a_loc A)(n \<mapsto> b), a_ref := (a_ref A)(n := a_ref A n + 1), a_held := {n}\<rparr>) s)"

lemma wp_open:
  assumes "settled p d P V D W s" "n \<in> P \<or> card P < NBUF"
  shows "wp (bread d n) (\<lambda>b t. cache_only s t \<and> opened p d P V D W n b t) s"
proof -
  obtain A where A: "cache p d A s" and i: "idle P V D W A" using assms(1) by (auto simp: settled_def)
  have f: "a_held A = {}" "dom (a_loc A) = P" "a_ref A n = (if n \<in> P then 1 else 0)" using i by (auto simp: idle_def)
  have loc: "a_loc A n \<noteq> None \<or> card (dom (a_loc A)) < NBUF" using assms(2) f(2) by (auto simp: dom_def)
  have r: "a_ref A n + 1 < 2 ^ 32" using f(3) by simp
  have h: "n \<notin> a_held A" using f(1) by simp
  show ?thesis
    by (rule wp_mono [OF wp_bread [OF A h loc r]]) (use i f(1) in \<open>auto simp: opened_def\<close>)
qed

lemma opened_data: "opened p d P V D W n b s \<Longrightarrow> b_data (bufs s b) = V n"
  by (auto simp: opened_def idle_def dest!: cache_loc(2) [where n = n and b = b])

lemma opened_klog [simp]: "opened p d P V D W n b (s\<lparr>klog := K\<rparr>) = opened p d P V D W n b (s :: 'x log_st_scheme)"
  by (simp add: opened_def)

lemma wp_close:
  assumes o: "opened p d P V D W n b s" and v: "n \<notin> P \<Longrightarrow> V n = D n"
  shows "wp (brelse b) (\<lambda>_ t. cache_only s t \<and> settled p d P V D W t) s"
proof -
  obtain A where i: "idle P V D W A" and l: "a_loc A n = None \<or> a_loc A n = Some b"
    and c: "cache p d (A\<lparr>a_loc := (a_loc A)(n \<mapsto> b), a_ref := (a_ref A)(n := a_ref A n + 1), a_held := {n}\<rparr>) s" (is "cache p d ?A s")
    using o by (auto simp: opened_def)
  have P: "n \<in> P \<longleftrightarrow> a_loc A n = Some b" using i l by (auto simp: idle_def)
  have r: "a_loc ?A n = Some b" "n \<in> a_held ?A" "a_ref ?A n = 1 \<longrightarrow> a_view ?A n = a_disk ?A n"
    using i v by (auto simp: idle_def)
  have "drop_ref n ?A = A"
    using i l P by (intro blocks.equality) (auto simp: idle_def drop_ref_def fun_eq_iff)
  then show ?thesis using i by (intro wp_mono [OF wp_brelse [OF c r]]) (auto simp: settled_def)
qed

lemma wp_update_close:
  fixes s :: "'x log_st_scheme"
  assumes o: "opened p d (bs ` {..<k}) V D W n b s" and l: "l_lh (klog s) = header k bs" "l_size (klog s) = LOGSIZE" "1 \<le> l_outstanding (klog s)"
    and t: "k + 1 < LOGSIZE" and r: "record_block n k bs = (k', bs')"
  shows "wp (stmts [upd_buf b (\<lambda>x. x\<lparr>b_data := g (b_data x)\<rparr>), log_write b, brelse b])
    (\<lambda>_ s'. settled p d (insert n (bs ` {..<k})) (V(n := g (V n))) D W s' \<and> klog s' = (klog s)\<lparr>l_lh := header k' bs'\<rparr> \<and> log_only s s') s"
proof -
  let ?P = "bs ` {..<k}"
  obtain A where i: "idle ?P V D W A" and loc: "a_loc A n = None \<or> a_loc A n = Some b"
    and c: "cache p d (A\<lparr>a_loc := (a_loc A)(n \<mapsto> b), a_ref := (a_ref A)(n := a_ref A n + 1), a_held := {n}\<rparr>) s"
    using o by (auto simp: opened_def)
  have kk: "k' = k \<longleftrightarrow> n \<in> ?P" using r by (auto simp: record_block_def split: if_splits)
  have f: "a_view A = V" "a_disk A = D" "a_held A = {}" "dom (a_loc A) = ?P" "a_ref A n = (if n \<in> ?P then 1 else 0)"
    using i by (auto simp: idle_def)
  have 0: "at p d s (A\<lparr>a_loc := (a_loc A)(n \<mapsto> b), a_ref := (a_ref A)(n := a_ref A n + 1), a_held := {n}\<rparr>) s"
    using c by (simp add: at_def)
  show ?thesis
    unfolding stmts.simps
  proof (rule at_put [OF 0, of n])
    fix v assume v: "at p d s (A\<lparr>a_loc := (a_loc A)(n \<mapsto> b), a_ref := (a_ref A)(n := a_ref A n + 1), a_held := {n}\<rparr>
      \<lparr>a_view := (a_view (A\<lparr>a_loc := (a_loc A)(n \<mapsto> b), a_ref := (a_ref A)(n := a_ref A n + 1), a_held := {n}\<rparr>))
        (n := g (a_view (A\<lparr>a_loc := (a_loc A)(n \<mapsto> b), a_ref := (a_ref A)(n := a_ref A n + 1), a_held := {n}\<rparr>) n))\<rparr>) v"
    define A3 where "A3 = A\<lparr>a_loc := (a_loc A)(n \<mapsto> b), a_ref := (a_ref A)(n := a_ref A n + 1), a_held := {n}, a_view := V(n := g (V n))\<rparr>"
    have c3: "cache p d A3 v" and kv: "klog v = klog s" and sv: "log_only s v"
      using v f by (auto simp: at_def cache_only_klog A3_def log_onlyI)
    have "a_loc A3 n = Some b" "a_ref A3 n + 1 < 2 ^ 32" using f by (simp_all add: A3_def)
    from log_write_eq [OF c3 this, of k bs k' bs'] l r t kv obtain w where w: "log_write b v = Ok () w"
      "cache p d (if k' = k then A3 else A3\<lparr>a_ref := (a_ref A3)(n := a_ref A3 n + 1)\<rparr>) w" "klog w = (klog s)\<lparr>l_lh := header k' bs'\<rparr>"
      "log_only v w" by auto
    define A4 where "A4 = (if k' = k then A3 else A3\<lparr>a_ref := (a_ref A3)(n := a_ref A3 n + 1)\<rparr>)"
    have "a_loc A4 n = Some b" "n \<in> a_held A4" "a_ref A4 n = 2" using f kk by (auto simp: A4_def A3_def)
    moreover have "idle (insert n ?P) (V(n := g (V n))) D W (drop_ref n A4)"
      using i calculation(3) by (auto simp: idle_def drop_ref_def A4_def A3_def fun_eq_iff kk)
    ultimately have "wp (brelse b) (\<lambda>_ s'. cache_only w s' \<and> settled p d (insert n ?P) (V(n := g (V n))) D W s') w"
      using wp_brelse [of p d A4 w n b] w(2) by (auto simp: A4_def settled_def elim!: wp_mono)
    then have "wp (brelse b) (\<lambda>_ s'. settled p d (insert n ?P) (V(n := g (V n))) D W s' \<and> klog s' = (klog s)\<lparr>l_lh := header k' bs'\<rparr> \<and>
        log_only s s') w"
      by (rule wp_mono) (use w(3,4) sv in \<open>auto simp: cache_only_klog intro: log_onlyI log_only_trans\<close>)
    then show "wp (seq (log_write b) (seq (brelse b) (ret ())))
      (\<lambda>_ s'. settled p d (insert n ?P) (V(n := g (V n))) D W s' \<and> klog s' = (klog s)\<lparr>l_lh := header k' bs'\<rparr> \<and> log_only s s') v"
      using w(1) by (simp add: wp_seq wp_ret_ext wp_def [of "log_write b"])
  qed simp
qed

text \<open>
  C29. The way the file system changes a block inside a transaction --- \<open>bread\<close>, change the data, \<open>log_write\<close>,
  \<open>brelse\<close> --- keeps what \<open>commit\<close> needs: the readers see the new data, the disk is untouched, the block is in the
  transaction exactly once and pinned, whether it was there before or not, and the blocks of the transaction before stay in it.
\<close>

theorem logged_update:
  assumes s: "settled p d (bs ` {..<k}) V D W s" and l: "l_lh (klog s) = header k bs" "l_size (klog s) = LOGSIZE" "1 \<le> l_outstanding (klog s)"
    and t: "transaction st k bs" "k + 1 < LOGSIZE" and n: "n \<notin> log_area st"
  shows "\<exists>s' k' bs'. bnd (bread d n) (\<lambda>b. stmts [upd_buf b (\<lambda>x. x\<lparr>b_data := g (b_data x)\<rparr>), log_write b, brelse b]) s = Ok () s' \<and>
    settled p d (bs' ` {..<k'}) (V(n := g (V n))) D W s' \<and> klog s' = (klog s)\<lparr>l_lh := header k' bs'\<rparr> \<and>
    transaction st k' bs' \<and> bs' ` {..<k'} = insert n (bs ` {..<k})"
proof -
  obtain k' bs' where r: "record_block n k bs = (k', bs')" by fastforce
  note tr = transaction_record [OF t(1) n t(2) r]
  have "card (bs ` {..<k}) < NBUF" using card_image_le [of "{..<k}" bs] t(2) by simp
  then have "wp (bnd (bread d n) (\<lambda>b. stmts [upd_buf b (\<lambda>x. x\<lparr>b_data := g (b_data x)\<rparr>), log_write b, brelse b]))
    (\<lambda>_ s'. settled p d (insert n (bs ` {..<k})) (V(n := g (V n))) D W s' \<and> klog s' = (klog s)\<lparr>l_lh := header k' bs'\<rparr>) s"
    using l by (intro wp_bndI [OF wp_open [OF s]] wp_mono [OF wp_update_close [OF _ _ _ _ t(2) r]]) (auto simp: cache_only_klog)
  then obtain s' where "bnd (bread d n) (\<lambda>b. stmts [upd_buf b (\<lambda>x. x\<lparr>b_data := g (b_data x)\<rparr>), log_write b, brelse b]) s = Ok () s'"
    "settled p d (insert n (bs ` {..<k})) (V(n := g (V n))) D W s'" "klog s' = (klog s)\<lparr>l_lh := header k' bs'\<rparr>" by (auto simp: wp_iff)
  then show ?thesis using tr by (intro exI [of _ s'] exI [of _ k'] exI [of _ bs']) simp
qed

theorem logged_update_witness:
  "\<exists>s' k' bs'. bnd (bread 1 40) (\<lambda>b. stmts [upd_buf b (\<lambda>x. x\<lparr>b_data := (b_data x)(3 := 5)\<rparr>), log_write b, brelse b])
      (log_sys\<lparr>klog := (klog log_sys)\<lparr>l_outstanding := 1\<rparr>\<rparr>) = Ok () s' \<and>
    settled 0 1 (bs' ` {..<k' :: nat}) ((\<lambda>_ _. 0)(100 := \<lambda>_. 7, 40 := (\<lambda>_. 0)(3 := 5))) (\<lambda>_ _. 0) [] s' \<and>
    bs' ` {..<k'} = {40, 100}"
proof -
  let ?s = "log_sys\<lparr>klog := (klog log_sys)\<lparr>l_outstanding := 1\<rparr>\<rparr>"
  let ?V = "(\<lambda>_ _. 0)(100 := \<lambda>_. 7) :: u32 \<Rightarrow> bytes"
  have P: "(\<lambda>_. 100 :: u32) ` {..<1 :: nat} = {100}" by auto
  have "(100 :: u32) \<notin> log_area 2" and n: "(40 :: u32) \<notin> log_area 2" by code_simp+
  then have t: "transaction 2 1 (\<lambda>_. 100)" by (simp add: transaction_def inj_on_def)
  have s: "settled 0 1 ((\<lambda>_. 100) ` {..<1 :: nat}) ?V (\<lambda>_ _. 0) [] ?s" using log_sys_settled unfolding P by simp
  have k: "l_lh (klog ?s) = header 1 (\<lambda>_. 100)" "l_size (klog ?s) = LOGSIZE" "1 \<le> l_outstanding (klog ?s)" by (simp_all add: log_sys_def)
  have V: "?V(40 := (?V 40)(3 := 5)) = (\<lambda>_ _. 0)(100 := \<lambda>_. 7, 40 := (\<lambda>_. 0)(3 := 5))" by simp
  have "(1 :: nat) + 1 < LOGSIZE" by simp
  from logged_update [OF s k t this n, of "\<lambda>d. d(3 := 5)", unfolded P V]
  obtain s' k' bs' where "bnd (bread 1 40) (\<lambda>b. stmts [upd_buf b (\<lambda>x. x\<lparr>b_data := (b_data x)(3 := 5)\<rparr>), log_write b, brelse b]) ?s = Ok () s'"
    "settled 0 1 (bs' ` {..<k' :: nat}) ((\<lambda>_ _. 0)(100 := \<lambda>_. 7, 40 := (\<lambda>_. 0)(3 := 5))) (\<lambda>_ _. 0) [] s'" "bs' ` {..<k'} = {40, 100}"
    by (elim exE conjE) (rule that, assumption+)
  then show ?thesis by (intro exI [of _ s'] exI [of _ k'] exI [of _ bs'] conjI)
qed


text \<open>
  C30. What \<open>begin_op\<close> reserves is one block more than \<open>log_write\<close> accepts: with an empty log a third operation is let
  in beside two others, so that together they may write 3 * MAXOPBLOCKS blocks, but in a log of LOGSIZE blocks, as
  \<^verbatim>\<open>mkfs\<close> makes it, the last of these writes panics.
\<close>

theorem log_overcommit:
  assumes "quiet p s" "\<not> l_committing (klog s)" "lh_n (l_lh (klog s)) = 0" "l_outstanding (klog s) = 2"
  shows "\<exists>s'. begin_op s = Ok () s' \<and> l_outstanding (klog s') = 3 \<and>
    (\<forall>t b. unlocked L_log t \<longrightarrow> l_size (klog t) = LOGSIZE \<longrightarrow> lh_n (l_lh (klog t)) = 3 * MAXOPBLOCKS - 1 \<longrightarrow>
      log_write b (t :: 'x log_st_scheme) = Panic ''too big a transaction'')"
proof -
  have u: "unlocked L_log s" "cpu_ok s" using assms(1) by (simp_all add: quiet_def)
  have a: "klog (acq L_log r) = klog r" for r :: "'y log_st_scheme" by (simp add: acq_def)
  let ?L = "(klog s)\<lparr>l_outstanding := 3\<rparr>"
  have "release L_log ((acq L_log s)\<lparr>klog := ?L\<rparr>) = Ok () (s\<lparr>klog := ?L, cpus := cs_cpus s\<rparr>)"
    using release_acq [OF u, of "(acq L_log s)\<lparr>klog := ?L\<rparr>"] by (simp add: acq_def)
  then have "begin_op s = Ok () (s\<lparr>klog := ?L, cpus := cs_cpus s\<rparr>)"
    using assms(2-4) by (simp add: begin_op_def begin_op_loop_def seq_def bnd_def acquire_unlocked [OF u(1)] a upd_log_def)
  moreover have "log_write b t = Panic ''too big a transaction''"
    if "unlocked L_log t" "l_size (klog t) = LOGSIZE" "lh_n (l_lh (klog t)) = 3 * MAXOPBLOCKS - 1" for b and t :: "'x log_st_scheme"
    using that(2,3) by (simp add: log_write_def seq_def bnd_def acquire_unlocked [OF that(1)] a)
  ultimately show ?thesis by auto
qed

theorem log_overcommit_witness:
  "\<exists>s'. begin_op (log_sys\<lparr>klog := (klog log_sys)\<lparr>l_committing := False, l_outstanding := 2, l_lh := header 0 (\<lambda>_. 0)\<rparr>\<rparr>) = Ok () s' \<and>
    l_outstanding (klog s') = 3 \<and>
    log_write 0 (log_sys\<lparr>klog := (klog log_sys)\<lparr>l_lh := header 29 (\<lambda>_. 0)\<rparr>\<rparr>) = Panic ''too big a transaction''"
proof -
  let ?s = "log_sys\<lparr>klog := (klog log_sys)\<lparr>l_committing := False, l_outstanding := 2, l_lh := header 0 (\<lambda>_. 0)\<rparr>\<rparr>"
  let ?t = "log_sys\<lparr>klog := (klog log_sys)\<lparr>l_lh := header 29 (\<lambda>_. 0)\<rparr>\<rparr>"
  have "quiet 0 ?s" "\<not> l_committing (klog ?s)" "lh_n (l_lh (klog ?s)) = 0" "l_outstanding (klog ?s) = 2"
    "unlocked L_log ?t" "l_size (klog ?t) = LOGSIZE" "lh_n (l_lh (klog ?t)) = 3 * MAXOPBLOCKS - 1"
    by (simp_all add: log_sys_def quiet_def cpu_ok_def unlocked_def header_def)
  then show ?thesis using log_overcommit [where 'x = unit, of 0 ?s] by blast
qed

end
