(* ===== verification/Spec2Isabelle.thy ===== *)
theory Spec2Isabelle
  imports Trap Consops Printfops Grep Xargs Primes Shparse Shnul Umalloc Logops
begin

text \<open>
  A verification development for a small Unix-like operating system for RISC-V: a kernel
  (\<^verbatim>\<open>src/kernel\<close>), a user library and user programs (\<^verbatim>\<open>src/user\<close>), and the tool that makes the file system
  image (\<^verbatim>\<open>src/mkfs\<close>).

  \<^bold>\<open>The kernel.\<close> A kernel operation is a function from a machine state to an outcome (theory \<open>Prelude\<close>): it
  returns a value and a state, panics, gives up the CPU in \<open>swtch\<close>, spins on a lock another CPU holds, exceeds an
  iteration bound of the model, or is undefined in C. Operations are composed with \<open>bnd\<close>, \<open>seq\<close>, \<open>stmts\<close> and the loops
  \<open>kfor\<close>, \<open>kfind\<close>, \<open>kiter\<close> as the code composes them, and proofs go through the weakest preconditions \<open>wp\<close>.
  The state is a record that each component extends by its own variables, in this order of theories:

  \<^item> \<open>Spinlock\<close> (\<^verbatim>\<open>spinlock.c\<close>, registers of \<^verbatim>\<open>riscv.h\<close>): CPUs, interrupt nesting, spinlocks.
  \<^item> \<open>Cstring\<close> (\<^verbatim>\<open>string.c\<close>); \<open>Kalloc\<close> (\<^verbatim>\<open>kalloc.c\<close>): the free list threaded through memory.
  \<^item> \<open>Vm\<close> (\<^verbatim>\<open>vm.c\<close>): Sv39 page tables in memory; \<open>Pagetable\<close> and \<open>Vmspace\<close> prove that a walk is a
    tree lookup and what mapping and copying do.
  \<^item> \<open>Printf\<close> (\<^verbatim>\<open>printf.c\<close>), with \<open>Numerals\<close> and \<open>Printfops\<close>.
  \<^item> \<open>Proc\<close> and \<open>ProcLife\<close> (\<^verbatim>\<open>proc.c\<close>, \<^verbatim>\<open>sleeplock.c\<close>): the process table, scheduling, sleep and wakeup, fork, exit, wait;
    \<open>Procops\<close> gives the operations as equations on states.
  \<^item> \<open>Bio\<close> (\<^verbatim>\<open>bio.c\<close>) and \<open>Log\<close> (\<^verbatim>\<open>log.c\<close>); \<open>Bioops\<close> shows that the ring of buffers behaves as a table of blocks,
    \<open>Logops\<close> that transactions are atomic under crashes.
  \<^item> \<open>Fs\<close> (\<^verbatim>\<open>fs.c\<close>): block bitmap, inodes, directories, paths.
  \<^item> \<open>Uart\<close> (\<^verbatim>\<open>uart.c\<close>, \<^verbatim>\<open>console.c\<close>), \<open>Pipe\<close> (\<^verbatim>\<open>pipe.c\<close>), with the locale \<open>bounded_queue\<close> of \<open>Ring\<close> interpreted for both
    ring buffers; \<open>Consops\<close> and \<open>Pipeops\<close> show what readers and writers get.
  \<^item> \<open>File\<close> (\<^verbatim>\<open>file.c\<close>), \<open>Exec\<close> (\<^verbatim>\<open>exec.c\<close>), \<open>Sysarg\<close> and \<open>Syscall\<close> (\<^verbatim>\<open>syscall.c\<close>, \<^verbatim>\<open>sysproc.c\<close>), \<open>Sysfile\<close>
    (\<^verbatim>\<open>sysfile.c\<close>), \<open>Virtio\<close> (\<^verbatim>\<open>virtio_disk.c\<close>), \<open>Trap\<close> (\<^verbatim>\<open>trap.c\<close>, \<^verbatim>\<open>plic.c\<close>, \<^verbatim>\<open>main.c\<close>).

  An operation that sleeps is split where it gives up the CPU: the outcome \<open>Swtch s\<close> is the state at the switch, and
  a separate definition is what the woken thread goes on with. Interleavings are sequences of such
  steps, on the CPU the state names in \<open>hart\<close>.

  \<^bold>\<open>User programs.\<close> A user program is the tree of the system calls it makes (\<open>Usys\<close>); \<open>urun\<close> runs it against a kernel given
  as a function on calls, \<open>ustream\<close> is the kernel of a program that reads and writes streams in
  arbitrary pieces, and \<open>uspawn\<close> one that runs children at \<open>fork\<close>. \<open>Ulib\<close>, \<open>Uprintf\<close> and \<open>Umalloc\<close> model the user library,
  \<open>Coreutils\<close>, \<open>Grep\<close>, \<open>Xargs\<close>, \<open>Primes\<close> and \<open>Sh\<close> the programs; \<open>Shparse\<close> and \<open>Shnul\<close> hold the proofs about the
  parser of the shell.

  \<^bold>\<open>What is shown.\<close> Mutual exclusion of spinlocks and sleep locks; that the page allocator accounts for every page;
  that mapping and copying between address spaces are exact; that no wakeup is lost; that pipes, the
  console and the UART deliver bytes in order; that the log makes commits atomic under crashes at any point, including crashes
  during recovery; that printed numbers are the numbers and read back; that \<open>malloc\<close> hands out disjoint blocks; and that the
  user programs compute what they are for. The claims are numbered C1, C2, and so on, and stand after a text that states them.

  \<^bold>\<open>Bounds.\<close> Loops that end after a fixed number of rounds have that number as their fuel: a page-table walk its levels, a
  scan of a table its size, a walk around the ring of buffers one more than its length, a copy one round for each byte. The
  loops of user programs are given fuel by a theorem's hypothesis, always a bound in the size of the input.

  \<^bold>\<open>Not modelled.\<close> Assembly (\<^verbatim>\<open>entry.S\<close>, \<^verbatim>\<open>swtch.S\<close>, \<^verbatim>\<open>trampoline.S\<close>, \<^verbatim>\<open>kernelvec.S\<close>, \<^verbatim>\<open>initcode.S\<close>) and the linker script; the TLB; the
  devices behind the registers, whose reads are inputs; the busy waits of the UART driver. \<^verbatim>\<open>ramdisk.c\<close> is not part of the build.
  The stress tests \<^verbatim>\<open>usertests.c\<close> and \<^verbatim>\<open>grind.c\<close> are clients of the system calls and have no behaviour of their own to verify.
\<close>

end
